(* ===== verification/Go_Prelude.thy ===== *)
theory Go_Prelude
  imports Main "HOL-Library.Multiset" "HOL-Library.Word"
begin

text \<open>
  The part of Go that every component uses: run-time panics as values, indexing and slicing with
  their bounds checks, \<^verbatim>\<open>copy\<close>, nil slices, and the generic list lemmas that the component
  theories share.

  A computation that may panic has type \<open>'a res\<close>: \<open>Inl p\<close> is the panic \<open>p\<close> (the goroutine, and with
  it the process, stops), \<open>Inr x\<close> is a normal return. Go's \<^verbatim>\<open>int\<close> is modelled by \<open>int\<close>: the terms,
  indices and counters of the repository grow by one per operation, and no theorem below depends on
  reaching \<open>2 ^ 63\<close>; where the width matters (\<^verbatim>\<open>uint64\<close> bit sets, hashes) the model uses words.
\<close>

named_theorems go_simps \<open>unfolding of the Go primitives on arguments that are in range\<close>

datatype panic =
    IndexOutOfRange
  | SliceOutOfRange
  | NilDereference
  | DivideByZero
  | ExplicitPanic string
  | LogFatal string

type_synonym 'a res = "panic + 'a"

type_synonym 'a slice = "'a list option" \<comment> \<open>a Go slice value that may be nil\<close>

type_synonym bytes = "8 word slice"

section \<open>Sequencing of computations that may panic\<close>

definition bindR :: "'a res \<Rightarrow> ('a \<Rightarrow> 'b res) \<Rightarrow> 'b res" where
  "bindR m f = (case m of Inl p \<Rightarrow> Inl p | Inr x \<Rightarrow> f x)"

lemma bindR_Inl [simp]: "bindR (Inl p) f = Inl p"
  by (simp add: bindR_def)

lemma bindR_Inr [simp]: "bindR (Inr x) f = f x"
  by (simp add: bindR_def)

lemma bindR_eq_Inr_iff: "bindR m f = Inr y \<longleftrightarrow> (\<exists>x. m = Inr x \<and> f x = Inr y)"
  by (cases m) auto

lemma bindR_eq_InrE [elim!]:
  assumes "bindR m f = Inr y"
  obtains x where "m = Inr x" "f x = Inr y"
  using assms by (auto simp: bindR_eq_Inr_iff)

lemma bindR_eq_Inl_iff: "bindR m f = Inl p \<longleftrightarrow> m = Inl p \<or> (\<exists>x. m = Inr x \<and> f x = Inl p)"
  by (cases m) auto

lemma bindR_assoc: "bindR (bindR m f) g = bindR m (\<lambda>x. bindR (f x) g)"
  by (cases m) auto

lemma bindR_cong [fundef_cong]:
  "m = m' \<Longrightarrow> (\<And>x. m' = Inr x \<Longrightarrow> f x = f' x) \<Longrightarrow> bindR m f = bindR m' f'"
  by (cases m') auto

definition returns :: "'a res \<Rightarrow> bool" where
  "returns m \<longleftrightarrow> (case m of Inl _ \<Rightarrow> False | Inr _ \<Rightarrow> True)"

lemma returns_simps [simp]: "returns (Inr x)" "\<not> returns (Inl p)"
  by (simp_all add: returns_def)

lemma returns_iff: "returns m \<longleftrightarrow> (\<exists>x. m = Inr x)"
  by (cases m) auto

text \<open>Running a list of computations in order, and folding a computation over a list.\<close>

fun mapR :: "('a \<Rightarrow> 'b res) \<Rightarrow> 'a list \<Rightarrow> 'b list res" where
  "mapR f [] = Inr []"
| "mapR f (x # xs) = bindR (f x) (\<lambda>y. bindR (mapR f xs) (\<lambda>ys. Inr (y # ys)))"

fun foldR :: "('s \<Rightarrow> 'a \<Rightarrow> 's res) \<Rightarrow> 's \<Rightarrow> 'a list \<Rightarrow> 's res" where
  "foldR f s [] = Inr s"
| "foldR f s (x # xs) = bindR (f s x) (\<lambda>s'. foldR f s' xs)"

lemma mapR_eq_Inr_iff:
  "mapR f xs = Inr ys \<longleftrightarrow> length ys = length xs \<and> (\<forall>i < length xs. f (xs ! i) = Inr (ys ! i))"
proof (induction xs arbitrary: ys)
  case (Cons x xs)
  then show ?case
    by (cases ys) (auto simp: bindR_eq_Inr_iff All_less_Suc2)
qed auto

lemma foldR_append: "foldR f s (xs @ ys) = bindR (foldR f s xs) (\<lambda>s'. foldR f s' ys)"
  by (induction xs arbitrary: s) (auto simp: bindR_assoc)

section \<open>Indexing, slicing, copying\<close>

definition index :: "'a list \<Rightarrow> int \<Rightarrow> 'a res" where
  "index xs i = (if 0 \<le> i \<and> i < int (length xs) then Inr (xs ! nat i) else Inl IndexOutOfRange)"

definition set_index :: "'a list \<Rightarrow> int \<Rightarrow> 'a \<Rightarrow> 'a list res" where
  "set_index xs i v =
     (if 0 \<le> i \<and> i < int (length xs) then Inr (xs[nat i := v]) else Inl IndexOutOfRange)"

text \<open>
  \<^verbatim>\<open>xs[lo:]\<close>, \<^verbatim>\<open>xs[:hi]\<close> and \<^verbatim>\<open>xs[lo:hi]\<close>. Go lets \<^verbatim>\<open>hi\<close> run up to the capacity of the backing array;
  the model keeps no capacities and panics as soon as \<open>hi\<close> passes the length. The theorems about the
  callers show that \<open>hi\<close> is never beyond the length there.
\<close>

definition slice_from :: "'a list \<Rightarrow> int \<Rightarrow> 'a list res" where
  "slice_from xs lo =
     (if 0 \<le> lo \<and> lo \<le> int (length xs) then Inr (drop (nat lo) xs) else Inl SliceOutOfRange)"

definition slice_to :: "'a list \<Rightarrow> int \<Rightarrow> 'a list res" where
  "slice_to xs hi =
     (if 0 \<le> hi \<and> hi \<le> int (length xs) then Inr (take (nat hi) xs) else Inl SliceOutOfRange)"

definition slice_between :: "'a list \<Rightarrow> int \<Rightarrow> int \<Rightarrow> 'a list res" where
  "slice_between xs lo hi =
     (if 0 \<le> lo \<and> lo \<le> hi \<and> hi \<le> int (length xs)
      then Inr (drop (nat lo) (take (nat hi) xs)) else Inl SliceOutOfRange)"

text \<open>\<^verbatim>\<open>copy(dst, src)\<close> overwrites the common prefix and leaves the rest of \<open>dst\<close>.\<close>

definition copy_into :: "'a list \<Rightarrow> 'a list \<Rightarrow> 'a list" where
  "copy_into dst src = take (length dst) src @ drop (length src) dst"

definition slice_elems :: "'a slice \<Rightarrow> 'a list" where
  "slice_elems s = (case s of None \<Rightarrow> [] | Some xs \<Rightarrow> xs)"

lemma slice_elems_simps [simp]: "slice_elems None = []" "slice_elems (Some xs) = xs"
  by (simp_all add: slice_elems_def)

lemma index_ok [go_simps]: "0 \<le> i \<Longrightarrow> i < int (length xs) \<Longrightarrow> index xs i = Inr (xs ! nat i)"
  by (simp add: index_def)

lemma index_of_nat [simp]: "n < length xs \<Longrightarrow> index xs (int n) = Inr (xs ! n)"
  by (simp add: index_def)

lemma index_0 [simp]: "xs \<noteq> [] \<Longrightarrow> index xs 0 = Inr (hd xs)"
  by (simp add: index_def hd_conv_nth)

lemma index_last [simp]: "xs \<noteq> [] \<Longrightarrow> index xs (int (length xs) - 1) = Inr (last xs)"
  by (cases xs rule: rev_cases) (auto simp: index_def nat_diff_distrib)

lemma index_eq_Inr_iff:
  "index xs i = Inr x \<longleftrightarrow> 0 \<le> i \<and> i < int (length xs) \<and> x = xs ! nat i"
  by (auto simp: index_def)

lemma set_index_eq_Inr_iff:
  "set_index xs i v = Inr ys \<longleftrightarrow> 0 \<le> i \<and> i < int (length xs) \<and> ys = xs[nat i := v]"
  by (auto simp: set_index_def)

lemma set_index_ok [go_simps]:
  "0 \<le> i \<Longrightarrow> i < int (length xs) \<Longrightarrow> set_index xs i v = Inr (xs[nat i := v])"
  by (simp add: set_index_def)

lemma slice_from_ok [go_simps]:
  "0 \<le> lo \<Longrightarrow> lo \<le> int (length xs) \<Longrightarrow> slice_from xs lo = Inr (drop (nat lo) xs)"
  by (simp add: slice_from_def)

lemma slice_from_eq_Inr_iff:
  "slice_from xs lo = Inr ys \<longleftrightarrow> 0 \<le> lo \<and> lo \<le> int (length xs) \<and> ys = drop (nat lo) xs"
  by (auto simp: slice_from_def)

lemma slice_to_ok [go_simps]:
  "0 \<le> hi \<Longrightarrow> hi \<le> int (length xs) \<Longrightarrow> slice_to xs hi = Inr (take (nat hi) xs)"
  by (simp add: slice_to_def)

lemma slice_to_eq_Inr_iff:
  "slice_to xs hi = Inr ys \<longleftrightarrow> 0 \<le> hi \<and> hi \<le> int (length xs) \<and> ys = take (nat hi) xs"
  by (auto simp: slice_to_def)

lemma slice_between_eq_Inr_iff:
  "slice_between xs lo hi = Inr ys \<longleftrightarrow>
     0 \<le> lo \<and> lo \<le> hi \<and> hi \<le> int (length xs) \<and> ys = drop (nat lo) (take (nat hi) xs)"
  by (auto simp: slice_between_def)

lemma length_copy_into [simp]: "length (copy_into dst src) = length dst"
  by (simp add: copy_into_def)

lemma copy_into_same_length [simp]: "length dst = length src \<Longrightarrow> copy_into dst src = src"
  by (simp add: copy_into_def)

lemmas res_elims = index_eq_Inr_iff set_index_eq_Inr_iff slice_from_eq_Inr_iff
  slice_to_eq_Inr_iff slice_between_eq_Inr_iff

section \<open>Lists and majorities\<close>

lemma take_eq_nth_eq: "take n xs = take n ys \<Longrightarrow> i < n \<Longrightarrow> i < length xs \<Longrightarrow> xs ! i = ys ! i"
  by (metis nth_take)

lemma take_mono_eq: "take n xs = take n ys \<Longrightarrow> m \<le> n \<Longrightarrow> take m xs = take m ys"
  by (metis min.absorb1 take_take)

lemma card_gt_half_intersect:
  assumes "finite U" "A \<subseteq> U" "B \<subseteq> U" "card U div 2 < card A" "card U div 2 < card B"
  shows "A \<inter> B \<noteq> {}"
proof
  assume "A \<inter> B = {}"
  moreover have "finite A" "finite B"
    using assms(1-3) by (auto intro: finite_subset)
  ultimately have "card A + card B = card (A \<union> B)"
    by (simp add: card_Un_disjoint)
  also have "\<dots> \<le> card U"
    using assms(1-3) by (intro card_mono) auto
  finally show False
    using assms(4,5) by linarith
qed

section \<open>Frames and refinement\<close>

text \<open>
  What a family of operations leaves unchanged is a reflexive and transitive relation between the states before and after. A sequence
  of operations that stay within the frame stays within it.
\<close>

locale frame =
  fixes R :: "'s \<Rightarrow> 's \<Rightarrow> bool"
  assumes refl: "R s s" and trans: "R s t \<Longrightarrow> R t u \<Longrightarrow> R s u"
begin

lemma foldR_frame:
  assumes "\<And>c x c'. f c x = Inr c' \<Longrightarrow> R c c'" "foldR f c xs = Inr c'"
  shows "R c c'"
  using assms(2)
proof (induction xs arbitrary: c)
  case Nil
  then show ?case by (simp add: refl)
next
  case (Cons x xs)
  then obtain c1 where "f c x = Inr c1" "foldR f c1 xs = Inr c'" by auto
  then show ?case using Cons.IH assms(1) trans by blast
qed

lemma bindR_frame:
  assumes "bindR m f = Inr c'" "\<And>c1. m = Inr c1 \<Longrightarrow> R c c1" "\<And>c1. f c1 = Inr c' \<Longrightarrow> R c1 c'"
  shows "R c c'"
  using assms trans by blast

end

text \<open>A loop is refined by the fold of the abstract operation that refines its body.\<close>

lemma foldR_refines:
  assumes "\<And>c x L. x \<in> set xs \<Longrightarrow> R c L \<Longrightarrow> \<exists>c'. f c x = Inr c' \<and> R c' (g x L)" "R c L"
  shows "\<exists>c'. foldR f c xs = Inr c' \<and> R c' (fold g xs L)"
  using assms
proof (induction xs arbitrary: c L)
  case (Cons x xs)
  then obtain c1 where c1: "f c x = Inr c1" "R c1 (g x L)" by fastforce
  then show ?case using Cons.IH [of c1 "g x L"] Cons.prems(1) by fastforce
qed simp

section \<open>Decimal numbers\<close>

text \<open>\<^verbatim>\<open>strconv.Itoa\<close> on numbers that are not negative.\<close>

definition digit :: "nat \<Rightarrow> char" where
  "digit d = char_of (48 + d)"

fun Itoa :: "nat \<Rightarrow> string" where
  "Itoa n = (if n < 10 then [digit n] else Itoa (n div 10) @ [digit (n mod 10)])"

declare Itoa.simps [simp del]

end
