(* ===== verification/Raft_Types.thy ===== *)
theory Raft_Types
  imports Go_Prelude
begin

text \<open>
  The data of the Raft package: log entries, the messages of the three RPCs and of the apply channel
  (src/raft/util.go, src/raft/rpc.go), the persister (src/raft/persister.go) and the \<^verbatim>\<open>Raft\<close> struct
  (src/raft/raft.go).

  A command is \<open>'c option\<close>: Go's \<^verbatim>\<open>interface{}\<close> with \<open>None\<close> for nil. Fields that several Go structs
  share carry the initials of their struct, because record selectors of one name would hide each
  other.
\<close>

section \<open>Log entries and messages\<close>

record 'c LogEntry =
  Command :: "'c option"
  Term :: int
  Index :: int

lemma LogEntry_update_all [simp]:
  fixes e :: "'c LogEntry"
  shows "e\<lparr>Command := c, Term := t, Index := i\<rparr> = \<lparr>Command = c, Term = t, Index = i\<rparr>"
  by (cases e) simp

datatype NodeState = Follower | Candidate | Leader

definition zero_entry :: "'c LogEntry" where
  "zero_entry = \<lparr>Command = None, Term = 0, Index = 0\<rparr>"

definition NodeState_String :: "NodeState \<Rightarrow> string" where
  "NodeState_String s =
     (case s of Follower \<Rightarrow> ''Follower'' | Candidate \<Rightarrow> ''Candidate'' | Leader \<Rightarrow> ''Leader'')"

record RequestVoteArgs =
  rv_Term :: int
  rv_CandidateId :: int
  rv_LastLogIndex :: int
  rv_LastLogTerm :: int

record RequestVoteReply =
  rvr_Term :: int
  rvr_VoteGranted :: bool

record 'c AppendEntriesArgs =
  ae_Term :: int
  ae_LeaderId :: int
  ae_PrevLogIndex :: int
  ae_PrevLogTerm :: int
  ae_LeaderCommit :: int
  ae_Entries :: "'c LogEntry list"

record AppendEntriesReply =
  aer_Term :: int
  aer_Success :: bool
  aer_ConflictIndex :: int
  aer_ConflictTerm :: int

record InstallSnapshotArgs =
  is_Term :: int
  is_LeaderId :: int
  is_LastIncludedIndex :: int
  is_LastIncludedTerm :: int
  is_Data :: bytes

record InstallSnapshotReply =
  isr_Term :: int

record 'c ApplyMsg =
  CommandValid :: bool
  am_Command :: "'c option"
  CommandIndex :: int
  CommandTerm :: int
  SnapshotValid :: bool
  am_Snapshot :: bytes
  SnapshotTerm :: int
  SnapshotIndex :: int

definition command_msg :: "'c LogEntry \<Rightarrow> 'c ApplyMsg" where
  "command_msg e =
     \<lparr>CommandValid = True, am_Command = Command e, CommandIndex = Index e, CommandTerm = Term e,
      SnapshotValid = False, am_Snapshot = None, SnapshotTerm = 0, SnapshotIndex = 0\<rparr>"

section \<open>The persister\<close>

text \<open>
  A byte string written by \<^verbatim>\<open>labgob\<close> is represented by the values encoded in it, in order: an
  encoder appends a value, a decoder takes the next one and fails at the end of the stream or on a
  value of another type. Nothing else in the package looks into such a string except a test for
  emptiness.
\<close>

datatype 'c gobval = GobInt int | GobLogs "'c LogEntry list"

record 'c Persister =
  raftstate :: "'c gobval slice"
  snapshot :: bytes

definition MakePersister :: "'c Persister" where
  "MakePersister = \<lparr>raftstate = None, snapshot = None\<rparr>"

text \<open>A clone is a fresh slice of the same elements; the clone of nil is empty and not nil.\<close>

definition clone :: "'a slice \<Rightarrow> 'a slice" where
  "clone orig = Some (slice_elems orig)"

definition Persister_Copy :: "'c Persister \<Rightarrow> 'c Persister" where
  "Persister_Copy ps = MakePersister\<lparr>raftstate := raftstate ps, snapshot := snapshot ps\<rparr>"

definition ReadRaftState :: "'c Persister \<Rightarrow> 'c gobval slice" where
  "ReadRaftState ps = clone (raftstate ps)"

definition SaveStateAndSnapshot ::
  "'c Persister \<Rightarrow> 'c gobval slice \<Rightarrow> bytes \<Rightarrow> 'c Persister" where
  "SaveStateAndSnapshot ps st snap =
     (let ps1 = ps\<lparr>raftstate := clone st\<rparr>
      in if snap \<noteq> None then ps1\<lparr>snapshot := clone snap\<rparr> else ps1)"

definition ReadSnapshot :: "'c Persister \<Rightarrow> bytes" where
  "ReadSnapshot ps = clone (snapshot ps)"

definition SnapshotSize :: "'c Persister \<Rightarrow> int" where
  "SnapshotSize ps = int (length (slice_elems (snapshot ps)))"

text \<open>Decoding into a variable of type \<^verbatim>\<open>int\<close> or \<^verbatim>\<open>[]LogEntry\<close>: the rest of the stream and the value.\<close>

definition decode_int :: "'c gobval list \<Rightarrow> ('c gobval list \<times> int) option" where
  "decode_int d = (case d of GobInt i # r \<Rightarrow> Some (r, i) | _ \<Rightarrow> None)"

definition decode_logs :: "'c gobval list \<Rightarrow> ('c gobval list \<times> 'c LogEntry list) option" where
  "decode_logs d = (case d of GobLogs l # r \<Rightarrow> Some (r, l) | _ \<Rightarrow> None)"

lemma raftstate_Save [simp]:
  "raftstate (SaveStateAndSnapshot ps st snap) = Some (slice_elems st)"
  by (simp add: SaveStateAndSnapshot_def Let_def clone_def)

lemma snapshot_Save [simp]:
  "snapshot (SaveStateAndSnapshot ps st snap) = (if snap = None then snapshot ps else snap)"
  by (auto simp: SaveStateAndSnapshot_def Let_def clone_def)

lemma Save_Read:
  "ReadRaftState (SaveStateAndSnapshot ps st snap) = Some (slice_elems st)"
  "ReadSnapshot (SaveStateAndSnapshot ps st snap) =
     Some (slice_elems (if snap = None then snapshot ps else snap))"
  by (simp_all add: ReadRaftState_def ReadSnapshot_def SaveStateAndSnapshot_def Let_def clone_def)

section \<open>The Raft struct\<close>

text \<open>
  \<open>peers\<close> is the number of peers. A timer is represented by whether it is armed: the random durations
  are not modelled, so a timer event may come at any time. Locks, condition variables and the
  apply channel are not state of the record: an operation that runs under \<^verbatim>\<open>rf.mu\<close> is one function,
  and what it signals, sends or starts in the background is returned as a list of effects.
\<close>

record 'c Raft =
  peers :: nat
  persister :: "'c Persister"
  me :: int
  dead :: bool
  currentTerm :: int
  votedFor :: int
  logs :: "'c LogEntry list"
  commitIndex :: int
  lastApplied :: int
  nextIndex :: "int list"
  matchIndex :: "int list"
  state :: NodeState
  electionTimer :: bool
  heartbeatTimer :: bool

datatype 'c effect =
    SignalReplicator int            \<comment> \<open>\<^verbatim>\<open>rf.replicatorCond[peer].Signal()\<close>\<close>
  | GoReplicateOnceRound int        \<comment> \<open>\<^verbatim>\<open>go rf.replicateOnceRound(peer)\<close>\<close>
  | SignalApply                     \<comment> \<open>\<^verbatim>\<open>rf.applyCond.Signal()\<close>\<close>
  | GoRequestVote int RequestVoteArgs \<comment> \<open>the goroutine that \<^verbatim>\<open>StartElection\<close> starts for one peer\<close>
  | GoApplyMsg "'c ApplyMsg"        \<comment> \<open>the goroutine that sends a snapshot on the apply channel\<close>

text \<open>The peers other than the node itself, in the order of \<^verbatim>\<open>range rf.peers\<close>.\<close>

definition other_peers :: "'c Raft \<Rightarrow> int list" where
  "other_peers rf = filter (\<lambda>p. p \<noteq> me rf) (map int [0..<peers rf])"

section \<open>Small helpers of util.go\<close>

definition Min_go :: "int \<Rightarrow> int \<Rightarrow> int" where
  "Min_go a b = (if a < b then a else b)"

definition Max_go :: "int \<Rightarrow> int \<Rightarrow> int" where
  "Max_go a b = (if a > b then a else b)"

lemma Min_go_min [simp]: "Min_go a b = min a b"
  by (simp add: Min_go_def min_def)

lemma Max_go_max [simp]: "Max_go a b = max a b"
  by (simp add: Max_go_def max_def)

text \<open>
  \<^verbatim>\<open>shrinkEntries\<close> looks at the capacity of the slice, which is an argument here; the entries it
  returns do not depend on it.
\<close>

definition shrinkEntries :: "nat \<Rightarrow> 'c LogEntry list \<Rightarrow> 'c LogEntry list" where
  "shrinkEntries cap entries =
     (if cap > length entries * 2
      then copy_into (replicate (length entries) zero_entry) entries
      else entries)"

lemma shrinkEntries_id [simp]: "shrinkEntries cap entries = entries"
  by (simp add: shrinkEntries_def)

definition getLastLog :: "'c Raft \<Rightarrow> 'c LogEntry res" where
  "getLastLog rf = index (logs rf) (int (length (logs rf)) - 1)"

definition getFirstLog :: "'c Raft \<Rightarrow> 'c LogEntry res" where
  "getFirstLog rf = index (logs rf) 0"

lemma getLastLog_ok [simp]: "logs rf \<noteq> [] \<Longrightarrow> getLastLog rf = Inr (last (logs rf))"
  by (simp add: getLastLog_def)

lemma getFirstLog_ok [simp]: "logs rf \<noteq> [] \<Longrightarrow> getFirstLog rf = Inr (hd (logs rf))"
  by (simp add: getFirstLog_def)

lemma getLastLog_eq_Inr_iff:
  "getLastLog rf = Inr e \<longleftrightarrow> logs rf \<noteq> [] \<and> e = last (logs rf)"
  using getLastLog_ok [of rf] by (cases "logs rf = []") (auto simp: getLastLog_def index_def)

lemma getFirstLog_eq_Inr_iff:
  "getFirstLog rf = Inr e \<longleftrightarrow> logs rf \<noteq> [] \<and> e = hd (logs rf)"
  using getFirstLog_ok [of rf] by (cases "logs rf = []") (auto simp: getFirstLog_def index_def)

end
