(* ===== verification/Raft_Node.thy ===== *)
theory Raft_Node
  imports Raft_Types
begin

text \<open>
  The operations of one Raft node, from src/raft/raft.go and src/raft/rpc.go. Every operation runs
  under \<^verbatim>\<open>rf.mu\<close> and is one function from the node to the node, its reply and its effects; where the
  Go code releases the lock around an RPC (\<^verbatim>\<open>StartElection\<close>, \<^verbatim>\<open>replicateOnceRound\<close>, \<^verbatim>\<open>applier\<close>) there is
  one function per critical section. Debug output is left out.
\<close>

section \<open>State changes and persistence\<close>

definition ChangeState :: "'c Raft \<Rightarrow> NodeState \<Rightarrow> 'c Raft" where
  "ChangeState rf s =
     (if state rf = s then rf
      else let rf1 = rf\<lparr>state := s\<rparr>
           in case s of
                Follower \<Rightarrow> rf1\<lparr>electionTimer := True, heartbeatTimer := False\<rparr>
              | Candidate \<Rightarrow> rf1
              | Leader \<Rightarrow> rf1\<lparr>electionTimer := False, heartbeatTimer := True\<rparr>)"

definition GetState :: "'c Raft \<Rightarrow> int \<times> bool" where
  "GetState rf = (currentTerm rf, state rf = Leader)"

definition GetId :: "'c Raft \<Rightarrow> int" where
  "GetId rf = me rf"

definition encodeState :: "'c Raft \<Rightarrow> 'c gobval list" where
  "encodeState rf = [GobInt (currentTerm rf), GobInt (votedFor rf), GobLogs (logs rf)]"

definition persist :: "'c Raft \<Rightarrow> 'c Raft" where
  "persist rf = rf\<lparr>persister := SaveStateAndSnapshot (persister rf) (Some (encodeState rf)) None\<rparr>"

text \<open>
  The three \<^verbatim>\<open>Decode\<close> calls are joined by \<^verbatim>\<open>||\<close>: the first failure skips the others, their variables
  keep the zero value, and the function goes on after printing a message.
\<close>

definition decode_state :: "'c gobval list \<Rightarrow> int \<times> int \<times> 'c LogEntry list" where
  "decode_state d =
     (case decode_int d of
        None \<Rightarrow> (0, 0, [])
      | Some (d1, t) \<Rightarrow>
          (case decode_int d1 of
             None \<Rightarrow> (t, 0, [])
           | Some (d2, v) \<Rightarrow>
               (case decode_logs d2 of
                  None \<Rightarrow> (t, v, [])
                | Some (_, l) \<Rightarrow> (t, v, l))))"

definition readPersist :: "'c Raft \<Rightarrow> 'c gobval slice \<Rightarrow> 'c Raft res" where
  "readPersist rf data =
     (if data = None \<or> length (slice_elems data) < 1 then Inr rf
      else
        let (t, v, l) = decode_state (slice_elems data);
            rf1 = rf\<lparr>currentTerm := t, votedFor := v, logs := l\<rparr>
        in bindR (getFirstLog rf1) (\<lambda>f.
             Inr (rf1\<lparr>lastApplied := Index f, commitIndex := Index f\<rparr>)))"

section \<open>Snapshots\<close>

text \<open>\<^verbatim>\<open>rf.logs[0].Command = nil\<close>, and the assignment of term and index to the first entry.\<close>

definition clear_first_command :: "'c LogEntry list \<Rightarrow> 'c LogEntry list res" where
  "clear_first_command l = bindR (index l 0) (\<lambda>e. set_index l 0 (e\<lparr>Command := None\<rparr>))"

definition set_first_term_index :: "'c LogEntry list \<Rightarrow> int \<Rightarrow> int \<Rightarrow> 'c LogEntry list res" where
  "set_first_term_index l t i =
     bindR (index l 0) (\<lambda>e. set_index l 0 (e\<lparr>Term := t, Index := i\<rparr>))"

definition Snapshot :: "'c Raft \<Rightarrow> int \<Rightarrow> bytes \<Rightarrow> 'c Raft res" where
  "Snapshot rf idx snap =
     bindR (getFirstLog rf) (\<lambda>f.
     bindR (getLastLog rf) (\<lambda>l.
       let snapshotIndex = Index f
       in if idx \<le> snapshotIndex \<or> idx > Index l then Inr rf
          else bindR (slice_from (logs rf) (idx - snapshotIndex)) (\<lambda>s.
               bindR (clear_first_command (shrinkEntries (length (logs rf)) s)) (\<lambda>s1.
                 let rf1 = rf\<lparr>logs := s1\<rparr>
                 in Inr (rf1\<lparr>persister :=
                      SaveStateAndSnapshot (persister rf1) (Some (encodeState rf1)) snap\<rparr>)))))"

definition CondInstallSnapshot :: "'c Raft \<Rightarrow> int \<Rightarrow> int \<Rightarrow> bytes \<Rightarrow> ('c Raft \<times> bool) res" where
  "CondInstallSnapshot rf lastIncludedTerm lastIncludedIndex snap =
     (if lastIncludedIndex \<le> commitIndex rf then Inr (rf, False)
      else
        bindR (getLastLog rf) (\<lambda>l.
        bindR (if lastIncludedIndex > Index l then Inr [zero_entry]
               else bindR (getFirstLog rf) (\<lambda>f.
                    bindR (slice_from (logs rf) (lastIncludedIndex - Index f)) (\<lambda>s.
                      clear_first_command (shrinkEntries (length (logs rf)) s)))) (\<lambda>s1.
        bindR (set_first_term_index s1 lastIncludedTerm lastIncludedIndex) (\<lambda>s2.
          let rf1 = rf\<lparr>logs := s2, commitIndex := lastIncludedIndex,
                       lastApplied := lastIncludedIndex\<rparr>
          in Inr (rf1\<lparr>persister :=
                 SaveStateAndSnapshot (persister rf1) (Some (encodeState rf1)) snap\<rparr>, True)))))"

section \<open>Elections\<close>

definition genRequestVoteArgs :: "'c Raft \<Rightarrow> RequestVoteArgs res" where
  "genRequestVoteArgs rf =
     bindR (getLastLog rf) (\<lambda>l.
       Inr \<lparr>rv_Term = currentTerm rf, rv_CandidateId = me rf,
            rv_LastLogIndex = Index l, rv_LastLogTerm = Term l\<rparr>)"

definition BroadcastHeartbeat :: "'c Raft \<Rightarrow> bool \<Rightarrow> 'c effect list" where
  "BroadcastHeartbeat rf isHeartbeat =
     map (\<lambda>p. if isHeartbeat then GoReplicateOnceRound p else SignalReplicator p) (other_peers rf)"

definition isLogUpToDate :: "'c Raft \<Rightarrow> int \<Rightarrow> int \<Rightarrow> bool res" where
  "isLogUpToDate rf idx t =
     bindR (getLastLog rf) (\<lambda>l. Inr (t > Term l \<or> (t = Term l \<and> idx \<ge> Index l)))"

definition RequestVote :: "'c Raft \<Rightarrow> RequestVoteArgs \<Rightarrow> ('c Raft \<times> RequestVoteReply) res" where
  "RequestVote rf args =
     (if rv_Term args < currentTerm rf \<or>
         (rv_Term args = currentTerm rf \<and> votedFor rf \<noteq> -1 \<and> votedFor rf \<noteq> rv_CandidateId args)
      then Inr (rf, \<lparr>rvr_Term = currentTerm rf, rvr_VoteGranted = False\<rparr>)
      else
        let rf1 = (if rv_Term args > currentTerm rf
                   then persist ((ChangeState rf Follower)
                                   \<lparr>currentTerm := rv_Term args, votedFor := -1\<rparr>)
                   else rf)
        in bindR (isLogUpToDate rf1 (rv_LastLogIndex args) (rv_LastLogTerm args)) (\<lambda>ok.
             if \<not> ok
             then Inr (rf1, \<lparr>rvr_Term = currentTerm rf1, rvr_VoteGranted = False\<rparr>)
             else
               let rf2 = (persist (rf1\<lparr>votedFor := rv_CandidateId args\<rparr>))\<lparr>electionTimer := True\<rparr>
               in Inr (rf2, \<lparr>rvr_Term = currentTerm rf2, rvr_VoteGranted = True\<rparr>)))"

text \<open>
  \<^verbatim>\<open>StartElection\<close> ends after starting one goroutine per peer. They share the variables \<^verbatim>\<open>args\<close> and
  \<^verbatim>\<open>grantedVotes\<close>, which form the record \<open>election\<close>; \<open>el_pending\<close> are the peers whose goroutine has not
  yet handled its reply.
\<close>

record election =
  el_args :: RequestVoteArgs
  grantedVotes :: int
  el_pending :: "int list"

definition StartElection :: "'c Raft \<Rightarrow> ('c Raft \<times> election \<times> 'c effect list) res" where
  "StartElection rf =
     (let rf1 = persist (rf\<lparr>votedFor := me rf\<rparr>)
      in bindR (genRequestVoteArgs rf1) (\<lambda>args.
           Inr (rf1, \<lparr>el_args = args, grantedVotes = 1, el_pending = other_peers rf1\<rparr>,
                map (\<lambda>p. GoRequestVote p args) (other_peers rf1))))"

text \<open>The critical section of the goroutine for one peer, after \<^verbatim>\<open>sendRequestVote\<close> returned true.\<close>

definition onRequestVoteReply ::
  "'c Raft \<Rightarrow> election \<Rightarrow> RequestVoteReply \<Rightarrow> 'c Raft \<times> election \<times> 'c effect list" where
  "onRequestVoteReply rf el reply =
     (if rv_Term (el_args el) = currentTerm rf \<and> state rf = Candidate
      then
        if rvr_VoteGranted reply
        then
          let el1 = el\<lparr>grantedVotes := grantedVotes el + 1\<rparr>
          in if grantedVotes el1 > int (peers rf) div 2
             then (ChangeState rf Leader, el1, BroadcastHeartbeat rf True)
             else (rf, el1, [])
        else if rvr_Term reply > currentTerm rf
        then (persist ((ChangeState rf Follower)
                         \<lparr>currentTerm := rvr_Term reply, votedFor := -1\<rparr>), el, [])
        else (rf, el, [])
      else (rf, el, []))"

section \<open>Log replication: the follower\<close>

definition isLogMatched :: "'c Raft \<Rightarrow> int \<Rightarrow> int \<Rightarrow> bool res" where
  "isLogMatched rf idx t =
     bindR (getLastLog rf) (\<lambda>l.
       if idx \<le> Index l
       then bindR (getFirstLog rf) (\<lambda>f.
            bindR (index (logs rf) (idx - Index f)) (\<lambda>e. Inr (t = Term e)))
       else Inr False)"

text \<open>The loop that looks for the first index of the conflicting term.\<close>

function conflict_scan :: "'c LogEntry list \<Rightarrow> int \<Rightarrow> int \<Rightarrow> int \<Rightarrow> int res" where
  "conflict_scan l firstLogIndex t idx =
     (if idx < firstLogIndex then Inr idx
      else bindR (index l (idx - firstLogIndex)) (\<lambda>e.
             if Term e = t then conflict_scan l firstLogIndex t (idx - 1) else Inr idx))"
  by pat_completeness auto
termination
  by (relation "measure (\<lambda>(l, f, t, i). nat (i - f + 1))") auto

declare conflict_scan.simps [simp del]

text \<open>The loop over \<^verbatim>\<open>args.Entries\<close>; its second argument is \<^verbatim>\<open>args.Entries[index:]\<close>.\<close>

fun append_scan :: "'c Raft \<Rightarrow> int \<Rightarrow> 'c LogEntry list \<Rightarrow> 'c Raft res" where
  "append_scan rf firstLogIndex [] = Inr rf"
| "append_scan rf firstLogIndex (e # es) =
     (let splice =
        bindR (slice_to (logs rf) (Index e - firstLogIndex)) (\<lambda>pre.
          Inr (persist (rf\<lparr>logs := shrinkEntries (length pre + length (e # es)) (pre @ e # es)\<rparr>)))
      in if Index e - firstLogIndex \<ge> int (length (logs rf)) then splice
         else bindR (index (logs rf) (Index e - firstLogIndex)) (\<lambda>old.
                if Term old \<noteq> Term e then splice else append_scan rf firstLogIndex es))"

text \<open>
  What \<^verbatim>\<open>AppendEntries\<close> and \<^verbatim>\<open>InstallSnapshot\<close> do with a request of a term \<open>t\<close> that is not stale: adopt the
  term, become a follower, reset the election timer.
\<close>

definition ae_accept :: "'c Raft \<Rightarrow> int \<Rightarrow> 'c Raft" where
  "ae_accept rf t =
     (let rf1 = (if t > currentTerm rf
                 then persist (rf\<lparr>currentTerm := t, votedFor := -1\<rparr>) else rf)
      in (ChangeState rf1 Follower)\<lparr>electionTimer := True\<rparr>)"

definition AppendEntries ::
  "'c Raft \<Rightarrow> 'c AppendEntriesArgs \<Rightarrow> ('c Raft \<times> AppendEntriesReply \<times> 'c effect list) res" where
  "AppendEntries rf args =
     (let reply0 = \<lparr>aer_Term = 0, aer_Success = False, aer_ConflictIndex = 0, aer_ConflictTerm = 0\<rparr>
      in if ae_Term args < currentTerm rf
         then Inr (rf, reply0\<lparr>aer_Term := currentTerm rf, aer_Success := False\<rparr>, [])
         else
           let rf2 = ae_accept rf (ae_Term args)
           in bindR (getFirstLog rf2) (\<lambda>f.
              if ae_PrevLogIndex args < Index f
              then Inr (rf2, reply0\<lparr>aer_Term := currentTerm rf2, aer_Success := False\<rparr>, [])
              else
              bindR (isLogMatched rf2 (ae_PrevLogIndex args) (ae_PrevLogTerm args)) (\<lambda>matched.
              if \<not> matched
              then
                let reply1 = reply0\<lparr>aer_Term := currentTerm rf2, aer_Success := False\<rparr>
                in bindR (getLastLog rf2) (\<lambda>l.
                   if Index l < ae_PrevLogIndex args
                   then Inr (rf2, reply1\<lparr>aer_ConflictIndex := Index l + 1, aer_ConflictTerm := -1\<rparr>, [])
                   else bindR (conflict_scan (logs rf2) (Index f) (ae_PrevLogTerm args)
                                 (ae_PrevLogIndex args)) (\<lambda>i.
                        Inr (rf2, reply1\<lparr>aer_ConflictIndex := i + 1,
                                         aer_ConflictTerm := ae_PrevLogTerm args\<rparr>, [])))
              else
                bindR (append_scan rf2 (Index f) (ae_Entries args)) (\<lambda>rf3.
                bindR (getLastLog rf3) (\<lambda>l.
                  let newCommitIndex = Min_go (ae_LeaderCommit args) (Index l);
                      (rf4, eff) = (if newCommitIndex > commitIndex rf3
                                    then (rf3\<lparr>commitIndex := newCommitIndex\<rparr>, [SignalApply])
                                    else (rf3, []))
                  in Inr (rf4, reply0\<lparr>aer_Term := currentTerm rf4, aer_Success := True\<rparr>, eff))))))"

definition InstallSnapshot ::
  "'c Raft \<Rightarrow> InstallSnapshotArgs \<Rightarrow> 'c Raft \<times> InstallSnapshotReply \<times> 'c effect list" where
  "InstallSnapshot rf args =
     (let reply = \<lparr>isr_Term = currentTerm rf\<rparr>
      in if is_Term args < currentTerm rf then (rf, reply, [])
         else
           let rf2 = ae_accept rf (is_Term args)
           in if is_LastIncludedIndex args \<le> commitIndex rf2 then (rf2, reply, [])
              else (rf2, reply,
                    [GoApplyMsg \<lparr>CommandValid = False, am_Command = None, CommandIndex = 0,
                       CommandTerm = 0, SnapshotValid = True, am_Snapshot = is_Data args,
                       SnapshotTerm = is_LastIncludedTerm args,
                       SnapshotIndex = is_LastIncludedIndex args\<rparr>]))"

section \<open>Log replication: the leader\<close>

definition Start :: "'c Raft \<Rightarrow> 'c option \<Rightarrow> ('c Raft \<times> (int \<times> int \<times> bool) \<times> 'c effect list) res" where
  "Start rf command =
     (if state rf \<noteq> Leader then Inr (rf, (-1, -1, False), [])
      else
        bindR (getLastLog rf) (\<lambda>l.
          let newLogIndex = Index l + 1;
              rf1 = persist (rf\<lparr>logs := logs rf @
                       [\<lparr>Command = command, Term = currentTerm rf, Index = newLogIndex\<rparr>]\<rparr>)
          in bindR (set_index (matchIndex rf1) (me rf1) newLogIndex) (\<lambda>mi.
             bindR (set_index (nextIndex rf1) (me rf1) (newLogIndex + 1)) (\<lambda>ni.
               let rf2 = rf1\<lparr>matchIndex := mi, nextIndex := ni\<rparr>
               in Inr (rf2, (newLogIndex, currentTerm rf2, True), BroadcastHeartbeat rf2 False)))))"

definition genInstallSnapshotArgs :: "'c Raft \<Rightarrow> InstallSnapshotArgs res" where
  "genInstallSnapshotArgs rf =
     bindR (getFirstLog rf) (\<lambda>f.
       Inr \<lparr>is_Term = currentTerm rf, is_LeaderId = me rf, is_LastIncludedIndex = Index f,
            is_LastIncludedTerm = Term f, is_Data = ReadSnapshot (persister rf)\<rparr>)"

definition genAppendEntriesArgs :: "'c Raft \<Rightarrow> int \<Rightarrow> 'c AppendEntriesArgs res" where
  "genAppendEntriesArgs rf prevLogIndex =
     bindR (getFirstLog rf) (\<lambda>f.
     bindR (slice_from (logs rf) (prevLogIndex - Index f + 1)) (\<lambda>suffix.
     bindR (index (logs rf) (prevLogIndex - Index f)) (\<lambda>p.
       Inr \<lparr>ae_Term = currentTerm rf, ae_LeaderId = me rf, ae_PrevLogIndex = prevLogIndex,
            ae_PrevLogTerm = Term p, ae_LeaderCommit = commitIndex rf,
            ae_Entries = copy_into (replicate (length suffix) zero_entry) suffix\<rparr>)))"

definition advanceCommitIndexForLeader :: "'c Raft \<Rightarrow> ('c Raft \<times> 'c effect list) res" where
  "advanceCommitIndexForLeader rf =
     (let n = length (matchIndex rf);
          sortMatchIndex = sort (matchIndex rf)
      in bindR (index sortMatchIndex (int n - (int n div 2 + 1))) (\<lambda>newCommitIndex.
           if newCommitIndex > commitIndex rf
           then bindR (isLogMatched rf newCommitIndex (currentTerm rf)) (\<lambda>matched.
                  if matched then Inr (rf\<lparr>commitIndex := newCommitIndex\<rparr>, [SignalApply])
                  else Inr (rf, []))
           else Inr (rf, [])))"

text \<open>
  \<^verbatim>\<open>replicateOnceRound\<close>: the request it builds under the read lock (\<open>None\<close> when the node is not the
  leader), and the two critical sections that handle the reply.
\<close>

datatype 'c replicate_request =
    SendInstallSnapshot InstallSnapshotArgs
  | SendAppendEntries "'c AppendEntriesArgs"

definition replicateOnceRound_request :: "'c Raft \<Rightarrow> int \<Rightarrow> 'c replicate_request option res" where
  "replicateOnceRound_request rf peer =
     (if state rf \<noteq> Leader then Inr None
      else
        bindR (index (nextIndex rf) peer) (\<lambda>ni.
        bindR (getFirstLog rf) (\<lambda>f.
          let prevLogIndex = ni - 1
          in if prevLogIndex < Index f
             then bindR (genInstallSnapshotArgs rf) (\<lambda>a. Inr (Some (SendInstallSnapshot a)))
             else bindR (genAppendEntriesArgs rf prevLogIndex) (\<lambda>a.
                    Inr (Some (SendAppendEntries a))))))"

definition onInstallSnapshotReply ::
  "'c Raft \<Rightarrow> int \<Rightarrow> InstallSnapshotArgs \<Rightarrow> InstallSnapshotReply \<Rightarrow> 'c Raft res" where
  "onInstallSnapshotReply rf peer args reply =
     (if state rf = Leader \<and> currentTerm rf = is_Term args
      then
        if isr_Term reply > currentTerm rf
        then Inr (persist ((ChangeState rf Follower)
                             \<lparr>currentTerm := isr_Term reply, votedFor := -1\<rparr>))
        else
          bindR (set_index (nextIndex rf) peer (is_LastIncludedIndex args + 1)) (\<lambda>ni.
          bindR (set_index (matchIndex rf) peer (is_LastIncludedIndex args)) (\<lambda>mi.
            Inr (rf\<lparr>nextIndex := ni, matchIndex := mi\<rparr>)))
      else Inr rf)"

text \<open>
  The backwards search for an entry of the conflicting term, from \<open>idx\<close> down to the first index.
\<close>

function leader_scan :: "'c LogEntry list \<Rightarrow> int \<Rightarrow> int \<Rightarrow> int \<Rightarrow> int option res" where
  "leader_scan l firstLogIndex t idx =
     (if idx < firstLogIndex then Inr None
      else bindR (index l (idx - firstLogIndex)) (\<lambda>e.
             if Term e = t then Inr (Some idx) else leader_scan l firstLogIndex t (idx - 1)))"
  by pat_completeness auto
termination
  by (relation "measure (\<lambda>(l, f, t, i). nat (i - f + 1))") auto

declare leader_scan.simps [simp del]

definition onAppendEntriesReply ::
  "'c Raft \<Rightarrow> int \<Rightarrow> 'c AppendEntriesArgs \<Rightarrow> AppendEntriesReply \<Rightarrow> ('c Raft \<times> 'c effect list) res" where
  "onAppendEntriesReply rf peer args reply =
     (if ae_Term args = currentTerm rf \<and> state rf = Leader
      then
        if \<not> aer_Success reply
        then
          if aer_Term reply > currentTerm rf
          then Inr (persist ((ChangeState rf Follower)
                               \<lparr>currentTerm := aer_Term reply, votedFor := -1\<rparr>), [])
          else if aer_Term reply = currentTerm rf
          then
            bindR (set_index (nextIndex rf) peer (aer_ConflictIndex reply)) (\<lambda>ni.
              if aer_ConflictTerm reply \<noteq> -1
              then bindR (getFirstLog rf) (\<lambda>f.
                   bindR (leader_scan (logs rf) (Index f) (aer_ConflictTerm reply)
                            (ae_PrevLogIndex args - 1)) (\<lambda>found.
                     case found of
                       None \<Rightarrow> Inr (rf\<lparr>nextIndex := ni\<rparr>, [])
                     | Some i \<Rightarrow> bindR (set_index ni peer i) (\<lambda>ni'.
                                   Inr (rf\<lparr>nextIndex := ni'\<rparr>, []))))
              else Inr (rf\<lparr>nextIndex := ni\<rparr>, []))
          else Inr (rf, [])
        else
          bindR (set_index (matchIndex rf) peer
                   (ae_PrevLogIndex args + int (length (ae_Entries args)))) (\<lambda>mi.
          bindR (index mi peer) (\<lambda>m.
          bindR (set_index (nextIndex rf) peer (m + 1)) (\<lambda>ni.
            advanceCommitIndexForLeader (rf\<lparr>matchIndex := mi, nextIndex := ni\<rparr>))))
      else Inr (rf, []))"

definition needReplicating :: "'c Raft \<Rightarrow> int \<Rightarrow> bool res" where
  "needReplicating rf peer =
     (if state rf = Leader
      then bindR (index (matchIndex rf) peer) (\<lambda>m.
           bindR (getLastLog rf) (\<lambda>l. Inr (m < Index l)))
      else Inr False)"

section \<open>Timers, start and stop\<close>

definition ticker_election :: "'c Raft \<Rightarrow> ('c Raft \<times> election \<times> 'c effect list) res" where
  "ticker_election rf =
     (let rf1 = ChangeState (rf\<lparr>electionTimer := False\<rparr>) Candidate;
          rf2 = persist (rf1\<lparr>currentTerm := currentTerm rf1 + 1\<rparr>)
      in bindR (StartElection rf2) (\<lambda>(rf3, el, eff). Inr (rf3\<lparr>electionTimer := True\<rparr>, el, eff)))"

definition ticker_heartbeat :: "'c Raft \<Rightarrow> 'c Raft \<times> 'c effect list" where
  "ticker_heartbeat rf =
     (let rf1 = rf\<lparr>heartbeatTimer := False\<rparr>
      in if state rf1 = Leader
         then (rf1\<lparr>heartbeatTimer := True\<rparr>, BroadcastHeartbeat rf1 True)
         else (rf1, []))"

definition Kill :: "'c Raft \<Rightarrow> 'c Raft" where
  "Kill rf = rf\<lparr>dead := True\<rparr>"

definition killed :: "'c Raft \<Rightarrow> bool" where
  "killed rf = dead rf"

text \<open>
  The goroutine \<^verbatim>\<open>replicator\<close> of a peer, from the moment it looks at the node: it ends, waits on its condition variable, or goes
  through one round. A goroutine that is woken looks only at \<^verbatim>\<open>needReplicating\<close>, which is the case \<open>woken\<close>.
\<close>

datatype 'c replicator_action = Replicator_exit | Replicator_wait | Replicator_round "'c replicate_request option"

definition replicator :: "bool \<Rightarrow> 'c Raft \<Rightarrow> int \<Rightarrow> 'c replicator_action res" where
  "replicator woken rf peer =
     (if \<not> woken \<and> killed rf then Inr Replicator_exit
      else bindR (needReplicating rf peer) (\<lambda>need.
             if \<not> need then Inr Replicator_wait
             else bindR (replicateOnceRound_request rf peer) (\<lambda>rq. Inr (Replicator_round rq))))"

definition ElectionTimeout :: int where
  "ElectionTimeout = 1000"

definition HeartbeatTimeout :: int where
  "HeartbeatTimeout = 125"

definition Millisecond :: int where
  "Millisecond = 1000000"

text \<open>Durations in nanoseconds; \<open>r\<close> is the result of \<^verbatim>\<open>Intn(ElectionTimeout)\<close>.\<close>

definition RandomElectionTimeout :: "int \<Rightarrow> int" where
  "RandomElectionTimeout r = (ElectionTimeout + r) * Millisecond"

definition StableHeartbeatTimeout :: int where
  "StableHeartbeatTimeout = HeartbeatTimeout * Millisecond"

text \<open>An election timeout covers between eight and sixteen heartbeats.\<close>

lemma timeouts_apart:
  assumes "0 \<le> r" "r < ElectionTimeout"
  shows "8 * StableHeartbeatTimeout \<le> RandomElectionTimeout r \<and> RandomElectionTimeout r < 16 * StableHeartbeatTimeout"
  using assms by (simp add: StableHeartbeatTimeout_def RandomElectionTimeout_def ElectionTimeout_def HeartbeatTimeout_def Millisecond_def)

definition HasLogInCurrentTerm :: "'c Raft \<Rightarrow> bool res" where
  "HasLogInCurrentTerm rf = bindR (getLastLog rf) (\<lambda>l. Inr (Term l = currentTerm rf))"

definition Make :: "nat \<Rightarrow> int \<Rightarrow> 'c Persister \<Rightarrow> 'c Raft res" where
  "Make npeers self ps =
     (let rf = \<lparr>peers = npeers, persister = ps, me = self, dead = False, currentTerm = 0,
                votedFor = -1, logs = [zero_entry], commitIndex = 0, lastApplied = 0,
                nextIndex = replicate npeers 0, matchIndex = replicate npeers 0,
                state = Follower, electionTimer = True, heartbeatTimer = True\<rparr>
      in bindR (readPersist rf (ReadRaftState ps)) (\<lambda>rf1.
         if npeers = 0 then Inr rf1
         else bindR (getLastLog rf1) (\<lambda>l.
                Inr (rf1\<lparr>matchIndex := replicate npeers 0,
                         nextIndex := replicate npeers (Index l + 1)\<rparr>))))"

section \<open>The applier\<close>

text \<open>
  First critical section: the copied entries and the commit index they run up to (\<open>None\<close> while the
  goroutine waits). Second one: \<^verbatim>\<open>lastApplied\<close> after the entries were sent.
\<close>

definition applier_take :: "'c Raft \<Rightarrow> ('c LogEntry list \<times> int) option res" where
  "applier_take rf =
     (if commitIndex rf \<le> lastApplied rf then Inr None
      else
        bindR (getFirstLog rf) (\<lambda>f.
        bindR (slice_between (logs rf) (lastApplied rf - Index f + 1) (commitIndex rf - Index f + 1))
          (\<lambda>part.
             Inr (Some (copy_into (replicate (nat (commitIndex rf - lastApplied rf)) zero_entry) part,
                        commitIndex rf)))))"

definition applier_done :: "'c Raft \<Rightarrow> int \<Rightarrow> 'c Raft" where
  "applier_done rf ci = rf\<lparr>lastApplied := Max_go (lastApplied rf) ci\<rparr>"

end
