(* ===== verification/Raft_Log.thy ===== *)
theory Raft_Log
  imports Raft_Node
begin

text \<open>
  The log of one node: its well-formedness (entry \<open>i\<close> of the slice has index \<^verbatim>\<open>first + i\<close>), what the two
  scanning loops of \<^verbatim>\<open>AppendEntries\<close> and the backwards search of the leader compute, and the
  reference definition \<open>merge_log\<close> of the splice that a follower performs.
\<close>

named_theorems log_simps \<open>facts on well-formed logs\<close>

section \<open>Well-formed logs\<close>

definition wf_log :: "'c LogEntry list \<Rightarrow> bool" where
  "wf_log l \<longleftrightarrow> l \<noteq> [] \<and> (\<forall>i < length l. Index (l ! i) = Index (hd l) + int i)"

abbreviation first_index :: "'c LogEntry list \<Rightarrow> int" where
  "first_index l \<equiv> Index (hd l)"

definition consecutive :: "int \<Rightarrow> 'c LogEntry list \<Rightarrow> bool" where
  "consecutive k es \<longleftrightarrow> (\<forall>i < length es. Index (es ! i) = k + int i)"

lemma consecutive_Nil [simp]: "consecutive k []"
  by (simp add: consecutive_def)

lemma consecutive_Cons [simp]:
  "consecutive k (e # es) \<longleftrightarrow> Index e = k \<and> consecutive (k + 1) es"
  by (simp add: consecutive_def All_less_Suc2 algebra_simps)

lemma consecutive_append [simp]:
  "consecutive k (xs @ ys) \<longleftrightarrow> consecutive k xs \<and> consecutive (k + int (length xs)) ys"
  by (induction xs arbitrary: k) (auto simp: algebra_simps)

lemma wf_log_consecutive: "wf_log l \<longleftrightarrow> l \<noteq> [] \<and> consecutive (first_index l) l"
  by (auto simp: wf_log_def consecutive_def)

lemma wf_log_ne [dest]: "wf_log l \<Longrightarrow> l \<noteq> []"
  by (simp add: wf_log_def)

lemma wf_log_nth: "wf_log l \<Longrightarrow> i < length l \<Longrightarrow> Index (l ! i) = first_index l + int i"
  by (simp add: wf_log_def)

lemma wf_log_last [log_simps]:
  "wf_log l \<Longrightarrow> Index (last l) = first_index l + int (length l) - 1"
  by (cases l rule: rev_cases) (auto simp: wf_log_def nth_append)

lemma wf_log_zero [simp]: "wf_log [zero_entry]"
  by (simp add: wf_log_def)

lemma consecutive_drop: "consecutive k l \<Longrightarrow> n \<le> length l \<Longrightarrow> consecutive (k + int n) (drop n l)"
  by (auto simp: consecutive_def)

lemma consecutive_take: "consecutive k l \<Longrightarrow> consecutive k (take n l)"
  by (auto simp: consecutive_def)

lemma wf_log_drop:
  assumes "wf_log l" "n < length l"
  shows "wf_log (drop n l)" "first_index (drop n l) = first_index l + int n"
proof -
  show fst: "first_index (drop n l) = first_index l + int n"
    using assms by (simp add: hd_drop_conv_nth wf_log_nth)
  show "wf_log (drop n l)"
    using assms consecutive_drop [of "first_index l" l n] fst
    by (simp add: wf_log_consecutive)
qed

lemma wf_log_append:
  "wf_log l \<Longrightarrow> wf_log (l @ es) \<longleftrightarrow> consecutive (first_index l + int (length l)) es"
  by (auto simp: wf_log_consecutive)

lemma wf_log_take_append:
  assumes "wf_log l" "0 < k" "k \<le> length l" "consecutive (first_index l + int k) es"
  shows "wf_log (take k l @ es)"
  using assms consecutive_take [of "first_index l" l k]
  by (auto simp: wf_log_consecutive hd_append)

lemma wf_log_set_hd:
  assumes "wf_log l" "Index e = first_index l"
  shows "wf_log (l[0 := e])" "first_index (l[0 := e]) = Index e"
  using assms by (cases l; auto simp: wf_log_consecutive)+

section \<open>The splice of a follower\<close>

text \<open>
  \<open>merge_log l k es\<close> walks over the new entries, the first of which belongs at position \<open>k\<close> of the
  slice, and replaces the tail of \<open>l\<close> from the first entry that is missing or has another term.
\<close>

fun merge_log :: "'c LogEntry list \<Rightarrow> nat \<Rightarrow> 'c LogEntry list \<Rightarrow> 'c LogEntry list" where
  "merge_log l k [] = l"
| "merge_log l k (e # es) =
     (if length l \<le> k \<or> Term (l ! k) \<noteq> Term e then take k l @ e # es else merge_log l (Suc k) es)"

lemma merge_log_cases:
  assumes "k \<le> length l"
  shows "merge_log l k es = l \<and> k + length es \<le> length l \<and>
           (\<forall>j < length es. Term (l ! (k + j)) = Term (es ! j)) \<or>
         (\<exists>j < length es. merge_log l k es = take (k + j) l @ drop j es \<and> k + j \<le> length l \<and>
           (\<forall>i < j. Term (l ! (k + i)) = Term (es ! i)) \<and>
           (k + j < length l \<longrightarrow> Term (l ! (k + j)) \<noteq> Term (es ! j)))"
  using assms
proof (induction l k es rule: merge_log.induct)
  case (1 l k)
  then show ?case by simp
next
  case (2 l k e es)
  show ?case
  proof (cases "length l \<le> k \<or> Term (l ! k) \<noteq> Term e")
    case True
    with 2(2) show ?thesis
      by (intro disjI2 exI [where x = 0]) auto
  next
    case False
    then have "Suc k \<le> length l" by simp
    from 2(1) [OF False this] False show ?thesis
    proof (elim disjE exE conjE, goal_cases)
      case 1
      then show ?case by (intro disjI1) (auto simp: less_Suc_eq_0_disj)
    next
      case (2 j)
      then show ?case
        by (intro disjI2 exI [where x = "Suc j"]) (auto simp: less_Suc_eq_0_disj)
    qed
  qed
qed

lemma take_merge_log [simp]: "k \<le> length l \<Longrightarrow> take k (merge_log l k es) = take k l"
  using merge_log_cases [of k l es] by (auto simp: min_def)

lemma length_merge_log: "k \<le> length l \<Longrightarrow> k + length es \<le> length (merge_log l k es)"
  using merge_log_cases [of k l es] by auto

lemma merge_log_Term:
  assumes "k \<le> length l" "j < length es"
  shows "Term (merge_log l k es ! (k + j)) = Term (es ! j)"
  using merge_log_cases [OF assms(1), of es]
proof (elim disjE exE conjE)
  fix i assume i: "i < length es" "merge_log l k es = take (k + i) l @ drop i es" "k + i \<le> length l"
    and eq: "\<forall>j < i. Term (l ! (k + j)) = Term (es ! j)"
  show ?thesis
  proof (cases "j < i")
    case False
    with i have "merge_log l k es ! (k + j) = es ! (i + (k + j - (k + i)))"
      by (simp add: nth_append)
    with False show ?thesis by simp
  qed (use i eq in \<open>simp add: nth_append\<close>)
qed (use assms(2) in simp)

lemma merge_log_id:
  "k + length es \<le> length l \<Longrightarrow> (\<forall>j < length es. Term (l ! (k + j)) = Term (es ! j)) \<Longrightarrow>
     merge_log l k es = l"
proof (induction l k es rule: merge_log.induct)
  case (2 l k e es)
  from 2(3) have "Term (l ! k) = Term e" by (force dest: spec [where x = 0])
  moreover have "\<forall>j < length es. Term (l ! (Suc k + j)) = Term (es ! j)"
  proof (intro allI impI)
    fix j assume "j < length es"
    with 2(3) have "Term (l ! (k + Suc j)) = Term ((e # es) ! Suc j)"
      by (metis Suc_less_eq length_Cons)
    then show "Term (l ! (Suc k + j)) = Term (es ! j)" by simp
  qed
  ultimately show ?case using 2 by simp
qed simp

lemma wf_log_merge_log:
  assumes "wf_log l" "0 < k" "k \<le> length l" "consecutive (first_index l + int k) es"
  shows "wf_log (merge_log l k es)"
  using merge_log_cases [OF assms(3), of es]
proof (elim disjE conjE exE)
  assume "merge_log l k es = l"
  with assms(1) show ?thesis by simp
next
  fix j assume j: "j < length es" "merge_log l k es = take (k + j) l @ drop j es" "k + j \<le> length l"
  have "consecutive (first_index l + int (k + j)) (drop j es)"
    using consecutive_drop [OF assms(4), of j] j(1) by (simp add: algebra_simps)
  with j assms show ?thesis
    by (simp add: wf_log_take_append)
qed

lemma first_index_merge_log:
  "0 < k \<Longrightarrow> k \<le> length l \<Longrightarrow> hd (merge_log l k es) = hd l"
  using take_merge_log [of k l es] by (metis hd_take)

section \<open>The loops\<close>

lemma append_scan_merge:
  assumes "l = logs rf" "k \<le> length l" "consecutive (f + int k) es"
  shows "append_scan rf f es =
           Inr (if merge_log l k es = l then
                  (if k + length es \<le> length l \<and> (\<forall>j < length es. Term (l ! (k + j)) = Term (es ! j))
                   then rf else persist rf)
                else persist (rf\<lparr>logs := merge_log l k es\<rparr>))"
  using assms
proof (induction l k es rule: merge_log.induct)
  case (1 l k)
  then show ?case by simp
next
  case (2 l k e es)
  have idx: "Index e - f = int k" using 2(4) by simp
  show ?case
  proof (cases "length l \<le> k \<or> Term (l ! k) \<noteq> Term e")
    case True
    have "append_scan rf f (e # es) = Inr (persist (rf\<lparr>logs := take k l @ e # es\<rparr>))"
    proof (cases "length l \<le> k")
      case True
      with 2(2,3) idx show ?thesis by (simp add: Let_def slice_to_def)
    next
      case False
      with True 2(2,3) idx show ?thesis by (auto simp: Let_def slice_to_def)
    qed
    moreover have "\<not> (k + length (e # es) \<le> length l \<and>
        (\<forall>j < length (e # es). Term (l ! (k + j)) = Term ((e # es) ! j)))"
      using True by (force dest: spec [where x = 0])
    ultimately show ?thesis using True 2(2)
      by (auto)
  next
    case False
    have "append_scan rf f (e # es) = append_scan rf f es"
      using False 2(2) idx by (simp add: Let_def)
    moreover have "(k + length (e # es) \<le> length l \<and>
        (\<forall>j < length (e # es). Term (l ! (k + j)) = Term ((e # es) ! j))) \<longleftrightarrow>
        (Suc k + length es \<le> length l \<and> (\<forall>j < length es. Term (l ! (Suc k + j)) = Term (es ! j)))"
      using False by (auto simp: less_Suc_eq_0_disj)
    ultimately show ?thesis
      using 2(1) [OF False 2(2)] 2(4) False by (simp add: algebra_simps)
  qed
qed

text \<open>On a mismatch at the starting index the follower's conflict loop does not move at all.\<close>

lemma conflict_scan_mismatch:
  assumes "f \<le> i" "i - f < int (length l)" "Term (l ! nat (i - f)) \<noteq> t"
  shows "conflict_scan l f t i = Inr i"
  using assms by (subst conflict_scan.simps) (simp add: index_def)

lemma conflict_scan_returns:
  "i - f < int (length l) \<Longrightarrow> \<exists>j. conflict_scan l f t i = Inr j \<and> j \<le> i \<and> (f \<le> i \<longrightarrow> f - 1 \<le> j)"
proof (induction l f t i rule: conflict_scan.induct)
  case (1 l f t i)
  show ?case
  proof (cases "i < f")
    case True
    then show ?thesis by (subst conflict_scan.simps) simp
  next
    case False
    with 1(2) have idx: "index l (i - f) = Inr (l ! nat (i - f))"
      by (simp add: index_def)
    show ?thesis
    proof (cases "Term (l ! nat (i - f)) = t")
      case True
      from 1(1) [OF False idx True] 1(2)
      obtain j where "conflict_scan l f t (i - 1) = Inr j" "j \<le> i - 1" "f \<le> i - 1 \<longrightarrow> f - 1 \<le> j"
        by auto
      moreover have "\<not> f \<le> i - 1 \<Longrightarrow> conflict_scan l f t (i - 1) = Inr (i - 1)"
        by (subst conflict_scan.simps) simp
      ultimately have "f - 1 \<le> j" using False by (cases "f \<le> i - 1") auto
      with \<open>conflict_scan l f t (i - 1) = Inr j\<close> \<open>j \<le> i - 1\<close> True False idx show ?thesis
        by (subst conflict_scan.simps) auto
    next
      case F: False
      with False idx show ?thesis by (subst conflict_scan.simps) auto
    qed
  qed
qed

text \<open>
  The leader's search: the greatest index from \<open>i\<close> down to the first one whose entry has term \<open>t\<close>.
\<close>

lemma leader_scan_returns:
  "i - f < int (length l) \<Longrightarrow> \<exists>r. leader_scan l f t i = Inr r"
proof (induction l f t i rule: leader_scan.induct)
  case (1 l f t i)
  then show ?case
    by (subst leader_scan.simps) (auto simp: index_def)
qed

lemma leader_scan_eq_Some:
  assumes "leader_scan l f t i = Inr (Some j)"
  shows "f \<le> j \<and> j \<le> i \<and> Term (l ! nat (j - f)) = t \<and>
    (\<forall>k. j < k \<and> k \<le> i \<longrightarrow> Term (l ! nat (k - f)) \<noteq> t)"
  using assms
proof (induction l f t i rule: leader_scan.induct)
  case (1 l f t i)
  from 1(2) have fi: "\<not> i < f"
    by (subst (asm) leader_scan.simps) (auto split: if_splits)
  with 1(2) have idx: "index l (i - f) = Inr (l ! nat (i - f))"
    and step: "(if Term (l ! nat (i - f)) = t then Inr (Some i) else leader_scan l f t (i - 1)) = Inr (Some j)"
    by (subst (asm) leader_scan.simps, auto simp: index_def split: if_splits)+
  show ?case
  proof (cases "Term (l ! nat (i - f)) = t")
    case True
    with step fi show ?thesis by auto
  next
    case False
    with step have "leader_scan l f t (i - 1) = Inr (Some j)" by simp
    from 1(1) [OF fi idx False this] False show ?thesis
      by (metis dual_order.order_iff_strict zle_diff1_eq)
  qed
qed

lemma leader_scan_None:
  assumes "\<And>j. f \<le> j \<Longrightarrow> j \<le> i \<Longrightarrow> Term (l ! nat (j - f)) \<noteq> t" "i - f < int (length l)"
  shows "leader_scan l f t i = Inr None"
proof -
  obtain r where "leader_scan l f t i = Inr r"
    using leader_scan_returns [OF assms(2)] by blast
  moreover have "r = None"
    using calculation leader_scan_eq_Some [of l f t i] assms(1) by (cases r) blast+
  ultimately show ?thesis by simp
qed

end
