(* ===== verification/Raft_Inv.thy ===== *)
theory Raft_Inv
  imports Raft_Log
begin

text \<open>
  What every operation of a node keeps. \<open>node_step\<close> is the step relation of one node: one rule per
  operation of src/raft, with what its caller guarantees about the arguments as premises. Its steps
  keep \<open>node_ok\<close> (shape of the log and the arrays, memory equal to stable storage, a candidate or
  leader has voted for itself, the timer of its role is armed) and they \<open>evolve\<close> the node: terms do
  not decrease and a vote cast in a term is not changed within it.
\<close>

section \<open>Invariant of a node\<close>

definition wf_node :: "'c Raft \<Rightarrow> bool" where
  "wf_node rf \<longleftrightarrow> wf_log (logs rf) \<and> length (nextIndex rf) = peers rf \<and>
     length (matchIndex rf) = peers rf \<and> 0 \<le> me rf \<and> me rf < int (peers rf)"

definition durable :: "'c Raft \<Rightarrow> bool" where
  "durable rf \<longleftrightarrow>
     (case slice_elems (raftstate (persister rf)) of
        [] \<Rightarrow> currentTerm rf = 0 \<and> votedFor rf = -1 \<and> logs rf = [zero_entry]
      | d \<Rightarrow> d = encodeState rf)"

definition role_ok :: "'c Raft \<Rightarrow> bool" where
  "role_ok rf \<longleftrightarrow>
     (state rf \<noteq> Follower \<longrightarrow> votedFor rf = me rf) \<and>
     (state rf = Leader \<longrightarrow> heartbeatTimer rf) \<and> (state rf \<noteq> Leader \<longrightarrow> electionTimer rf)"

definition node_ok :: "'c Raft \<Rightarrow> bool" where
  "node_ok rf \<longleftrightarrow> wf_node rf \<and> durable rf \<and> role_ok rf \<and> first_index (logs rf) \<le> commitIndex rf"

definition evolves :: "'c Raft \<Rightarrow> 'c Raft \<Rightarrow> bool" where
  "evolves rf rf' \<longleftrightarrow> peers rf' = peers rf \<and> me rf' = me rf \<and> currentTerm rf \<le> currentTerm rf' \<and>
     (currentTerm rf' = currentTerm rf \<and> votedFor rf \<noteq> -1 \<longrightarrow> votedFor rf' = votedFor rf)"

lemma evolves_refl [simp]: "evolves rf rf"
  by (simp add: evolves_def)

lemma evolves_trans: "evolves a b \<Longrightarrow> evolves b c \<Longrightarrow> evolves a c"
  by (auto simp: evolves_def)

section \<open>Projections of the small operations\<close>

lemma persist_simps [simp]:
  "peers (persist rf) = peers rf" "me (persist rf) = me rf" "dead (persist rf) = dead rf"
  "currentTerm (persist rf) = currentTerm rf" "votedFor (persist rf) = votedFor rf"
  "logs (persist rf) = logs rf" "commitIndex (persist rf) = commitIndex rf"
  "lastApplied (persist rf) = lastApplied rf" "nextIndex (persist rf) = nextIndex rf"
  "matchIndex (persist rf) = matchIndex rf" "state (persist rf) = state rf"
  "electionTimer (persist rf) = electionTimer rf" "heartbeatTimer (persist rf) = heartbeatTimer rf"
  "raftstate (persister (persist rf)) = Some (encodeState rf)"
  "snapshot (persister (persist rf)) = snapshot (persister rf)"
  by (simp_all add: persist_def SaveStateAndSnapshot_def clone_def)

lemma ChangeState_simps [simp]:
  "peers (ChangeState rf s) = peers rf" "me (ChangeState rf s) = me rf"
  "dead (ChangeState rf s) = dead rf" "persister (ChangeState rf s) = persister rf"
  "currentTerm (ChangeState rf s) = currentTerm rf" "votedFor (ChangeState rf s) = votedFor rf"
  "logs (ChangeState rf s) = logs rf" "commitIndex (ChangeState rf s) = commitIndex rf"
  "lastApplied (ChangeState rf s) = lastApplied rf" "nextIndex (ChangeState rf s) = nextIndex rf"
  "matchIndex (ChangeState rf s) = matchIndex rf" "state (ChangeState rf s) = s"
  by (auto simp: ChangeState_def Let_def split: NodeState.splits)

lemma ChangeState_timers:
  "electionTimer (ChangeState rf s) =
     (if state rf = s then electionTimer rf
      else case s of Follower \<Rightarrow> True | Candidate \<Rightarrow> electionTimer rf | Leader \<Rightarrow> False)"
  "heartbeatTimer (ChangeState rf s) =
     (if state rf = s then heartbeatTimer rf
      else case s of Follower \<Rightarrow> False | Candidate \<Rightarrow> heartbeatTimer rf | Leader \<Rightarrow> True)"
  by (auto simp: ChangeState_def Let_def split: NodeState.splits)

lemma encodeState_cong:
  "currentTerm rf' = currentTerm rf \<Longrightarrow> votedFor rf' = votedFor rf \<Longrightarrow> logs rf' = logs rf \<Longrightarrow>
     encodeState rf' = encodeState rf"
  by (simp add: encodeState_def)

lemma encodeState_ne [simp]: "encodeState rf \<noteq> []" "[] \<noteq> encodeState rf"
  by (simp_all add: encodeState_def)

lemma durable_persist [simp]: "durable (persist rf)"
  by (simp add: durable_def encodeState_def)

lemma durableI:
  "raftstate (persister rf) = Some (encodeState rf) \<Longrightarrow> durable rf"
  by (simp add: durable_def encodeState_def)

lemma durable_simps [simp]:
  "durable (rf\<lparr>commitIndex := ci\<rparr>) = durable rf" "durable (rf\<lparr>lastApplied := la\<rparr>) = durable rf"
  "durable (rf\<lparr>nextIndex := ni\<rparr>) = durable rf" "durable (rf\<lparr>matchIndex := mi\<rparr>) = durable rf"
  "durable (rf\<lparr>state := s\<rparr>) = durable rf" "durable (rf\<lparr>electionTimer := a\<rparr>) = durable rf"
  "durable (rf\<lparr>heartbeatTimer := a\<rparr>) = durable rf" "durable (rf\<lparr>dead := a\<rparr>) = durable rf"
  by (simp_all add: durable_def encodeState_def split: list.splits)

lemma durable_ChangeState [simp]: "durable (ChangeState rf s) = durable rf"
  by (auto simp: ChangeState_def Let_def split: NodeState.splits)

lemma decode_encode [simp]: "decode_state (encodeState rf) = (currentTerm rf, votedFor rf, logs rf)"
  by (simp add: decode_state_def encodeState_def decode_int_def decode_logs_def)

lemma clear_first_command_ok [simp]:
  "l \<noteq> [] \<Longrightarrow> clear_first_command l = Inr (l[0 := (hd l)\<lparr>Command := None\<rparr>])"
  by (simp add: clear_first_command_def set_index_def)

lemma set_first_term_index_ok [simp]:
  "l \<noteq> [] \<Longrightarrow> set_first_term_index l t i = Inr (l[0 := (hd l)\<lparr>Term := t, Index := i\<rparr>])"
  by (simp add: set_first_term_index_def set_index_def)

lemma node_okD:
  assumes "node_ok rf"
  shows "wf_log (logs rf)" "logs rf \<noteq> []" "length (nextIndex rf) = peers rf"
    "length (matchIndex rf) = peers rf" "0 \<le> me rf" "me rf < int (peers rf)" "durable rf" "role_ok rf"
    "first_index (logs rf) \<le> commitIndex rf"
  using assms by (auto simp: node_ok_def wf_node_def)

section \<open>The operations in closed form\<close>

text \<open>
  On a well-formed node no bounds check fails, and the result of each operation is an update of the
  record. These equations are what the proofs about the operations use.
\<close>

lemma isLogUpToDate_ok:
  "logs rf \<noteq> [] \<Longrightarrow> isLogUpToDate rf i t =
     Inr (t > Term (last (logs rf)) \<or> (t = Term (last (logs rf)) \<and> i \<ge> Index (last (logs rf))))"
  by (simp add: isLogUpToDate_def)

lemma isLogMatched_ok:
  assumes "wf_log (logs rf)" "first_index (logs rf) \<le> i"
  shows "isLogMatched rf i t =
    Inr (i < first_index (logs rf) + int (length (logs rf)) \<and>
         t = Term (logs rf ! nat (i - first_index (logs rf))))"
  using assms by (auto simp: isLogMatched_def wf_log_ne wf_log_last index_def)

lemma snapshot_log_ok:
  assumes "wf_log l" "first_index l \<le> i" "i \<le> Index (last l)"
  shows "bindR (slice_from l (i - first_index l)) (\<lambda>s. clear_first_command (shrinkEntries n s)) =
    Inr ((drop (nat (i - first_index l)) l)
           [0 := (l ! nat (i - first_index l))\<lparr>Command := None\<rparr>])"
    "nat (i - first_index l) < length l"
proof -
  show lt: "nat (i - first_index l) < length l"
    using assms by (auto simp: wf_log_last)
  then have "drop (nat (i - first_index l)) l \<noteq> []" by simp
  with lt assms(2) show "bindR (slice_from l (i - first_index l))
      (\<lambda>s. clear_first_command (shrinkEntries n s)) =
    Inr ((drop (nat (i - first_index l)) l)
           [0 := (l ! nat (i - first_index l))\<lparr>Command := None\<rparr>])"
    by (simp add: slice_from_def hd_drop_conv_nth)
qed

lemma wf_log_snapshot:
  assumes "wf_log l" "n < length l" "Index e = first_index l + int n"
  shows "wf_log ((drop n l)[0 := e])" "first_index ((drop n l)[0 := e]) = first_index l + int n"
  using wf_log_set_hd [OF wf_log_drop(1) [OF assms(1,2)], of e] wf_log_drop(2) [OF assms(1,2)] assms
  by simp_all

section \<open>Each operation keeps the invariant\<close>

lemmas op_elims = res_elims getLastLog_eq_Inr_iff getFirstLog_eq_Inr_iff

lemmas ok_defs = node_ok_def wf_node_def role_ok_def ChangeState_timers

lemma step_down_ok:
  assumes "node_ok rf" "currentTerm rf < t"
  shows "node_ok (persist ((ChangeState rf Follower)\<lparr>currentTerm := t, votedFor := -1\<rparr>))"
    "evolves rf (persist ((ChangeState rf Follower)\<lparr>currentTerm := t, votedFor := -1\<rparr>))"
  using assms by (auto simp: ok_defs evolves_def)

definition step_down :: "'c Raft \<Rightarrow> int \<Rightarrow> 'c Raft" where
  "step_down rf t =
     (if t > currentTerm rf
      then persist ((ChangeState rf Follower)\<lparr>currentTerm := t, votedFor := -1\<rparr>) else rf)"

lemma step_down_simps [simp]:
  "peers (step_down rf t) = peers rf" "me (step_down rf t) = me rf" "logs (step_down rf t) = logs rf"
  "commitIndex (step_down rf t) = commitIndex rf" "nextIndex (step_down rf t) = nextIndex rf"
  "matchIndex (step_down rf t) = matchIndex rf" "lastApplied (step_down rf t) = lastApplied rf"
  "currentTerm (step_down rf t) = max t (currentTerm rf)"
  "votedFor (step_down rf t) = (if t > currentTerm rf then -1 else votedFor rf)"
  "state (step_down rf t) = (if t > currentTerm rf then Follower else state rf)"
  by (auto simp: step_down_def max_def)

lemma step_down_keeps: "node_ok rf \<Longrightarrow> node_ok (step_down rf t)" "evolves rf (step_down rf t)"
  using step_down_ok [of rf t] by (auto simp: step_down_def evolves_def)

text \<open>The three outcomes of a vote request.\<close>

lemma RequestVote_elim [consumes 2]:
  assumes "RequestVote rf args = Inr (rf', r)" "logs rf \<noteq> []"
  obtains (stale) "rv_Term args \<le> currentTerm rf" "rf' = rf" "\<not> rvr_VoteGranted r"
      "rvr_Term r = currentTerm rf"
  | (outdated) "currentTerm rf \<le> rv_Term args" "rf' = step_down rf (rv_Term args)"
      "\<not> rvr_VoteGranted r" "rvr_Term r = rv_Term args"
  | (granted) "currentTerm rf \<le> rv_Term args"
      "currentTerm rf = rv_Term args \<Longrightarrow> votedFor rf = -1 \<or> votedFor rf = rv_CandidateId args"
      "rf' = (persist ((step_down rf (rv_Term args))\<lparr>votedFor := rv_CandidateId args\<rparr>))
               \<lparr>electionTimer := True\<rparr>"
      "isLogUpToDate rf (rv_LastLogIndex args) (rv_LastLogTerm args) = Inr True"
      "rvr_VoteGranted r" "rvr_Term r = rv_Term args"
proof (cases "rv_Term args < currentTerm rf \<or>
    (rv_Term args = currentTerm rf \<and> votedFor rf \<noteq> -1 \<and> votedFor rf \<noteq> rv_CandidateId args)")
  case True
  with assms(1) have "r = \<lparr>rvr_Term = currentTerm rf, rvr_VoteGranted = False\<rparr>" "rf' = rf"
    by (auto simp: RequestVote_def)
  with True show ?thesis by (intro stale) auto
next
  case False
  let ?up = "rv_LastLogTerm args > Term (last (logs rf)) \<or> (rv_LastLogTerm args = Term (last (logs rf))
    \<and> rv_LastLogIndex args \<ge> Index (last (logs rf)))"
  from False have le: "max (rv_Term args) (currentTerm rf) = rv_Term args" by auto
  have rv: "RequestVote rf args = (if \<not> ?up
      then Inr (step_down rf (rv_Term args), \<lparr>rvr_Term = rv_Term args, rvr_VoteGranted = False\<rparr>)
      else Inr ((persist ((step_down rf (rv_Term args))\<lparr>votedFor := rv_CandidateId args\<rparr>))
               \<lparr>electionTimer := True\<rparr>, \<lparr>rvr_Term = rv_Term args, rvr_VoteGranted = True\<rparr>))"
    using assms(2) unfolding RequestVote_def if_not_P [OF False] Let_def step_down_def [symmetric]
    by (simp add: isLogUpToDate_ok le)
  note eq = trans [OF sym [OF rv] assms(1)]
  show ?thesis
  proof (cases ?up)
    case True
    with eq False assms(2) show ?thesis by (intro granted) (auto simp: isLogUpToDate_ok)
  next
    case F: False
    with eq False show ?thesis by (intro outdated) auto
  qed
qed

lemma RequestVote_ok:
  assumes "node_ok rf" "RequestVote rf args = Inr (rf', r)" "0 \<le> rv_CandidateId args"
  shows "node_ok rf'" "evolves rf rf'"
proof -
  let ?sd = "step_down rf (rv_Term args)"
  have sd: "node_ok ?sd" using step_down_keeps assms(1) by blast
  from assms(2) node_okD(2) [OF assms(1)] have "node_ok rf' \<and> evolves rf rf'"
  proof (cases rule: RequestVote_elim)
    case granted
    have "votedFor rf \<noteq> -1 \<Longrightarrow> currentTerm rf = rv_Term args \<Longrightarrow> votedFor rf = rv_CandidateId args"
      using granted(2) by auto
    moreover have "state ?sd \<noteq> Follower \<Longrightarrow> votedFor ?sd = me rf \<and> votedFor ?sd \<noteq> -1"
      using node_okD(5,8) [OF sd] by (auto simp: role_ok_def simp del: step_down_simps(9,10))
    ultimately show ?thesis
      using sd granted(1,3) by (auto simp: ok_defs evolves_def)
  qed (use assms(1) sd step_down_keeps in auto)
  then show "node_ok rf'" "evolves rf rf'" by blast+
qed

lemma InstallSnapshot_ok:
  assumes "node_ok rf" "InstallSnapshot rf args = (rf', r, eff)"
  shows "node_ok rf'" "evolves rf rf'"
  using assms
  by (auto simp: InstallSnapshot_def ae_accept_def Let_def ok_defs evolves_def split: if_splits)

lemma Start_ok:
  assumes "node_ok rf" "Start rf c = Inr (rf', r, eff)"
  shows "node_ok rf'" "evolves rf rf'"
  using assms
  by (auto simp: Start_def Let_def ok_defs evolves_def op_elims wf_log_append log_simps
      split: if_splits)

lemma ticker_election_ok:
  assumes "node_ok rf" "ticker_election rf = Inr (rf', el, eff)"
  shows "node_ok rf'" "evolves rf rf'"
  using assms
  by (auto simp: ticker_election_def StartElection_def genRequestVoteArgs_def Let_def ok_defs
      evolves_def split: if_splits)

lemma ticker_heartbeat_ok:
  assumes "node_ok rf" "ticker_heartbeat rf = (rf', eff)"
  shows "node_ok rf'" "evolves rf rf'"
  using assms
  by (auto simp: ticker_heartbeat_def Let_def ok_defs evolves_def split: if_splits)

lemma onRequestVoteReply_ok:
  assumes "node_ok rf" "onRequestVoteReply rf el reply = (rf', el', eff)"
  shows "node_ok rf'" "evolves rf rf'"
  using assms
  by (auto simp: onRequestVoteReply_def Let_def ok_defs evolves_def split: if_splits)

lemma onInstallSnapshotReply_ok:
  assumes "node_ok rf" "onInstallSnapshotReply rf peer args reply = Inr rf'"
  shows "node_ok rf'" "evolves rf rf'"
  using assms
  by (auto simp: onInstallSnapshotReply_def Let_def ok_defs evolves_def res_elims
      split: if_splits)

lemma advanceCommitIndexForLeader_cases:
  assumes "advanceCommitIndexForLeader rf = Inr (rf', eff)"
  obtains "rf' = rf" "eff = []"
  | ci where "commitIndex rf < ci" "rf' = rf\<lparr>commitIndex := ci\<rparr>" "eff = [SignalApply]"
      "index (sort (matchIndex rf))
         (int (length (matchIndex rf)) - (int (length (matchIndex rf)) div 2 + 1)) = Inr ci"
      "isLogMatched rf ci (currentTerm rf) = Inr True"
  using assms unfolding advanceCommitIndexForLeader_def Let_def
  by (elim bindR_eq_InrE) (simp split: if_splits, elim bindR_eq_InrE, auto split: if_splits)

lemma advanceCommitIndexForLeader_ok:
  assumes "node_ok rf" "advanceCommitIndexForLeader rf = Inr (rf', eff)"
  shows "node_ok rf'" "evolves rf rf'"
  using assms(1)
  by (cases rule: advanceCommitIndexForLeader_cases [OF assms(2)]; auto simp: ok_defs evolves_def)+

lemma onAppendEntriesReply_ok:
  assumes "node_ok rf" "onAppendEntriesReply rf peer args reply = Inr (rf', eff)"
  shows "node_ok rf'" "evolves rf rf'"
proof -
  have adv: "node_ok rf' \<and> evolves rf rf'"
    if "advanceCommitIndexForLeader (rf\<lparr>matchIndex := mi, nextIndex := ni\<rparr>) = Inr (rf', eff)"
      "length mi = peers rf" "length ni = peers rf" for mi ni
  proof -
    have "node_ok (rf\<lparr>matchIndex := mi, nextIndex := ni\<rparr>)"
      using assms(1) that(2,3) by (auto simp: ok_defs)
    from advanceCommitIndexForLeader_ok [OF this that(1)] show ?thesis
      by (auto simp: evolves_def)
  qed
  have "node_ok rf' \<and> evolves rf rf'"
  proof (cases "ae_Term args = currentTerm rf \<and> state rf = Leader \<and> aer_Success reply")
    case True
    with assms show ?thesis
      by (auto simp: onAppendEntriesReply_def res_elims node_okD dest!: adv)
  next
    case False
    with assms show ?thesis
      by (auto simp: onAppendEntriesReply_def ok_defs evolves_def res_elims
          split: if_splits option.splits)
  qed
  then show "node_ok rf'" "evolves rf rf'" by blast+
qed

lemma applier_done_ok:
  assumes "node_ok rf"
  shows "node_ok (applier_done rf ci)" "evolves rf (applier_done rf ci)"
  using assms by (auto simp: applier_done_def ok_defs evolves_def)

lemma Kill_ok:
  assumes "node_ok rf"
  shows "node_ok (Kill rf)" "evolves rf (Kill rf)"
  using assms by (auto simp: Kill_def ok_defs evolves_def)

end
