(* ===== verification/Raft_Append.thy ===== *)
theory Raft_Append
  imports Raft_Inv
begin

text \<open>
  \<^verbatim>\<open>AppendEntries\<close> and the snapshot operations on a well-formed node: their results on every branch,
  that no bounds check fails, and that they keep the invariant.
\<close>

section \<open>AppendEntries\<close>

lemma ae_accept_simps [simp]:
  "peers (ae_accept rf t) = peers rf" "me (ae_accept rf t) = me rf"
  "logs (ae_accept rf t) = logs rf" "commitIndex (ae_accept rf t) = commitIndex rf"
  "lastApplied (ae_accept rf t) = lastApplied rf" "nextIndex (ae_accept rf t) = nextIndex rf"
  "matchIndex (ae_accept rf t) = matchIndex rf" "state (ae_accept rf t) = Follower"
  "electionTimer (ae_accept rf t)" "currentTerm (ae_accept rf t) = max t (currentTerm rf)"
  "votedFor (ae_accept rf t) = (if t > currentTerm rf then -1 else votedFor rf)"
  by (auto simp: ae_accept_def Let_def max_def)

lemma ae_accept_ok:
  assumes "node_ok rf" "currentTerm rf \<le> t"
  shows "node_ok (ae_accept rf t)" "evolves rf (ae_accept rf t)"
  using assms by (auto simp: ae_accept_def Let_def ok_defs evolves_def)

definition ae_matches :: "'c Raft \<Rightarrow> 'c AppendEntriesArgs \<Rightarrow> bool" where
  "ae_matches rf args \<longleftrightarrow>
     first_index (logs rf) \<le> ae_PrevLogIndex args \<and>
     ae_PrevLogIndex args < first_index (logs rf) + int (length (logs rf)) \<and>
     Term (logs rf ! nat (ae_PrevLogIndex args - first_index (logs rf))) = ae_PrevLogTerm args"

definition ae_merged :: "'c Raft \<Rightarrow> 'c AppendEntriesArgs \<Rightarrow> 'c LogEntry list" where
  "ae_merged rf args =
     merge_log (logs rf) (nat (ae_PrevLogIndex args - first_index (logs rf) + 1)) (ae_Entries args)"

definition ae_result :: "'c Raft \<Rightarrow> 'c AppendEntriesArgs \<Rightarrow> 'c Raft" where
  "ae_result rf args =
     (let rf2 = ae_accept rf (ae_Term args);
          rf3 = (if ae_merged rf args = logs rf then rf2 else persist (rf2\<lparr>logs := ae_merged rf args\<rparr>));
          ci = min (ae_LeaderCommit args) (Index (last (ae_merged rf args)))
      in if ci > commitIndex rf then rf3\<lparr>commitIndex := ci\<rparr> else rf3)"

lemma ae_result_simps [simp]:
  "peers (ae_result rf args) = peers rf" "me (ae_result rf args) = me rf"
  "logs (ae_result rf args) = ae_merged rf args" "state (ae_result rf args) = Follower"
  "lastApplied (ae_result rf args) = lastApplied rf" "nextIndex (ae_result rf args) = nextIndex rf"
  "matchIndex (ae_result rf args) = matchIndex rf" "electionTimer (ae_result rf args)"
  "currentTerm (ae_result rf args) = max (ae_Term args) (currentTerm rf)"
  "votedFor (ae_result rf args) = (if ae_Term args > currentTerm rf then -1 else votedFor rf)"
  "commitIndex (ae_result rf args) =
     max (commitIndex rf) (min (ae_LeaderCommit args) (Index (last (ae_merged rf args))))"
  by (auto simp: ae_result_def Let_def)

lemma AppendEntries_stale:
  "ae_Term args < currentTerm rf \<Longrightarrow>
     AppendEntries rf args = Inr (rf, \<lparr>aer_Term = currentTerm rf, aer_Success = False,
       aer_ConflictIndex = 0, aer_ConflictTerm = 0\<rparr>, [])"
  by (simp add: AppendEntries_def Let_def)

lemma AppendEntries_before_snapshot:
  "wf_log (logs rf) \<Longrightarrow> currentTerm rf \<le> ae_Term args \<Longrightarrow>
   ae_PrevLogIndex args < first_index (logs rf) \<Longrightarrow>
     AppendEntries rf args = Inr (ae_accept rf (ae_Term args), \<lparr>aer_Term = ae_Term args,
       aer_Success = False, aer_ConflictIndex = 0, aer_ConflictTerm = 0\<rparr>, [])"
  by (simp add: AppendEntries_def Let_def wf_log_ne max_def)

lemma AppendEntries_beyond_end:
  assumes "wf_log (logs rf)" "currentTerm rf \<le> ae_Term args"
    "first_index (logs rf) + int (length (logs rf)) \<le> ae_PrevLogIndex args"
  shows "AppendEntries rf args = Inr (ae_accept rf (ae_Term args), \<lparr>aer_Term = ae_Term args,
       aer_Success = False, aer_ConflictIndex = first_index (logs rf) + int (length (logs rf)),
       aer_ConflictTerm = -1\<rparr>, [])"
proof -
  have "\<not> ae_PrevLogIndex args < first_index (logs rf)"
    using assms(3) by linarith
  then show ?thesis
    using assms
    by (simp add: AppendEntries_def Let_def wf_log_ne isLogMatched_ok wf_log_last max_def)
qed

lemma AppendEntries_mismatch:
  assumes "wf_log (logs rf)" "currentTerm rf \<le> ae_Term args"
    "first_index (logs rf) \<le> ae_PrevLogIndex args"
    "ae_PrevLogIndex args < first_index (logs rf) + int (length (logs rf))"
    "Term (logs rf ! nat (ae_PrevLogIndex args - first_index (logs rf))) \<noteq> ae_PrevLogTerm args"
  shows "AppendEntries rf args = Inr (ae_accept rf (ae_Term args), \<lparr>aer_Term = ae_Term args,
       aer_Success = False, aer_ConflictIndex = ae_PrevLogIndex args + 1,
       aer_ConflictTerm = ae_PrevLogTerm args\<rparr>, [])"
proof -
  have "conflict_scan (logs rf) (first_index (logs rf)) (ae_PrevLogTerm args) (ae_PrevLogIndex args) =
      Inr (ae_PrevLogIndex args)"
    using assms by (intro conflict_scan_mismatch) auto
  with assms show ?thesis
    by (simp add: AppendEntries_def Let_def wf_log_ne isLogMatched_ok wf_log_last max_def)
qed

lemma AppendEntries_match:
  assumes "wf_log (logs rf)" "currentTerm rf \<le> ae_Term args" "ae_matches rf args"
    "consecutive (ae_PrevLogIndex args + 1) (ae_Entries args)"
  shows "AppendEntries rf args = Inr (ae_result rf args, \<lparr>aer_Term = ae_Term args,
       aer_Success = True, aer_ConflictIndex = 0, aer_ConflictTerm = 0\<rparr>,
       if commitIndex rf < min (ae_LeaderCommit args) (Index (last (ae_merged rf args)))
       then [SignalApply] else [])"
proof -
  let ?f = "first_index (logs rf)" let ?k = "nat (ae_PrevLogIndex args - ?f + 1)"
  let ?a = "ae_accept rf (ae_Term args)" let ?m = "ae_merged rf args"
  have k: "0 < ?k" "?k \<le> length (logs rf)" "?f + int ?k = ae_PrevLogIndex args + 1"
    using assms(3) by (auto simp: ae_matches_def)
  have nz: "\<not> ?k + length (ae_Entries args) \<le> length (logs rf) \<Longrightarrow> ?m \<noteq> logs rf"
    using length_merge_log [OF k(2), of "ae_Entries args"] by (auto simp: ae_merged_def)
  have mt: "?m = logs rf \<Longrightarrow> j < length (ae_Entries args) \<Longrightarrow>
      Term (logs rf ! (?k + j)) = Term (ae_Entries args ! j)" for j
    using merge_log_Term [OF k(2), of j "ae_Entries args"] by (auto simp: ae_merged_def)
  have scan: "append_scan ?a ?f (ae_Entries args) =
      Inr (if ?m = logs rf then ?a else persist (?a\<lparr>logs := ?m\<rparr>))"
    using append_scan_merge [of "logs rf" ?a ?k ?f "ae_Entries args"] k assms(4) nz mt
    by (auto simp: ae_merged_def)
  have wf: "wf_log ?m"
    using wf_log_merge_log [OF assms(1) k(1,2), of "ae_Entries args"] assms(4) k(3)
    by (simp add: ae_merged_def)
  have matched: "isLogMatched ?a (ae_PrevLogIndex args) (ae_PrevLogTerm args) = Inr True"
    using assms(1,3) by (simp add: isLogMatched_ok ae_matches_def)
  show ?thesis
    using assms(1-3) scan matched wf_log_ne [OF wf]
    by (simp add: AppendEntries_def Let_def ae_matches_def wf_log_ne ae_result_def max_absorb1)
qed

lemma AppendEntries_conflict:
  assumes "wf_log (logs rf)" "currentTerm rf \<le> ae_Term args" "\<not> ae_matches rf args"
  shows "\<exists>r. AppendEntries rf args = Inr (ae_accept rf (ae_Term args), r, []) \<and> \<not> aer_Success r \<and>
    aer_Term r = ae_Term args"
proof -
  consider "ae_PrevLogIndex args < first_index (logs rf)"
    | "first_index (logs rf) + int (length (logs rf)) \<le> ae_PrevLogIndex args"
    | "first_index (logs rf) \<le> ae_PrevLogIndex args"
      "ae_PrevLogIndex args < first_index (logs rf) + int (length (logs rf))"
    by linarith
  then show ?thesis
  proof cases
    case 1
    with assms show ?thesis by (simp add: AppendEntries_before_snapshot)
  next
    case 2
    with assms show ?thesis by (simp add: AppendEntries_beyond_end)
  next
    case 3
    with assms(3) have "Term (logs rf ! nat (ae_PrevLogIndex args - first_index (logs rf))) \<noteq>
        ae_PrevLogTerm args"
      by (simp add: ae_matches_def)
    with AppendEntries_mismatch [OF assms(1,2) 3] show ?thesis by simp
  qed
qed

lemma AppendEntries_returns:
  assumes "wf_log (logs rf)" "consecutive (ae_PrevLogIndex args + 1) (ae_Entries args)"
  shows "returns (AppendEntries rf args)"
proof (cases "ae_Term args < currentTerm rf")
  case True
  then show ?thesis by (simp add: AppendEntries_stale)
next
  case False
  then have t: "currentTerm rf \<le> ae_Term args" by simp
  show ?thesis
  proof (cases "ae_matches rf args")
    case True
    from AppendEntries_match [OF assms(1) t True assms(2)] show ?thesis
      unfolding returns_iff by blast
  next
    case False
    from AppendEntries_conflict [OF assms(1) t False] show ?thesis
      unfolding returns_iff by blast
  qed
qed

lemma AppendEntries_elim [consumes 3]:
  assumes "AppendEntries rf args = Inr (rf', r, eff)"
    "wf_log (logs rf)" "consecutive (ae_PrevLogIndex args + 1) (ae_Entries args)"
  obtains (reject) "ae_Term args < currentTerm rf" "rf' = rf" "\<not> aer_Success r"
      "aer_Term r = currentTerm rf" "eff = []"
  | (conflict) "currentTerm rf \<le> ae_Term args" "\<not> ae_matches rf args"
      "rf' = ae_accept rf (ae_Term args)" "\<not> aer_Success r" "aer_Term r = ae_Term args" "eff = []"
  | (accept) "currentTerm rf \<le> ae_Term args" "ae_matches rf args" "rf' = ae_result rf args"
      "aer_Success r" "aer_Term r = ae_Term args" "set eff \<subseteq> {SignalApply}"
proof (cases "ae_Term args < currentTerm rf")
  case True
  with assms(1) have "rf' = rf \<and> \<not> aer_Success r \<and> aer_Term r = currentTerm rf \<and> eff = []"
    by (auto simp: AppendEntries_stale)
  then show ?thesis by (elim conjE) (rule reject [OF True])
next
  case False
  then have t: "currentTerm rf \<le> ae_Term args" by simp
  show ?thesis
  proof (cases "ae_matches rf args")
    case True
    from AppendEntries_match [OF assms(2) t True assms(3)] assms(1)
    have "rf' = ae_result rf args \<and> aer_Success r \<and> aer_Term r = ae_Term args \<and> set eff \<subseteq> {SignalApply}"
      by (auto split: if_splits)
    then show ?thesis by (elim conjE) (rule accept [OF t True])
  next
    case F: False
    from AppendEntries_conflict [OF assms(2) t F] assms(1)
    have "rf' = ae_accept rf (ae_Term args) \<and> \<not> aer_Success r \<and> aer_Term r = ae_Term args \<and> eff = []"
      by auto
    then show ?thesis by (elim conjE) (rule conflict [OF t F])
  qed
qed

lemma ae_merged_wf:
  assumes "wf_log (logs rf)" "ae_matches rf args"
    "consecutive (ae_PrevLogIndex args + 1) (ae_Entries args)"
  shows "wf_log (ae_merged rf args)" "hd (ae_merged rf args) = hd (logs rf)"
proof -
  let ?k = "nat (ae_PrevLogIndex args - first_index (logs rf) + 1)"
  have k: "0 < ?k" "?k \<le> length (logs rf)"
    "first_index (logs rf) + int ?k = ae_PrevLogIndex args + 1"
    using assms(2) by (auto simp: ae_matches_def)
  with assms show "wf_log (ae_merged rf args)" "hd (ae_merged rf args) = hd (logs rf)"
    by (simp_all add: ae_merged_def wf_log_merge_log first_index_merge_log)
qed

lemma ae_result_ok:
  assumes "node_ok rf" "currentTerm rf \<le> ae_Term args" "ae_matches rf args"
    "consecutive (ae_PrevLogIndex args + 1) (ae_Entries args)"
  shows "node_ok (ae_result rf args)" "evolves rf (ae_result rf args)"
proof -
  have wf: "wf_log (ae_merged rf args)" "first_index (ae_merged rf args) = first_index (logs rf)"
    using ae_merged_wf [OF node_okD(1) [OF assms(1)] assms(3,4)] by simp_all
  have "durable (ae_result rf args)"
    using node_okD(7) [OF ae_accept_ok(1) [OF assms(1,2)]] by (simp add: ae_result_def Let_def)
  then show "node_ok (ae_result rf args)"
    using assms(1) wf by (auto simp: node_ok_def wf_node_def role_ok_def)
  show "evolves rf (ae_result rf args)"
    using assms(2) by (auto simp: evolves_def)
qed

lemma AppendEntries_ok:
  assumes "node_ok rf" "AppendEntries rf args = Inr (rf', r, eff)"
    "consecutive (ae_PrevLogIndex args + 1) (ae_Entries args)"
  shows "node_ok rf'" "evolves rf rf'"
  using assms(1) ae_accept_ok [OF assms(1)] ae_result_ok [OF assms(1) _ _ assms(3)]
  by (cases rule: AppendEntries_elim [OF assms(2) node_okD(1) [OF assms(1)] assms(3)]; simp)+

section \<open>Snapshots and restart\<close>

lemma Snapshot_eq:
  assumes "wf_log (logs rf)"
  shows "Snapshot rf i snap =
    (let f = first_index (logs rf); n = nat (i - f)
     in if i \<le> f \<or> i \<ge> f + int (length (logs rf)) then Inr rf
        else let rf1 = rf\<lparr>logs := (drop n (logs rf))[0 := (logs rf ! n)\<lparr>Command := None\<rparr>]\<rparr>
             in Inr (rf1\<lparr>persister :=
                   SaveStateAndSnapshot (persister rf) (Some (encodeState rf1)) snap\<rparr>))"
proof (cases "i \<le> first_index (logs rf) \<or> i > Index (last (logs rf))")
  case True
  with assms show ?thesis by (auto simp: Snapshot_def Let_def wf_log_ne wf_log_last)
next
  case False
  then have c: "first_index (logs rf) \<le> i" "i \<le> Index (last (logs rf))" by auto
  from False assms have c': "\<not> (i \<le> first_index (logs rf) \<or>
      i \<ge> first_index (logs rf) + int (length (logs rf)))"
    by (auto simp: wf_log_last)
  from snapshot_log_ok(1) [OF assms c] False c' assms
  show ?thesis
    by (simp add: Snapshot_def Let_def wf_log_ne flip: bindR_assoc)
qed

lemma Snapshot_ok:
  assumes "node_ok rf" "Snapshot rf i snap = Inr rf'" "i \<le> commitIndex rf"
  shows "node_ok rf'" "evolves rf rf'"
proof -
  let ?l = "logs rf" let ?n = "nat (i - first_index ?l)"
  have "node_ok rf' \<and> evolves rf rf'"
  proof (cases "i \<le> first_index ?l \<or> i \<ge> first_index ?l + int (length ?l)")
    case True
    with assms show ?thesis by (simp add: Snapshot_eq node_okD(1) Let_def)
  next
    case False
    then have n: "?n < length ?l" "first_index ?l + int ?n = i" by auto
    have e: "Index ((?l ! ?n)\<lparr>Command := None\<rparr>) = first_index ?l + int ?n"
      using wf_log_nth [OF node_okD(1) [OF assms(1)] n(1)] by simp
    let ?s = "(drop ?n ?l)[0 := (?l ! ?n)\<lparr>Command := None\<rparr>]"
    have rf': "rf' = rf\<lparr>logs := ?s, persister :=
        SaveStateAndSnapshot (persister rf) (Some (encodeState (rf\<lparr>logs := ?s\<rparr>))) snap\<rparr>"
      using assms(2) False by (simp add: Snapshot_eq [OF node_okD(1) [OF assms(1)]] Let_def)
    have "durable rf'"
      unfolding rf' by (rule durableI) (simp add: encodeState_def)
    with wf_log_snapshot [OF node_okD(1) [OF assms(1)] n(1) e] n assms(1,3) show ?thesis
      by (simp add: rf' node_ok_def wf_node_def role_ok_def evolves_def)
  qed
  then show "node_ok rf'" "evolves rf rf'" by blast+
qed

lemma CondInstallSnapshot_eq:
  assumes "wf_log (logs rf)" "first_index (logs rf) \<le> commitIndex rf" "commitIndex rf < i"
  shows "CondInstallSnapshot rf t i snap =
    (let f = first_index (logs rf);
         l = (if i \<ge> f + int (length (logs rf)) then [\<lparr>Command = None, Term = t, Index = i\<rparr>]
              else (drop (nat (i - f)) (logs rf))[0 := \<lparr>Command = None, Term = t, Index = i\<rparr>]);
         rf1 = rf\<lparr>logs := l, commitIndex := i, lastApplied := i\<rparr>
     in Inr (rf1\<lparr>persister := SaveStateAndSnapshot (persister rf) (Some (encodeState rf1)) snap\<rparr>, True))"
proof (cases "i > Index (last (logs rf))")
  case True
  with assms show ?thesis
    by (simp add: CondInstallSnapshot_def Let_def wf_log_ne wf_log_last zero_entry_def)
next
  case False
  then have c: "first_index (logs rf) \<le> i" "i \<le> Index (last (logs rf))" using assms by auto
  have c': "\<not> i \<ge> first_index (logs rf) + int (length (logs rf))"
    using False assms(1) by (auto simp: wf_log_last)
  let ?n = "nat (i - first_index (logs rf))"
  have ne: "(drop ?n (logs rf))[0 := e] \<noteq> []" for e
    using snapshot_log_ok(2) [OF assms(1) c] by simp
  have hd: "hd ((drop ?n (logs rf))[0 := e]) = e" for e
    using ne [of e] by (cases "drop ?n (logs rf)") auto
  show ?thesis
    using snapshot_log_ok(1) [OF assms(1) c] False c' assms ne
    by (simp add: CondInstallSnapshot_def Let_def wf_log_ne hd)
qed

lemma CondInstallSnapshot_ok:
  assumes "node_ok rf" "CondInstallSnapshot rf t i snap = Inr (rf', b)"
  shows "node_ok rf'" "evolves rf rf'"
proof -
  let ?l = "logs rf" let ?n = "nat (i - first_index ?l)"
  let ?e = "\<lparr>Command = None, Term = t, Index = i\<rparr>"
  have "node_ok rf' \<and> evolves rf rf'"
  proof (cases "i \<le> commitIndex rf")
    case True
    with assms show ?thesis by (simp add: CondInstallSnapshot_def)
  next
    case False
    then have ci: "commitIndex rf < i" by simp
    have fi: "first_index ?l \<le> commitIndex rf" using assms(1) by (rule node_okD)
    have wf: "i < first_index ?l + int (length ?l) \<Longrightarrow>
        wf_log ((drop ?n ?l)[0 := ?e]) \<and> first_index ((drop ?n ?l)[0 := ?e]) = i"
      using wf_log_snapshot [OF node_okD(1) [OF assms(1)], of ?n ?e] ci fi by auto
    let ?s = "if i \<ge> first_index ?l + int (length ?l) then [?e] else (drop ?n ?l)[0 := ?e]"
    have rf': "rf' = rf\<lparr>logs := ?s, commitIndex := i, lastApplied := i, persister :=
        SaveStateAndSnapshot (persister rf)
          (Some (encodeState (rf\<lparr>logs := ?s, commitIndex := i, lastApplied := i\<rparr>))) snap\<rparr>"
      using assms(2) unfolding CondInstallSnapshot_eq [OF node_okD(1) [OF assms(1)] fi ci] Let_def
      by simp
    have "durable rf'"
      unfolding rf' by (rule durableI) (simp add: encodeState_def)
    moreover have "wf_log ?s \<and> first_index ?s = i"
      using wf by (simp add: wf_log_def)
    ultimately show ?thesis
      using assms(1) by (simp add: rf' node_ok_def wf_node_def role_ok_def evolves_def)
  qed
  then show "node_ok rf'" "evolves rf rf'" by blast+
qed

lemma Make_durable:
  assumes "wf_node rf" "durable rf"
  shows "\<exists>rf'. Make (peers rf) (me rf) (persister rf) = Inr rf' \<and>
    currentTerm rf' = currentTerm rf \<and> votedFor rf' = votedFor rf \<and> logs rf' = logs rf \<and>
    state rf' = Follower \<and> peers rf' = peers rf \<and> me rf' = me rf \<and> persister rf' = persister rf \<and>
    commitIndex rf' = first_index (logs rf) \<and> lastApplied rf' = first_index (logs rf) \<and>
    nextIndex rf' = replicate (peers rf) (Index (last (logs rf)) + 1) \<and>
    matchIndex rf' = replicate (peers rf) 0 \<and> electionTimer rf'"
proof (cases "slice_elems (raftstate (persister rf))")
  case Nil
  with assms show ?thesis
    by (auto simp: durable_def wf_node_def Make_def Let_def readPersist_def ReadRaftState_def
        clone_def zero_entry_def getLastLog_def)
next
  case (Cons d ds)
  with assms have d: "slice_elems (raftstate (persister rf)) = encodeState rf"
    by (simp add: durable_def)
  with assms show ?thesis
    by (auto simp: wf_node_def wf_log_ne Make_def Let_def readPersist_def ReadRaftState_def clone_def)
qed

lemma Make_ok:
  assumes "node_ok rf" "Make (peers rf) (me rf) (persister rf) = Inr rf'"
  shows "node_ok rf'" "evolves rf rf'"
proof -
  from assms(1) have "wf_node rf" "durable rf" by (auto simp: node_ok_def)
  from Make_durable [OF this] assms obtain
    "currentTerm rf' = currentTerm rf" "votedFor rf' = votedFor rf" "logs rf' = logs rf"
    "state rf' = Follower" "peers rf' = peers rf" "me rf' = me rf" "persister rf' = persister rf"
    "commitIndex rf' = first_index (logs rf)" "length (nextIndex rf') = peers rf"
    "length (matchIndex rf') = peers rf" "electionTimer rf'"
    by auto
  with assms(1) show "node_ok rf'" "evolves rf rf'"
    by (auto simp: ok_defs evolves_def durable_def encodeState_def split: list.splits)
qed

lemma Make_fresh:
  assumes "0 \<le> i" "i < int n"
  shows "\<exists>rf. Make n i MakePersister = Inr rf \<and> node_ok rf \<and> currentTerm rf = 0 \<and>
    votedFor rf = -1 \<and> logs rf = [zero_entry] \<and> state rf = Follower \<and> peers rf = n \<and> me rf = i \<and>
    commitIndex rf = 0 \<and> lastApplied rf = 0"
  using assms
  by (auto simp: Make_def Let_def readPersist_def ReadRaftState_def MakePersister_def clone_def
      getLastLog_def ok_defs durable_def zero_entry_def wf_log_def)

lemma Make_fresh_ok:
  assumes "0 \<le> i" "i < int n" "Make n i MakePersister = Inr rf"
  shows "node_ok rf"
  using Make_fresh [OF assms(1,2)] assms(3) by (metis Inr_inject)

end
