(* ===== verification/Raft_Step.thy ===== *)
theory Raft_Step
  imports Raft_Append
begin

text \<open>
  The step relation of one node and the contract that all its operations share, stated once as a
  locale and discharged for \<open>node_step\<close>. A restart is a step too: the process is replaced by
  \<^verbatim>\<open>Make\<close> on the same persister.
\<close>

inductive node_step :: "'c Raft \<Rightarrow> 'c Raft \<Rightarrow> bool" where
  ns_RequestVote:
    "RequestVote rf args = Inr (rf', r) \<Longrightarrow> 0 \<le> rv_CandidateId args \<Longrightarrow> node_step rf rf'"
| ns_AppendEntries:
    "AppendEntries rf args = Inr (rf', r, eff) \<Longrightarrow>
     consecutive (ae_PrevLogIndex args + 1) (ae_Entries args) \<Longrightarrow> node_step rf rf'"
| ns_InstallSnapshot: "InstallSnapshot rf args = (rf', r, eff) \<Longrightarrow> node_step rf rf'"
| ns_Snapshot: "Snapshot rf i snap = Inr rf' \<Longrightarrow> i \<le> commitIndex rf \<Longrightarrow> node_step rf rf'"
| ns_CondInstallSnapshot: "CondInstallSnapshot rf t i snap = Inr (rf', b) \<Longrightarrow> node_step rf rf'"
| ns_Start: "Start rf c = Inr (rf', r, eff) \<Longrightarrow> node_step rf rf'"
| ns_election: "ticker_election rf = Inr (rf', el, eff) \<Longrightarrow> node_step rf rf'"
| ns_heartbeat: "ticker_heartbeat rf = (rf', eff) \<Longrightarrow> node_step rf rf'"
| ns_vote_reply: "onRequestVoteReply rf el reply = (rf', el', eff) \<Longrightarrow> node_step rf rf'"
| ns_append_reply: "onAppendEntriesReply rf peer args' reply' = Inr (rf', eff) \<Longrightarrow> node_step rf rf'"
| ns_install_reply: "onInstallSnapshotReply rf peer args'' reply'' = Inr rf' \<Longrightarrow> node_step rf rf'"
| ns_applier: "node_step rf (applier_done rf ci)"
| ns_Kill: "node_step rf (Kill rf)"
| ns_restart: "Make (peers rf) (me rf) (persister rf) = Inr rf' \<Longrightarrow> node_step rf rf'"

locale node_contract =
  fixes op :: "'c Raft \<Rightarrow> 'c Raft \<Rightarrow> bool"
  assumes keeps_ok: "op rf rf' \<Longrightarrow> node_ok rf \<Longrightarrow> node_ok rf'"
    and keeps_evolves: "op rf rf' \<Longrightarrow> node_ok rf \<Longrightarrow> evolves rf rf'"
begin

lemma run_keeps:
  assumes "op\<^sup>*\<^sup>* rf rf'" "node_ok rf"
  shows "node_ok rf' \<and> evolves rf rf'"
  using assms
proof (induction rule: rtranclp_induct)
  case base
  then show ?case by simp
next
  case (step b c)
  then show ?case using keeps_ok keeps_evolves evolves_trans by blast
qed

lemma run_restart:
  assumes "op\<^sup>*\<^sup>* rf rf'" "node_ok rf"
  shows "\<exists>rf''. Make (peers rf') (me rf') (persister rf') = Inr rf'' \<and>
    currentTerm rf'' = currentTerm rf' \<and> votedFor rf'' = votedFor rf' \<and> logs rf'' = logs rf'"
  using run_keeps [OF assms] Make_durable [of rf'] by (auto simp: node_ok_def)

end

lemma node_step_keeps: "node_step rf rf' \<Longrightarrow> node_ok rf \<Longrightarrow> node_ok rf' \<and> evolves rf rf'"
proof (induction rule: node_step.induct)
  case ns_RequestVote
  then show ?case using RequestVote_ok by blast
next
  case ns_AppendEntries
  then show ?case using AppendEntries_ok by blast
next
  case ns_InstallSnapshot
  then show ?case using InstallSnapshot_ok by blast
next
  case ns_Snapshot
  then show ?case using Snapshot_ok by blast
next
  case ns_CondInstallSnapshot
  then show ?case using CondInstallSnapshot_ok by blast
next
  case ns_Start
  then show ?case using Start_ok by blast
next
  case ns_election
  then show ?case using ticker_election_ok by blast
next
  case ns_heartbeat
  then show ?case using ticker_heartbeat_ok by blast
next
  case ns_vote_reply
  then show ?case using onRequestVoteReply_ok by blast
next
  case ns_append_reply
  then show ?case using onAppendEntriesReply_ok by blast
next
  case ns_install_reply
  then show ?case using onInstallSnapshotReply_ok by blast
next
  case ns_applier
  then show ?case using applier_done_ok by blast
next
  case ns_Kill
  then show ?case using Kill_ok by blast
next
  case ns_restart
  then show ?case using Make_ok by blast
qed

interpretation node: node_contract node_step
  using node_step_keeps by unfold_locales blast+

lemma node_step_start:
  "state rf \<noteq> Leader \<Longrightarrow> Start rf c = Inr (rf, (-1, -1, False), [])"
  by (simp add: Start_def)

section \<open>Results on whole executions of a node\<close>


text \<open>
  C7. Over any such execution the term never decreases, and a vote cast in a term stays the vote of
  that term, also across restarts.
\<close>

theorem term_and_vote_stable:
  assumes "Make n i MakePersister = Inr rf0" "0 \<le> i" "i < int n"
    "node_step\<^sup>*\<^sup>* rf0 rf1" "node_step\<^sup>*\<^sup>* rf1 rf2"
  shows "currentTerm rf1 \<le> currentTerm rf2 \<and>
    (currentTerm rf2 = currentTerm rf1 \<and> votedFor rf1 \<noteq> -1 \<longrightarrow> votedFor rf2 = votedFor rf1)"
proof -
  have "node_ok rf0" using Make_fresh_ok [OF assms(2,3,1)] .
  with node.run_keeps [OF assms(4)] have "node_ok rf1" by blast
  with node.run_keeps [OF assms(5)] show ?thesis by (auto simp: evolves_def)
qed

text \<open>
  C8. The type of a node's state: in every such execution the log is not empty and its indices are consecutive, it reaches down to
  the commit index, the arrays of a leader have one element per peer, the node's own number is one of the peers, a candidate or leader
  has voted for itself, and the timer of the node's role is armed.
\<close>

theorem node_state_well_formed:
  assumes "Make n i MakePersister = Inr rf0" "0 \<le> i" "i < int n" "node_step\<^sup>*\<^sup>* rf0 rf"
  shows "logs rf \<noteq> [] \<and> (\<forall>k < length (logs rf). Index (logs rf ! k) = Index (logs rf ! 0) + int k) \<and>
    Index (logs rf ! 0) \<le> commitIndex rf \<and> length (nextIndex rf) = peers rf \<and> length (matchIndex rf) = peers rf \<and>
    0 \<le> me rf \<and> me rf < int (peers rf) \<and> (state rf \<noteq> Follower \<longrightarrow> votedFor rf = me rf) \<and>
    (if state rf = Leader then heartbeatTimer rf else electionTimer rf)"
proof -
  have "node_ok rf0" using Make_fresh_ok [OF assms(2,3,1)] .
  with node.run_keeps [OF assms(4)] have "node_ok rf" by blast
  then have ok: "wf_log (logs rf)" "wf_node rf" "role_ok rf" "first_index (logs rf) \<le> commitIndex rf"
    by (simp_all add: node_ok_def wf_node_def)
  have hd: "logs rf ! 0 = hd (logs rf)" using ok(1) by (simp add: wf_log_def hd_conv_nth)
  show ?thesis unfolding hd using ok by (auto simp: wf_node_def wf_log_def role_ok_def)
qed

text \<open>A fresh node whose election timer fires, for the examples.\<close>

lemma fresh_election:
  "\<exists>rf0 rf. Make 3 0 (MakePersister :: nat Persister) = Inr rf0 \<and> node_step\<^sup>*\<^sup>* rf0 rf \<and>
     currentTerm rf = 1 \<and> votedFor rf = 0 \<and> state rf = Candidate"
proof -
  obtain rf0 :: "nat Raft" where rf0: "Make 3 0 MakePersister = Inr rf0" "currentTerm rf0 = 0"
    "logs rf0 = [zero_entry]" "me rf0 = 0"
    using Make_fresh [of 0 3] by auto
  obtain rf el eff where t: "ticker_election rf0 = Inr (rf, el, eff)" "currentTerm rf = 1"
    "votedFor rf = 0" "state rf = Candidate"
    using rf0 by (simp add: ticker_election_def StartElection_def genRequestVoteArgs_def Let_def)
  then have "node_step\<^sup>*\<^sup>* rf0 rf" by (blast intro: node_step.intros)
  with rf0 t show ?thesis by blast
qed


theorem term_and_vote_stable_witness:
  "\<exists>rf0 rf. Make 3 0 (MakePersister :: nat Persister) = Inr rf0 \<and> node_step\<^sup>*\<^sup>* rf0 rf \<and>
     currentTerm rf0 \<le> currentTerm rf"
proof -
  from fresh_election obtain rf0 rf where
    r: "Make 3 0 (MakePersister :: nat Persister) = Inr rf0" "node_step\<^sup>*\<^sup>* rf0 rf" by blast
  from term_and_vote_stable [OF r(1) _ _ _ r(2)] r show ?thesis by auto
qed

theorem node_state_well_formed_witness:
  "\<exists>rf0 rf. Make 3 0 (MakePersister :: nat Persister) = Inr rf0 \<and> node_step\<^sup>*\<^sup>* rf0 rf \<and> state rf = Candidate \<and>
     logs rf \<noteq> [] \<and> votedFor rf = me rf \<and> electionTimer rf"
proof -
  from fresh_election obtain rf0 rf where
    r: "Make 3 0 (MakePersister :: nat Persister) = Inr rf0" "node_step\<^sup>*\<^sup>* rf0 rf" "state rf = Candidate" by blast
  from node_state_well_formed [OF r(1) _ _ r(2)] r show ?thesis by auto
qed

text \<open>A node can always be made on an empty persister.\<close>

lemma Make_fresh_returns: "\<exists>rf. Make n i MakePersister = Inr rf"
  by (simp add: Make_def MakePersister_def ReadRaftState_def readPersist_def getLastLog_def Let_def clone_def go_simps)

end
