(* ===== verification/Raft_Cluster.thy ===== *)
theory Raft_Cluster
  imports Raft_Step
begin

text \<open>
  The group of Raft peers: all nodes, the RPCs in flight, the goroutines that wait for replies, and
  the snapshots on their way to the service. \<open>exec\<close> performs one event; it is deterministic, and the
  scheduler, the timers, the clients and the network are the choice of the event. A request or a
  reply stays in its list once sent, so an execution may delay it, reorder it, never deliver it
  (loss) or deliver a request again, which is more than \<^verbatim>\<open>labrpc\<close> does. A vote reply is consumed at
  most once, by the goroutine of \<^verbatim>\<open>StartElection\<close> that waits for it, because the code counts votes.

  The last components are history, read by no event: the votes ever cast, the elections ever won, the
  log of the leader of each term, and the messages handed to the services.
\<close>

record 'c cluster =
  nodes :: "'c Raft list"
  elections :: "(nat \<times> election) list"
  vote_reqs :: "(nat \<times> RequestVoteArgs) list"
  vote_replies :: "(nat \<times> RequestVoteArgs \<times> RequestVoteReply) list"
  append_reqs :: "(nat \<times> nat \<times> 'c AppendEntriesArgs) list"
  append_replies :: "(nat \<times> nat \<times> 'c AppendEntriesArgs \<times> AppendEntriesReply) list"
  install_reqs :: "(nat \<times> nat \<times> InstallSnapshotArgs) list"
  install_replies :: "(nat \<times> nat \<times> InstallSnapshotArgs \<times> InstallSnapshotReply) list"
  snap_msgs :: "(nat \<times> 'c ApplyMsg) list"
  votes :: "(int \<times> int \<times> nat) list"
  elected :: "(int \<times> nat) list"
  tlog :: "int \<Rightarrow> 'c LogEntry list"
  applied :: "(nat \<times> 'c ApplyMsg) list"

datatype 'c event =
    Timeout nat                    \<comment> \<open>the election timer of a node\<close>
  | Heartbeat nat                  \<comment> \<open>the heartbeat timer of a node\<close>
  | DeliverVote nat                \<comment> \<open>a vote request, by its position\<close>
  | VoteReply nat nat              \<comment> \<open>a vote reply and the election that waits for it\<close>
  | ClientStart nat 'c
  | Replicate nat nat              \<comment> \<open>a replication round of a leader for a peer\<close>
  | DeliverAppend nat
  | AppendReply nat
  | DeliverInstall nat
  | InstallReply nat
  | ApplySnapshot nat              \<comment> \<open>the service takes a snapshot from the channel\<close>
  | TakeSnapshot nat int bytes     \<comment> \<open>the service of a node calls \<^verbatim>\<open>Snapshot\<close>\<close>
  | Apply nat                      \<comment> \<open>one round of the applier\<close>
  | Restart nat                    \<comment> \<open>crash and reboot from the persister\<close>

definition set_node :: "'c cluster \<Rightarrow> nat \<Rightarrow> 'c Raft \<Rightarrow> 'c cluster" where
  "set_node s i rf = s\<lparr>nodes := (nodes s)[i := rf]\<rparr>"

definition vote_requests :: "'c effect list \<Rightarrow> (nat \<times> RequestVoteArgs) list" where
  "vote_requests effs =
     List.map_filter (\<lambda>e. case e of GoRequestVote p args \<Rightarrow> Some (nat p, args) | _ \<Rightarrow> None) effs"

definition snapshot_messages :: "nat \<Rightarrow> 'c effect list \<Rightarrow> (nat \<times> 'c ApplyMsg) list" where
  "snapshot_messages d effs =
     List.map_filter (\<lambda>e. case e of GoApplyMsg m \<Rightarrow> Some (d, m) | _ \<Rightarrow> None) effs"

definition exec_Timeout :: "'c cluster \<Rightarrow> nat \<Rightarrow> 'c cluster res" where
  "exec_Timeout s i =
     bindR (ticker_election (nodes s ! i)) (\<lambda>(rf, el, effs).
       Inr ((set_node s i rf)\<lparr>elections := (i, el) # elections s,
              vote_reqs := vote_reqs s @ vote_requests effs,
              votes := (currentTerm rf, votedFor rf, i) # votes s\<rparr>))"

definition exec_DeliverVote :: "'c cluster \<Rightarrow> nat \<times> RequestVoteArgs \<Rightarrow> 'c cluster res" where
  "exec_DeliverVote s m =
     (case m of (d, args) \<Rightarrow>
        bindR (RequestVote (nodes s ! d) args) (\<lambda>(rf, r).
          Inr ((set_node s d rf)\<lparr>vote_replies := vote_replies s @ [(d, args, r)],
                 votes := (if rvr_VoteGranted r then (currentTerm rf, votedFor rf, d) # votes s
                           else votes s)\<rparr>)))"

definition exec_VoteReply ::
  "'c cluster \<Rightarrow> nat \<times> RequestVoteArgs \<times> RequestVoteReply \<Rightarrow> nat \<Rightarrow> 'c cluster" where
  "exec_VoteReply s m j =
     (case m of (v, args, r) \<Rightarrow> case elections s ! j of (c, el) \<Rightarrow>
        if args = el_args el \<and> int v \<in> set (el_pending el) then
          let rf = nodes s ! c;
              (rf', el', effs) = onRequestVoteReply rf el r;
              el'' = el'\<lparr>el_pending := filter (\<lambda>p. p \<noteq> int v) (el_pending el')\<rparr>;
              won = (state rf \<noteq> Leader \<and> state rf' = Leader)
          in (set_node s c rf')\<lparr>elections := (elections s)[j := (c, el'')],
                elected := (if won then (currentTerm rf', c) # elected s else elected s),
                tlog := (if won then (tlog s)(currentTerm rf' := logs rf') else tlog s)\<rparr>
        else s)"

definition exec_ClientStart :: "'c cluster \<Rightarrow> nat \<Rightarrow> 'c \<Rightarrow> 'c cluster res" where
  "exec_ClientStart s i c =
     bindR (Start (nodes s ! i) (Some c)) (\<lambda>(rf, (idx, t, ok), effs).
       Inr ((set_node s i rf)\<lparr>tlog := (if ok then (tlog s)(t := logs rf) else tlog s)\<rparr>))"

definition exec_Replicate :: "'c cluster \<Rightarrow> nat \<Rightarrow> nat \<Rightarrow> 'c cluster res" where
  "exec_Replicate s i p =
     bindR (replicateOnceRound_request (nodes s ! i) (int p)) (\<lambda>req.
       Inr (case req of
              None \<Rightarrow> s
            | Some (SendAppendEntries args) \<Rightarrow> s\<lparr>append_reqs := append_reqs s @ [(i, p, args)]\<rparr>
            | Some (SendInstallSnapshot args) \<Rightarrow> s\<lparr>install_reqs := install_reqs s @ [(i, p, args)]\<rparr>))"

definition exec_DeliverAppend :: "'c cluster \<Rightarrow> nat \<times> nat \<times> 'c AppendEntriesArgs \<Rightarrow> 'c cluster res" where
  "exec_DeliverAppend s m =
     (case m of (i, d, args) \<Rightarrow>
        bindR (AppendEntries (nodes s ! d) args) (\<lambda>(rf, r, effs).
          Inr ((set_node s d rf)\<lparr>append_replies := append_replies s @ [(i, d, args, r)]\<rparr>)))"

definition exec_AppendReply ::
  "'c cluster \<Rightarrow> nat \<times> nat \<times> 'c AppendEntriesArgs \<times> AppendEntriesReply \<Rightarrow> 'c cluster res" where
  "exec_AppendReply s m =
     (case m of (i, d, args, r) \<Rightarrow>
        bindR (onAppendEntriesReply (nodes s ! i) (int d) args r) (\<lambda>(rf, effs).
          Inr (set_node s i rf)))"

definition exec_DeliverInstall :: "'c cluster \<Rightarrow> nat \<times> nat \<times> InstallSnapshotArgs \<Rightarrow> 'c cluster" where
  "exec_DeliverInstall s m =
     (case m of (i, d, args) \<Rightarrow> case InstallSnapshot (nodes s ! d) args of (rf, r, effs) \<Rightarrow>
        (set_node s d rf)\<lparr>install_replies := install_replies s @ [(i, d, args, r)],
           snap_msgs := snap_msgs s @ snapshot_messages d effs\<rparr>)"

definition exec_InstallReply ::
  "'c cluster \<Rightarrow> nat \<times> nat \<times> InstallSnapshotArgs \<times> InstallSnapshotReply \<Rightarrow> 'c cluster res" where
  "exec_InstallReply s m =
     (case m of (i, d, args, r) \<Rightarrow>
        bindR (onInstallSnapshotReply (nodes s ! i) (int d) args r) (\<lambda>rf. Inr (set_node s i rf)))"

definition exec_ApplySnapshot :: "'c cluster \<Rightarrow> nat \<times> 'c ApplyMsg \<Rightarrow> 'c cluster res" where
  "exec_ApplySnapshot s m =
     (case m of (d, msg) \<Rightarrow>
        bindR (CondInstallSnapshot (nodes s ! d) (SnapshotTerm msg) (SnapshotIndex msg)
                 (am_Snapshot msg)) (\<lambda>(rf, ok).
          Inr ((set_node s d rf)\<lparr>applied := (if ok then (d, msg) # applied s else applied s)\<rparr>)))"

definition exec_TakeSnapshot :: "'c cluster \<Rightarrow> nat \<Rightarrow> int \<Rightarrow> bytes \<Rightarrow> 'c cluster res" where
  "exec_TakeSnapshot s i idx snap =
     (if idx \<le> commitIndex (nodes s ! i)
      then bindR (Snapshot (nodes s ! i) idx snap) (\<lambda>rf. Inr (set_node s i rf)) else Inr s)"

definition exec_Apply :: "'c cluster \<Rightarrow> nat \<Rightarrow> 'c cluster res" where
  "exec_Apply s i =
     bindR (applier_take (nodes s ! i)) (\<lambda>t.
       case t of
         None \<Rightarrow> Inr s
       | Some (entries, ci) \<Rightarrow>
           Inr ((set_node s i (applier_done (nodes s ! i) ci))
                  \<lparr>applied := rev (map (\<lambda>e. (i, command_msg e)) entries) @ applied s\<rparr>))"

definition exec_Restart :: "'c cluster \<Rightarrow> nat \<Rightarrow> 'c cluster res" where
  "exec_Restart s i =
     (let rf = nodes s ! i
      in bindR (Make (peers rf) (me rf) (Persister_Copy (persister rf))) (\<lambda>rf'.
           Inr ((set_node s i rf')\<lparr>elections := filter (\<lambda>(c, el). c \<noteq> i) (elections s)\<rparr>)))"

text \<open>An event that names a node, a message or an election that does not exist does nothing.\<close>

definition exec :: "'c cluster \<Rightarrow> 'c event \<Rightarrow> 'c cluster res" where
  "exec s e =
     (let n = length (nodes s)
      in case e of
           Timeout i \<Rightarrow> if i < n then exec_Timeout s i else Inr s
         | Heartbeat i \<Rightarrow>
             if i < n then Inr (set_node s i (fst (ticker_heartbeat (nodes s ! i)))) else Inr s
         | DeliverVote k \<Rightarrow>
             if k < length (vote_reqs s) then exec_DeliverVote s (vote_reqs s ! k) else Inr s
         | VoteReply k j \<Rightarrow>
             if k < length (vote_replies s) \<and> j < length (elections s)
             then Inr (exec_VoteReply s (vote_replies s ! k) j) else Inr s
         | ClientStart i c \<Rightarrow> if i < n then exec_ClientStart s i c else Inr s
         | Replicate i p \<Rightarrow> if i < n \<and> p < n \<and> p \<noteq> i then exec_Replicate s i p else Inr s
         | DeliverAppend k \<Rightarrow>
             if k < length (append_reqs s) then exec_DeliverAppend s (append_reqs s ! k) else Inr s
         | AppendReply k \<Rightarrow>
             if k < length (append_replies s) then exec_AppendReply s (append_replies s ! k) else Inr s
         | DeliverInstall k \<Rightarrow>
             if k < length (install_reqs s) then Inr (exec_DeliverInstall s (install_reqs s ! k))
             else Inr s
         | InstallReply k \<Rightarrow>
             if k < length (install_replies s) then exec_InstallReply s (install_replies s ! k)
             else Inr s
         | ApplySnapshot k \<Rightarrow>
             if k < length (snap_msgs s) then exec_ApplySnapshot s (snap_msgs s ! k) else Inr s
         | TakeSnapshot i idx snap \<Rightarrow> if i < n then exec_TakeSnapshot s i idx snap else Inr s
         | Apply i \<Rightarrow> if i < n then exec_Apply s i else Inr s
         | Restart i \<Rightarrow> if i < n then exec_Restart s i else Inr s)"

definition init_cluster :: "nat \<Rightarrow> 'c cluster res" where
  "init_cluster n =
     bindR (mapR (\<lambda>i. Make n (int i) MakePersister) [0..<n]) (\<lambda>ns.
       Inr \<lparr>nodes = ns, elections = [], vote_reqs = [], vote_replies = [], append_reqs = [],
            append_replies = [], install_reqs = [], install_replies = [], snap_msgs = [],
            votes = [], elected = [], tlog = (\<lambda>_. []), applied = []\<rparr>)"

definition run :: "nat \<Rightarrow> 'c event list \<Rightarrow> 'c cluster res" where
  "run n es = bindR (init_cluster n) (\<lambda>s. foldR exec s es)"

text \<open>
  Two small executions of three nodes that serve as examples: node 0 becomes leader with the vote of
  node 1 and accepts a command; then it replicates the command to node 1 and commits it.
\<close>

definition elect_trace :: "nat event list" where
  "elect_trace = [Timeout 0, DeliverVote 0, VoteReply 0 0, ClientStart 0 11]"

definition commit_trace :: "nat event list" where
  "commit_trace = elect_trace @ [Replicate 0 1, DeliverAppend 0, AppendReply 0]"

end
