(* ===== verification/Raft_Election.thy ===== *)
theory Raft_Election
  imports Raft_Cluster
begin

text \<open>
  Election safety: over every execution of the group, with lost, delayed, reordered and repeated
  messages, crashes and restarts, snapshots and any number of elections, no two nodes win the election of one term.
  The argument is the one of the Raft paper: a node votes once per term (also across restarts, by
  \<open>node_step_keeps\<close>), a winner holds the votes of a majority, two majorities share a node.
\<close>

section \<open>Executions\<close>

inductive reach :: "('c event \<Rightarrow> bool) \<Rightarrow> nat \<Rightarrow> 'c cluster \<Rightarrow> bool" for P n where
  reach_init: "init_cluster n = Inr s \<Longrightarrow> reach P n s"
| reach_step: "reach P n s \<Longrightarrow> P e \<Longrightarrow> exec s e = Inr s' \<Longrightarrow> reach P n s'"

lemma reach_foldR:
  "reach P n s \<Longrightarrow> list_all P es \<Longrightarrow> foldR exec s es = Inr s' \<Longrightarrow> reach P n s'"
  by (induction es arbitrary: s) (auto intro: reach_step)

lemma run_reach: "run n es = Inr s \<Longrightarrow> list_all P es \<Longrightarrow> reach P n s"
  unfolding run_def by (auto intro: reach_foldR reach_init)

section \<open>Majorities\<close>

locale quorum_system =
  fixes quorum :: "'v set \<Rightarrow> bool"
  assumes quorums_meet: "quorum A \<Longrightarrow> quorum B \<Longrightarrow> A \<inter> B \<noteq> {}"
begin

lemma one_winner:
  assumes "quorum A" "quorum B" "\<forall>v\<in>A. voted v c" "\<forall>v\<in>B. voted v d"
    and "\<And>v x y. voted v x \<Longrightarrow> voted v y \<Longrightarrow> x = y"
  shows "c = d"
proof -
  obtain v where "v \<in> A" "v \<in> B" using quorums_meet [OF assms(1,2)] by blast
  with assms(3-5) show ?thesis by blast
qed

end

definition majority :: "nat \<Rightarrow> nat set \<Rightarrow> bool" where
  "majority n A \<longleftrightarrow> A \<subseteq> {..<n} \<and> n div 2 < card A"

interpretation maj: quorum_system "majority n" for n
proof
  fix A B assume "majority n A" "majority n B"
  then show "A \<inter> B \<noteq> {}"
    using card_gt_half_intersect [of "{..<n}" A B] by (simp add: majority_def)
qed

section \<open>Who becomes a leader\<close>

definition keeps_lead :: "'c Raft \<Rightarrow> 'c Raft \<Rightarrow> bool" where
  "keeps_lead rf rf' \<longleftrightarrow>
     (state rf' = Leader \<longrightarrow> state rf = Leader \<and> currentTerm rf' = currentTerm rf)"

named_theorems lead_intros \<open>operations that create no leader\<close>

lemma keeps_lead_refl [simp, lead_intros]: "keeps_lead rf rf"
  by (simp add: keeps_lead_def)

lemma keeps_lead_Follower [simp]: "state rf' = Follower \<Longrightarrow> keeps_lead rf rf'"
  by (simp add: keeps_lead_def)

lemma RequestVote_lead [lead_intros]:
  assumes "RequestVote rf args = Inr (rf', r)" "logs rf \<noteq> []"
  shows "keeps_lead rf rf'"
  using assms by (cases rule: RequestVote_elim) (auto simp: keeps_lead_def)

lemma AppendEntries_lead [lead_intros]:
  assumes "AppendEntries rf args = Inr (rf', r, eff)"
    "wf_log (logs rf)" "consecutive (ae_PrevLogIndex args + 1) (ae_Entries args)"
  shows "keeps_lead rf rf'"
  using assms by (cases rule: AppendEntries_elim) auto

lemma InstallSnapshot_lead [lead_intros]:
  "InstallSnapshot rf args = (rf', r, eff) \<Longrightarrow> keeps_lead rf rf'"
  by (auto simp: InstallSnapshot_def Let_def split: if_splits)

lemma Snapshot_lead [lead_intros]: "Snapshot rf i snap = Inr rf' \<Longrightarrow> keeps_lead rf rf'"
  by (auto simp: Snapshot_def Let_def keeps_lead_def split: if_splits)

lemma CondInstallSnapshot_lead [lead_intros]:
  "CondInstallSnapshot rf t i snap = Inr (rf', b) \<Longrightarrow> keeps_lead rf rf'"
  by (auto simp: CondInstallSnapshot_def Let_def keeps_lead_def split: if_splits)

lemma Start_lead [lead_intros]: "Start rf c = Inr (rf', r, eff) \<Longrightarrow> keeps_lead rf rf'"
  by (auto simp: Start_def Let_def keeps_lead_def split: if_splits)

lemma ticker_heartbeat_lead [lead_intros]: "keeps_lead rf (fst (ticker_heartbeat rf))"
  by (auto simp: ticker_heartbeat_def Let_def keeps_lead_def)

lemma onInstallSnapshotReply_lead [lead_intros]:
  "onInstallSnapshotReply rf peer args reply = Inr rf' \<Longrightarrow> keeps_lead rf rf'"
  by (auto simp: onInstallSnapshotReply_def keeps_lead_def split: if_splits)

lemma advanceCommitIndexForLeader_lead:
  assumes "advanceCommitIndexForLeader rf = Inr (rf', eff)"
  shows "state rf' = state rf" "currentTerm rf' = currentTerm rf" "logs rf' = logs rf"
  by (rule advanceCommitIndexForLeader_cases [OF assms]; simp)+

lemma onAppendEntriesReply_lead [lead_intros]:
  "onAppendEntriesReply rf peer args reply = Inr (rf', eff) \<Longrightarrow> keeps_lead rf rf'"
  by (auto simp: onAppendEntriesReply_def keeps_lead_def split: if_splits option.splits
      dest: advanceCommitIndexForLeader_lead)

lemma applier_done_lead [lead_intros]: "keeps_lead rf (applier_done rf ci)"
  by (simp add: applier_done_def keeps_lead_def)

section \<open>The shape of a reachable state\<close>

text \<open>Nodes are well-formed and sit at their own position; messages name existing nodes.\<close>

definition nodes_inv :: "nat \<Rightarrow> 'c cluster \<Rightarrow> bool" where
  "nodes_inv n s \<longleftrightarrow> length (nodes s) = n \<and>
     (\<forall>i < n. node_ok (nodes s ! i) \<and> me (nodes s ! i) = int i \<and> peers (nodes s ! i) = n)"

definition net_inv :: "nat \<Rightarrow> 'c cluster \<Rightarrow> bool" where
  "net_inv n s \<longleftrightarrow>
     (\<forall>(d, args) \<in> set (vote_reqs s). d < n \<and> 0 \<le> rv_CandidateId args) \<and>
     (\<forall>(i, d, args) \<in> set (append_reqs s). i < n \<and> d < n \<and>
        consecutive (ae_PrevLogIndex args + 1) (ae_Entries args)) \<and>
     (\<forall>(i, d, args, r) \<in> set (append_replies s). i < n \<and> d < n) \<and>
     (\<forall>(i, d, args) \<in> set (install_reqs s). i < n \<and> d < n) \<and>
     (\<forall>(i, d, args, r) \<in> set (install_replies s). i < n \<and> d < n) \<and>
     (\<forall>(d, m) \<in> set (snap_msgs s). d < n)"

definition election_inv :: "nat \<Rightarrow> 'c cluster \<Rightarrow> nat \<times> election \<Rightarrow> bool" where
  "election_inv n s ce \<longleftrightarrow> (case ce of (c, el) \<Rightarrow>
     c < n \<and> rv_CandidateId (el_args el) = int c \<and>
     (\<exists>V \<subseteq> {..<n}. int (card V) = grantedVotes el \<and>
        (\<forall>v \<in> V. int v \<notin> set (el_pending el) \<and> (rv_Term (el_args el), int c, v) \<in> set (votes s))))"

definition votes_inv :: "nat \<Rightarrow> 'c cluster \<Rightarrow> bool" where
  "votes_inv n s \<longleftrightarrow>
     (\<forall>(t, c, v) \<in> set (votes s). v < n \<and> 0 \<le> c \<and>
        (t < currentTerm (nodes s ! v) \<or> t = currentTerm (nodes s ! v) \<and> votedFor (nodes s ! v) = c)) \<and>
     (\<forall>t c d v. (t, c, v) \<in> set (votes s) \<longrightarrow> (t, d, v) \<in> set (votes s) \<longrightarrow> c = d) \<and>
     (\<forall>(v, args, r) \<in> set (vote_replies s). rvr_VoteGranted r \<longrightarrow>
        (rv_Term args, rv_CandidateId args, v) \<in> set (votes s))"

definition leaders_inv :: "nat \<Rightarrow> 'c cluster \<Rightarrow> bool" where
  "leaders_inv n s \<longleftrightarrow>
     (\<forall>(t, c) \<in> set (elected s). \<exists>V. majority n V \<and> (\<forall>v \<in> V. (t, int c, v) \<in> set (votes s))) \<and>
     (\<forall>i < n. state (nodes s ! i) = Leader \<longrightarrow> (currentTerm (nodes s ! i), i) \<in> set (elected s))"

definition safe_inv :: "nat \<Rightarrow> 'c cluster \<Rightarrow> bool" where
  "safe_inv n s \<longleftrightarrow> nodes_inv n s \<and> net_inv n s \<and> votes_inv n s \<and>
     (\<forall>ce \<in> set (elections s). election_inv n s ce) \<and> leaders_inv n s"

lemma nodes_invD:
  assumes "nodes_inv n s" "i < n"
  shows "node_ok (nodes s ! i)" "me (nodes s ! i) = int i" "peers (nodes s ! i) = n"
    "length (nodes s) = n" "wf_log (logs (nodes s ! i))" "logs (nodes s ! i) \<noteq> []"
  using assms node_okD(1,2) by (auto simp: nodes_inv_def)

lemma nodes_inv_update:
  assumes "nodes_inv n s" "i < n" "node_ok rf" "evolves (nodes s ! i) rf"
    "nodes s' = (nodes s)[i := rf]"
  shows "nodes_inv n s'"
  using assms by (auto simp: nodes_inv_def nth_list_update evolves_def)

lemma votes_invD:
  assumes "votes_inv n s"
  shows "(t, c, v) \<in> set (votes s) \<Longrightarrow> v < n" "(t, c, v) \<in> set (votes s) \<Longrightarrow> 0 \<le> c"
    "(t, c, v) \<in> set (votes s) \<Longrightarrow>
       t < currentTerm (nodes s ! v) \<or> t = currentTerm (nodes s ! v) \<and> votedFor (nodes s ! v) = c"
    "(t, c, v) \<in> set (votes s) \<Longrightarrow> (t, d, v) \<in> set (votes s) \<Longrightarrow> c = d"
    "(v, args, r) \<in> set (vote_replies s) \<Longrightarrow> rvr_VoteGranted r \<Longrightarrow>
       (rv_Term args, rv_CandidateId args, v) \<in> set (votes s)"
  using assms unfolding votes_inv_def by (fast | blast)+

lemma votes_inv_update:
  assumes "votes_inv n s" "nodes_inv n s" "i < n" "evolves (nodes s ! i) rf"
    "nodes s' = (nodes s)[i := rf]" "votes s' = votes s" "vote_replies s' = vote_replies s"
  shows "votes_inv n s'"
proof -
  have "v < n \<and> 0 \<le> c \<and> (t < currentTerm (nodes s' ! v) \<or>
      t = currentTerm (nodes s' ! v) \<and> votedFor (nodes s' ! v) = c)"
    if "(t, c, v) \<in> set (votes s)" for t c v
    using that assms(1-5) by (fastforce simp: votes_inv_def nth_list_update evolves_def nodes_inv_def)
  with assms(1,6,7) show ?thesis by (auto simp: votes_inv_def)
qed

lemma leaders_inv_update:
  assumes "leaders_inv n s" "nodes_inv n s" "i < n" "keeps_lead (nodes s ! i) rf"
    "nodes s' = (nodes s)[i := rf]" "votes s' = votes s" "elected s' = elected s"
  shows "leaders_inv n s'"
  using assms by (auto simp: leaders_inv_def nth_list_update nodes_inv_def keeps_lead_def)

lemma leaders_inv_mono:
  assumes "leaders_inv n s" "nodes s' = nodes s" "set (votes s) \<subseteq> set (votes s')" "elected s' = elected s"
  shows "leaders_inv n s'"
proof -
  have "\<exists>V. majority n V \<and> (\<forall>v \<in> V. (t, int c, v) \<in> set (votes s'))" if "(t, c) \<in> set (elected s)" for t c
    using assms(1,3) that unfolding leaders_inv_def by blast
  with assms(1,2,4) show ?thesis by (auto simp: leaders_inv_def)
qed

lemma election_inv_votes:
  "set (votes s) \<subseteq> set (votes s') \<Longrightarrow> election_inv n s ce \<Longrightarrow> election_inv n s' ce"
  unfolding election_inv_def by (cases ce) (simp, blast)

text \<open>An event that changes one node, casts no vote and makes no leader.\<close>

lemma safe_inv_update:
  assumes "safe_inv n s" "i < n" "node_ok rf" "evolves (nodes s ! i) rf" "keeps_lead (nodes s ! i) rf"
    "nodes s' = (nodes s)[i := rf]" "votes s' = votes s" "vote_replies s' = vote_replies s"
    "elected s' = elected s" "set (elections s') \<subseteq> set (elections s)" "net_inv n s'"
  shows "safe_inv n s'"
  using assms nodes_inv_update [of n s i rf s'] votes_inv_update [of n s i rf s']
    leaders_inv_update [of n s i rf s'] election_inv_votes [of s s' n]
  unfolding safe_inv_def by (metis order_refl subsetD)

section \<open>Every event keeps the shape\<close>

lemma safe_invD:
  assumes "safe_inv n s"
  shows "nodes_inv n s" "net_inv n s" "votes_inv n s" "leaders_inv n s"
    "\<And>ce. ce \<in> set (elections s) \<Longrightarrow> election_inv n s ce" "length (nodes s) = n"
  using assms by (auto simp: safe_inv_def nodes_inv_def)

lemma nodes_set_node [simp]: "nodes (set_node s i rf) = (nodes s)[i := rf]"
  "votes (set_node s i rf) = votes s" "vote_replies (set_node s i rf) = vote_replies s"
  "elected (set_node s i rf) = elected s" "elections (set_node s i rf) = elections s"
  "vote_reqs (set_node s i rf) = vote_reqs s" "append_reqs (set_node s i rf) = append_reqs s"
  "append_replies (set_node s i rf) = append_replies s"
  "install_reqs (set_node s i rf) = install_reqs s"
  "install_replies (set_node s i rf) = install_replies s" "snap_msgs (set_node s i rf) = snap_msgs s"
  "tlog (set_node s i rf) = tlog s" "applied (set_node s i rf) = applied s"
  by (simp_all add: set_node_def)

lemma net_inv_set_node [simp]: "net_inv n (set_node s i rf) = net_inv n s"
  by (simp add: net_inv_def)

lemma net_inv_nth:
  assumes "net_inv n s"
  shows "k < length (vote_reqs s) \<Longrightarrow> vote_reqs s ! k = (d, rv) \<Longrightarrow> d < n \<and> 0 \<le> rv_CandidateId rv"
    "k < length (append_reqs s) \<Longrightarrow> append_reqs s ! k = (i, d, ae) \<Longrightarrow>
       i < n \<and> d < n \<and> consecutive (ae_PrevLogIndex ae + 1) (ae_Entries ae)"
    "k < length (append_replies s) \<Longrightarrow> append_replies s ! k = (i, d, ae, aer) \<Longrightarrow> i < n \<and> d < n"
    "k < length (install_reqs s) \<Longrightarrow> install_reqs s ! k = (i, d, ia) \<Longrightarrow> i < n \<and> d < n"
    "k < length (install_replies s) \<Longrightarrow> install_replies s ! k = (i, d, ia, iar) \<Longrightarrow> i < n \<and> d < n"
    "k < length (snap_msgs s) \<Longrightarrow> snap_msgs s ! k = (d, m) \<Longrightarrow> d < n"
  using assms nth_mem [of k "vote_reqs s"] nth_mem [of k "append_reqs s"]
    nth_mem [of k "append_replies s"] nth_mem [of k "install_reqs s"]
    nth_mem [of k "install_replies s"] nth_mem [of k "snap_msgs s"]
  by (auto simp: net_inv_def)

lemma exec_Heartbeat_safe:
  assumes "safe_inv n s" "i < n"
  shows "safe_inv n (set_node s i (fst (ticker_heartbeat (nodes s ! i))))"
proof (rule safe_inv_update [OF assms])
  note ok = ticker_heartbeat_ok [OF nodes_invD(1) [OF safe_invD(1) [OF assms(1)] assms(2)]]
  show "node_ok (fst (ticker_heartbeat (nodes s ! i)))"
    "evolves (nodes s ! i) (fst (ticker_heartbeat (nodes s ! i)))"
    using ok by (metis prod.collapse)+
qed (use assms in \<open>auto simp: ticker_heartbeat_lead safe_invD\<close>)

lemma exec_ClientStart_safe:
  assumes "safe_inv n s" "i < n" "exec_ClientStart s i c = Inr s'"
  shows "safe_inv n s'"
proof -
  from assms(3) obtain rf idx t ok eff where
    st: "Start (nodes s ! i) (Some c) = Inr (rf, (idx, t, ok), eff)"
    and s': "s' = (set_node s i rf)\<lparr>tlog := (if ok then (tlog s)(t := logs rf) else tlog s)\<rparr>"
    by (auto simp: exec_ClientStart_def)
  show ?thesis
    using Start_ok [OF nodes_invD(1) [OF safe_invD(1) [OF assms(1)] assms(2)] st] Start_lead [OF st]
      safe_invD(2) [OF assms(1)]
    by (intro safe_inv_update [OF assms(1,2), of rf]) (auto simp: s' net_inv_def)
qed

lemma genAppendEntriesArgs_spec:
  assumes "wf_log (logs rf)" "genAppendEntriesArgs rf p = Inr args"
  shows "first_index (logs rf) \<le> p" "p < first_index (logs rf) + int (length (logs rf))"
    "args = \<lparr>ae_Term = currentTerm rf, ae_LeaderId = me rf, ae_PrevLogIndex = p,
       ae_PrevLogTerm = Term (logs rf ! nat (p - first_index (logs rf))),
       ae_LeaderCommit = commitIndex rf, ae_Entries = drop (nat (p - first_index (logs rf) + 1)) (logs rf)\<rparr>"
    "consecutive (ae_PrevLogIndex args + 1) (ae_Entries args)"
proof -
  show p: "first_index (logs rf) \<le> p" "p < first_index (logs rf) + int (length (logs rf))"
    and args: "args = \<lparr>ae_Term = currentTerm rf, ae_LeaderId = me rf, ae_PrevLogIndex = p,
       ae_PrevLogTerm = Term (logs rf ! nat (p - first_index (logs rf))),
       ae_LeaderCommit = commitIndex rf, ae_Entries = drop (nat (p - first_index (logs rf) + 1)) (logs rf)\<rparr>"
    using assms by (auto simp: genAppendEntriesArgs_def op_elims)
  show "consecutive (ae_PrevLogIndex args + 1) (ae_Entries args)"
    using consecutive_drop [of "first_index (logs rf)" "logs rf" "nat (p - first_index (logs rf) + 1)"]
      assms(1) p by (simp add: args wf_log_consecutive algebra_simps)
qed

lemma replicateOnceRound_request_append:
  assumes "replicateOnceRound_request rf p = Inr (Some (SendAppendEntries args))"
  shows "state rf = Leader" "\<exists>i. genAppendEntriesArgs rf i = Inr args"
  using assms by (auto simp: replicateOnceRound_request_def Let_def split: if_splits)

lemma exec_Replicate_safe:
  assumes "safe_inv n s" "i < n" "p < n" "exec_Replicate s i p = Inr s'"
  shows "safe_inv n s'"
proof -
  from assms(4) obtain req where req: "replicateOnceRound_request (nodes s ! i) (int p) = Inr req"
    and s': "s' = (case req of None \<Rightarrow> s
      | Some (SendAppendEntries args) \<Rightarrow> s\<lparr>append_reqs := append_reqs s @ [(i, p, args)]\<rparr>
      | Some (SendInstallSnapshot args) \<Rightarrow> s\<lparr>install_reqs := install_reqs s @ [(i, p, args)]\<rparr>)"
    by (auto simp: exec_Replicate_def)
  have "consecutive (ae_PrevLogIndex args + 1) (ae_Entries args)"
    if "req = Some (SendAppendEntries args)" for args
    using replicateOnceRound_request_append(2) [OF req [unfolded that]]
      genAppendEntriesArgs_spec(4) [OF nodes_invD(5) [OF safe_invD(1) [OF assms(1)] assms(2)]] by blast
  then have "net_inv n s'"
    using safe_invD(2) [OF assms(1)] assms(2,3)
    by (auto simp: s' net_inv_def split: option.splits replicate_request.splits)
  moreover have "nodes s' = (nodes s)[i := nodes s ! i]" "votes s' = votes s"
    "vote_replies s' = vote_replies s" "elected s' = elected s" "elections s' = elections s"
    by (simp_all add: s' split: option.splits replicate_request.splits)
  ultimately show ?thesis
    using nodes_invD(1) [OF safe_invD(1) [OF assms(1)] assms(2)]
    by (intro safe_inv_update [OF assms(1,2), of "nodes s ! i"]) auto
qed

lemma exec_DeliverAppend_safe:
  assumes "safe_inv n s" "k < length (append_reqs s)" "exec_DeliverAppend s (append_reqs s ! k) = Inr s'"
  shows "safe_inv n s'"
proof -
  obtain i d args where m: "append_reqs s ! k = (i, d, args)" by (metis surj_pair)
  note lt = net_inv_nth(2) [OF safe_invD(2) [OF assms(1)] assms(2) m]
  from assms(3) obtain rf r eff where ae: "AppendEntries (nodes s ! d) args = Inr (rf, r, eff)"
    and s': "s' = (set_node s d rf)\<lparr>append_replies := append_replies s @ [(i, d, args, r)]\<rparr>"
    by (auto simp: exec_DeliverAppend_def m)
  note nd = nodes_invD [OF safe_invD(1) [OF assms(1)], of d]
  show ?thesis
    using AppendEntries_ok [OF _ ae] AppendEntries_lead [OF ae] nd lt safe_invD(2) [OF assms(1)]
    by (intro safe_inv_update [OF assms(1), of d rf]) (auto simp: s' net_inv_def)
qed

lemma exec_AppendReply_safe:
  assumes "safe_inv n s" "k < length (append_replies s)" "exec_AppendReply s (append_replies s ! k) = Inr s'"
  shows "safe_inv n s'"
proof -
  obtain i d args r where m: "append_replies s ! k = (i, d, args, r)" by (metis surj_pair)
  note lt = net_inv_nth(3) [OF safe_invD(2) [OF assms(1)] assms(2) m]
  from assms(3) obtain rf eff where op: "onAppendEntriesReply (nodes s ! i) (int d) args r = Inr (rf, eff)"
    and s': "s' = set_node s i rf"
    by (auto simp: exec_AppendReply_def m)
  note nd = nodes_invD [OF safe_invD(1) [OF assms(1)], of i]
  show ?thesis
    using onAppendEntriesReply_ok [OF _ op] onAppendEntriesReply_lead [OF op] nd lt safe_invD(2) [OF assms(1)]
    by (intro safe_inv_update [OF assms(1), of i rf]) (auto simp: s')
qed

lemma exec_DeliverInstall_safe:
  assumes "safe_inv n s" "k < length (install_reqs s)"
  shows "safe_inv n (exec_DeliverInstall s (install_reqs s ! k))"
proof -
  obtain i d args where m: "install_reqs s ! k = (i, d, args)" by (metis surj_pair)
  note lt = net_inv_nth(4) [OF safe_invD(2) [OF assms(1)] assms(2) m]
  obtain rf r eff where op: "InstallSnapshot (nodes s ! d) args = (rf, r, eff)" by (metis surj_pair)
  note nd = nodes_invD [OF safe_invD(1) [OF assms(1)], of d]
  have "\<forall>(x, m) \<in> set (snapshot_messages d eff). x = d"
    by (auto simp: snapshot_messages_def map_filter_def split: effect.splits)
  then show ?thesis
    using InstallSnapshot_ok [OF _ op] InstallSnapshot_lead [OF op] nd lt safe_invD(2) [OF assms(1)]
    by (intro safe_inv_update [OF assms(1), of d rf])
      (auto simp: exec_DeliverInstall_def m op net_inv_def)
qed

lemma exec_InstallReply_safe:
  assumes "safe_inv n s" "k < length (install_replies s)"
    "exec_InstallReply s (install_replies s ! k) = Inr s'"
  shows "safe_inv n s'"
proof -
  obtain i d args r where m: "install_replies s ! k = (i, d, args, r)" by (metis surj_pair)
  note lt = net_inv_nth(5) [OF safe_invD(2) [OF assms(1)] assms(2) m]
  from assms(3) obtain rf where op: "onInstallSnapshotReply (nodes s ! i) (int d) args r = Inr rf"
    and s': "s' = set_node s i rf"
    by (auto simp: exec_InstallReply_def m)
  note nd = nodes_invD [OF safe_invD(1) [OF assms(1)], of i]
  show ?thesis
    using onInstallSnapshotReply_ok [OF _ op] onInstallSnapshotReply_lead [OF op] nd lt
      safe_invD(2) [OF assms(1)]
    by (intro safe_inv_update [OF assms(1), of i rf]) (auto simp: s')
qed

lemma exec_ApplySnapshot_safe:
  assumes "safe_inv n s" "k < length (snap_msgs s)" "exec_ApplySnapshot s (snap_msgs s ! k) = Inr s'"
  shows "safe_inv n s'"
proof -
  obtain d m where m: "snap_msgs s ! k = (d, m)" by (metis surj_pair)
  note lt = net_inv_nth(6) [OF safe_invD(2) [OF assms(1)] assms(2) m]
  from assms(3) obtain rf ok ap where
    op: "CondInstallSnapshot (nodes s ! d) (SnapshotTerm m) (SnapshotIndex m) (am_Snapshot m) = Inr (rf, ok)"
    and s': "s' = (set_node s d rf)\<lparr>applied := ap\<rparr>"
    by (auto simp: exec_ApplySnapshot_def m)
  note nd = nodes_invD [OF safe_invD(1) [OF assms(1)], of d]
  show ?thesis
    using CondInstallSnapshot_ok [OF _ op] CondInstallSnapshot_lead [OF op] nd lt safe_invD(2) [OF assms(1)]
    by (intro safe_inv_update [OF assms(1), of d rf]) (auto simp: s' net_inv_def)
qed

lemma exec_TakeSnapshot_safe:
  assumes "safe_inv n s" "i < n" "exec_TakeSnapshot s i idx snap = Inr s'"
  shows "safe_inv n s'"
proof (cases "idx \<le> commitIndex (nodes s ! i)")
  case True
  with assms(3) obtain rf where op: "Snapshot (nodes s ! i) idx snap = Inr rf" and s': "s' = set_node s i rf"
    by (auto simp: exec_TakeSnapshot_def)
  note nd = nodes_invD [OF safe_invD(1) [OF assms(1)] assms(2)]
  show ?thesis
    using Snapshot_ok [OF nd(1) op True] Snapshot_lead [OF op] safe_invD(2) [OF assms(1)]
    by (intro safe_inv_update [OF assms(1,2), of rf]) (auto simp: s')
qed (use assms in \<open>auto simp: exec_TakeSnapshot_def\<close>)

lemma exec_Apply_safe:
  assumes "safe_inv n s" "i < n" "exec_Apply s i = Inr s'"
  shows "safe_inv n s'"
proof -
  from assms(3) consider "s' = s"
    | ci ap where "s' = (set_node s i (applier_done (nodes s ! i) ci))\<lparr>applied := ap\<rparr>"
    by (auto simp: exec_Apply_def split: option.splits)
  then show ?thesis
  proof cases
    case (2 ci ap)
    note nd = nodes_invD [OF safe_invD(1) [OF assms(1)] assms(2)]
    show ?thesis
      using applier_done_ok [OF nd(1)] applier_done_lead safe_invD(2) [OF assms(1)]
      by (intro safe_inv_update [OF assms(1,2), of "applier_done (nodes s ! i) ci"])
        (auto simp: 2 net_inv_def)
  qed (use assms in simp)
qed

lemma Persister_Copy_id [simp]: "Persister_Copy ps = ps"
  by (simp add: Persister_Copy_def MakePersister_def)

lemma exec_Restart_safe:
  assumes "safe_inv n s" "i < n" "exec_Restart s i = Inr s'"
  shows "safe_inv n s'"
proof -
  let ?rf = "nodes s ! i"
  from assms(3) obtain rf where op: "Make (peers ?rf) (me ?rf) (persister ?rf) = Inr rf"
    and s': "s' = (set_node s i rf)\<lparr>elections := filter (\<lambda>(c, el). c \<noteq> i) (elections s)\<rparr>"
    by (auto simp: exec_Restart_def Let_def)
  note nd = nodes_invD [OF safe_invD(1) [OF assms(1)] assms(2)]
  have "state rf = Follower"
    using Make_durable [of ?rf] op nd(1) by (auto simp: node_ok_def)
  then show ?thesis
    using Make_ok [OF nd(1) op] safe_invD(2) [OF assms(1)]
    by (intro safe_inv_update [OF assms(1,2), of rf]) (auto simp: s' net_inv_def)
qed

text \<open>The events of an election.\<close>

lemma votes_inv_cast:
  assumes "votes_inv n s" "v < n" "0 \<le> votedFor (nodes s ! v)"
    "\<And>c. (currentTerm (nodes s ! v), c, v) \<in> set (votes s) \<Longrightarrow> c = votedFor (nodes s ! v)"
    "nodes s' = nodes s" "votes s' = (currentTerm (nodes s ! v), votedFor (nodes s ! v), v) # votes s"
    "\<forall>(w, args, r) \<in> set (vote_replies s'). rvr_VoteGranted r \<longrightarrow>
        (rv_Term args, rv_CandidateId args, w) \<in> set (votes s')"
  shows "votes_inv n s'"
  unfolding votes_inv_def
proof (intro conjI)
  show "\<forall>t c d w. (t, c, w) \<in> set (votes s') \<longrightarrow> (t, d, w) \<in> set (votes s') \<longrightarrow> c = d"
    using votes_invD(4) [OF assms(1)] assms(4) by (auto simp: assms(6))
qed (use assms in \<open>auto simp: votes_inv_def\<close>)

lemma ticker_election_spec:
  assumes "logs rf \<noteq> []" "ticker_election rf = Inr (rf', el, eff)"
  shows "currentTerm rf' = currentTerm rf + 1" "votedFor rf' = me rf" "state rf' = Candidate"
    "logs rf' = logs rf" "el = \<lparr>el_args = \<lparr>rv_Term = currentTerm rf + 1, rv_CandidateId = me rf,
        rv_LastLogIndex = Index (last (logs rf)), rv_LastLogTerm = Term (last (logs rf))\<rparr>,
      grantedVotes = 1, el_pending = other_peers rf\<rparr>"
    "eff = map (\<lambda>p. GoRequestVote p (el_args el)) (other_peers rf)"
  using assms
  by (auto simp: ticker_election_def StartElection_def genRequestVoteArgs_def Let_def other_peers_def)

lemma set_vote_requests:
  "set (vote_requests (map (\<lambda>p. GoRequestVote p args) ps)) = (\<lambda>p. (nat p, args)) ` set ps"
  by (induction ps) (auto simp: vote_requests_def map_filter_def)

lemma exec_Timeout_safe:
  assumes "safe_inv n s" "i < n" "exec_Timeout s i = Inr s'"
  shows "safe_inv n s'"
proof -
  let ?rf = "nodes s ! i"
  note inv = safe_invD [OF assms(1)]
  note nd = nodes_invD [OF inv(1) assms(2)]
  from assms(3) obtain rf el eff where op: "ticker_election ?rf = Inr (rf, el, eff)"
    and s': "s' = (set_node s i rf)\<lparr>elections := (i, el) # elections s,
              vote_reqs := vote_reqs s @ vote_requests eff,
              votes := (currentTerm rf, votedFor rf, i) # votes s\<rparr>"
    by (auto simp: exec_Timeout_def)
  note sp = ticker_election_spec [OF nd(6) op]
  note ok = ticker_election_ok [OF nd(1) op]
  have op_peers: "set (other_peers ?rf) \<subseteq> int ` {..<n} - {int i}"
    using nd(2,3) by (auto simp: other_peers_def)
  have old: "t \<le> currentTerm ?rf" if "(t, c, i) \<in> set (votes s)" for t c
    using votes_invD(3) [OF inv(3) that] by auto
  have "nodes_inv n s'"
    by (rule nodes_inv_update [OF inv(1) assms(2) ok]) (simp add: s')
  moreover have "net_inv n s'"
    using inv(2) op_peers assms(2) nd(2)
    by (auto simp: s' net_inv_def sp(5,6) set_vote_requests)
  moreover have "votes_inv n s'"
  proof (rule votes_inv_cast [OF votes_inv_update [OF inv(3,1) assms(2) ok(2), of "set_node s i rf"] assms(2)])
    show "c = votedFor (nodes (set_node s i rf) ! i)"
      if "(currentTerm (nodes (set_node s i rf) ! i), c, i) \<in> set (votes (set_node s i rf))" for c
      using that old [of "currentTerm rf" c] sp(1) assms(2) inv(6) by simp
    show "\<forall>(w, args, r) \<in> set (vote_replies s'). rvr_VoteGranted r \<longrightarrow>
        (rv_Term args, rv_CandidateId args, w) \<in> set (votes s')"
      using inv(3) by (auto simp: s' votes_inv_def)
  qed (use assms(2) inv(6) sp(2) nd(2) in \<open>simp_all add: s'\<close>)
  moreover have "election_inv n s' (i, el)"
    unfolding election_inv_def prod.case
    using assms(2) op_peers nd(2) sp(1,2) by (intro conjI exI [of _ "{i}"]) (auto simp: s' sp(5))
  then have "\<forall>ce \<in> set (elections s'). election_inv n s' ce"
    using election_inv_votes [of s s' n] inv(5) by (auto simp: s')
  moreover have "leaders_inv n s'"
  proof -
    have "leaders_inv n (set_node s i rf)"
      by (rule leaders_inv_update [OF inv(4,1) assms(2)]) (simp_all add: keeps_lead_def sp(3))
    then show ?thesis by (rule leaders_inv_mono) (auto simp: s')
  qed
  ultimately show ?thesis by (simp add: safe_inv_def)
qed

lemma exec_DeliverVote_safe:
  assumes "safe_inv n s" "k < length (vote_reqs s)" "exec_DeliverVote s (vote_reqs s ! k) = Inr s'"
  shows "safe_inv n s'"
proof -
  note inv = safe_invD [OF assms(1)]
  obtain d args where m: "vote_reqs s ! k = (d, args)" by (metis surj_pair)
  note lt = net_inv_nth(1) [OF inv(2) assms(2) m]
  note nd = nodes_invD [OF inv(1) conjunct1 [OF lt]]
  from assms(3) obtain rf r where op: "RequestVote (nodes s ! d) args = Inr (rf, r)"
    and s': "s' = (set_node s d rf)\<lparr>vote_replies := vote_replies s @ [(d, args, r)],
                 votes := (if rvr_VoteGranted r then (currentTerm rf, votedFor rf, d) # votes s
                           else votes s)\<rparr>"
    by (auto simp: exec_DeliverVote_def m)
  note ok = RequestVote_ok [OF nd(1) op conjunct2 [OF lt]]
  have base: "votes_inv n (set_node s d rf)" "leaders_inv n (set_node s d rf)"
    using votes_inv_update [OF inv(3,1) conjunct1 [OF lt] ok(2), of "set_node s d rf"]
      leaders_inv_update [OF inv(4,1) conjunct1 [OF lt] RequestVote_lead [OF op nd(6)], of "set_node s d rf"]
    by auto
  have "nodes_inv n s'"
    by (rule nodes_inv_update [OF inv(1) conjunct1 [OF lt] ok]) (simp add: s')
  moreover have "net_inv n s'"
    using inv(2) by (simp add: s' net_inv_def)
  moreover have "votes_inv n s'"
    using op nd(6)
  proof (cases rule: RequestVote_elim)
    case granted
    have rf: "currentTerm rf = rv_Term args" "votedFor rf = rv_CandidateId args"
      using granted(1,3) by auto
    have "c = rv_CandidateId args" if "(rv_Term args, c, d) \<in> set (votes s)" for c
      using votes_invD(2,3) [OF inv(3) that] granted(1,2) by auto
    with lt rf granted(5) inv(3,6) show ?thesis
      by (intro votes_inv_cast [OF base(1) conjunct1 [OF lt]]) (auto simp: s' votes_inv_def)
  qed (use base(1) in \<open>auto simp: s' votes_inv_def\<close>)
  moreover have sub: "set (votes s) \<subseteq> set (votes s')" by (auto simp: s')
  then have "\<forall>ce \<in> set (elections s'). election_inv n s' ce"
    using election_inv_votes [OF sub, of n] inv(5) by (simp add: s')
  moreover have "leaders_inv n s'"
    by (rule leaders_inv_mono [OF base(2)]) (use sub in \<open>auto simp: s'\<close>)
  ultimately show ?thesis by (simp add: safe_inv_def)
qed

lemma onRequestVoteReply_elim [consumes 1]:
  assumes "onRequestVoteReply rf el r = (rf', el', eff)"
  obtains (ignore) "rf' = rf" "el' = el"
  | (count) "rf' = rf" "el' = el\<lparr>grantedVotes := grantedVotes el + 1\<rparr>" "rvr_VoteGranted r"
  | (win) "rv_Term (el_args el) = currentTerm rf" "state rf = Candidate" "rvr_VoteGranted r"
      "int (peers rf) div 2 < grantedVotes el + 1" "rf' = ChangeState rf Leader"
      "el' = el\<lparr>grantedVotes := grantedVotes el + 1\<rparr>"
  | (down) "currentTerm rf < rvr_Term r" "el' = el" "rf' = step_down rf (rvr_Term r)"
proof -
  from assms have "rf' = rf \<and> el' = el \<or>
      rf' = rf \<and> el' = el\<lparr>grantedVotes := grantedVotes el + 1\<rparr> \<and> rvr_VoteGranted r \<or>
      rv_Term (el_args el) = currentTerm rf \<and> state rf = Candidate \<and> rvr_VoteGranted r \<and>
        int (peers rf) div 2 < grantedVotes el + 1 \<and> rf' = ChangeState rf Leader \<and>
        el' = el\<lparr>grantedVotes := grantedVotes el + 1\<rparr> \<or>
      currentTerm rf < rvr_Term r \<and> el' = el \<and> rf' = step_down rf (rvr_Term r)"
    by (simp add: onRequestVoteReply_def Let_def step_down_def split: if_splits; fast)
  then show ?thesis by (elim disjE conjE) (rule that; assumption)+
qed

text \<open>The election after the reply of peer \<open>v\<close> has been handled.\<close>

lemma election_inv_reply:
  assumes "election_inv n s (c, el)" "votes_inv n s" "int v \<in> set (el_pending el)"
    "(v, el_args el, r) \<in> set (vote_replies s)" "el_args el' = el_args el" "el_pending el' = el_pending el"
    "grantedVotes el' = grantedVotes el \<or> rvr_VoteGranted r \<and> grantedVotes el' = grantedVotes el + 1"
  shows "election_inv n s (c, el'\<lparr>el_pending := filter (\<lambda>p. p \<noteq> int v) (el_pending el')\<rparr>)"
proof -
  from assms(1) obtain V where V: "c < n" "rv_CandidateId (el_args el) = int c" "V \<subseteq> {..<n}"
    "int (card V) = grantedVotes el"
    "\<And>w. w \<in> V \<Longrightarrow> int w \<notin> set (el_pending el) \<and> (rv_Term (el_args el), int c, w) \<in> set (votes s)"
    unfolding election_inv_def by auto
  have v: "rvr_VoteGranted r \<Longrightarrow> (rv_Term (el_args el), int c, v) \<in> set (votes s)"
    using votes_invD(5) [OF assms(2,4)] V(2) by simp
  have "v \<notin> V" using V(5) assms(3) by blast
  then have card: "int (card (insert v V)) = grantedVotes el + 1"
    using V(3,4) finite_subset [OF V(3)] by simp
  from assms(7) show ?thesis
  proof (elim disjE conjE)
    assume "grantedVotes el' = grantedVotes el"
    with V assms(5,6) show ?thesis
      unfolding election_inv_def prod.case by (intro conjI exI [of _ V]) auto
  next
    assume "rvr_VoteGranted r" "grantedVotes el' = grantedVotes el + 1"
    with V assms(5,6) card v votes_invD(1) [OF assms(2), of "rv_Term (el_args el)" "int c" v] show ?thesis
      unfolding election_inv_def prod.case by (intro conjI exI [of _ "insert v V"]) auto
  qed
qed

lemma exec_VoteReply_safe:
  assumes "safe_inv n s" "m \<in> set (vote_replies s)" "j < length (elections s)"
  shows "safe_inv n (exec_VoteReply s m j)"
proof -
  note inv = safe_invD [OF assms(1)]
  obtain v args r where m: "m = (v, args, r)" by (metis surj_pair)
  obtain c el where e: "elections s ! j = (c, el)" by (metis surj_pair)
  have ei: "election_inv n s (c, el)" using inv(5) nth_mem [OF assms(3)] e by metis
  then have c: "c < n" by (simp add: election_inv_def)
  note nd = nodes_invD [OF inv(1) c]
  obtain rf' el' eff where op: "onRequestVoteReply (nodes s ! c) el r = (rf', el', eff)" by (metis surj_pair)
  note ok = onRequestVoteReply_ok [OF nd(1) op]
  show ?thesis
  proof (cases "args = el_args el \<and> int v \<in> set (el_pending el)")
    case False
    then have "exec_VoteReply s m j = s" by (simp add: exec_VoteReply_def m e) auto
    with assms(1) show ?thesis by simp
  next
    case True
    let ?el = "el'\<lparr>el_pending := filter (\<lambda>p. p \<noteq> int v) (el_pending el')\<rparr>"
    let ?won = "state (nodes s ! c) \<noteq> Leader \<and> state rf' = Leader"
    let ?s = "exec_VoteReply s m j"
    have s': "?s = (set_node s c rf')\<lparr>elections := (elections s)[j := (c, ?el)],
        elected := (if ?won then (currentTerm rf', c) # elected s else elected s),
        tlog := (if ?won then (tlog s)(currentTerm rf' := logs rf') else tlog s)\<rparr>"
      using True by (simp add: exec_VoteReply_def m e op Let_def)
    have r: "(v, el_args el, r) \<in> set (vote_replies s)" using assms(2) True m by simp
    have new: "election_inv n s (c, ?el)"
      by (rule election_inv_reply [OF ei inv(3) conjunct2 [OF True] r];
          use op in \<open>cases rule: onRequestVoteReply_elim\<close>) simp_all
    have "nodes_inv n ?s"
      by (rule nodes_inv_update [OF inv(1) c ok]) (simp add: s')
    moreover have "net_inv n ?s" using inv(2) by (simp add: s' net_inv_def)
    moreover have "votes_inv n ?s"
      by (rule votes_inv_update [OF inv(3,1) c ok(2)]) (simp_all add: s')
    moreover have "\<forall>ce \<in> set (elections ?s). election_inv n ?s ce"
      using set_update_subset_insert [of "elections s" j "(c, ?el)"] new inv(5)
        election_inv_votes [of s ?s n] by (auto simp: s')
    moreover have "leaders_inv n ?s"
      using op
    proof (cases rule: onRequestVoteReply_elim)
      case win
      from new win(6) obtain V where V: "V \<subseteq> {..<n}" "int (card V) = grantedVotes el + 1"
        "\<And>w. w \<in> V \<Longrightarrow> (rv_Term (el_args el), int c, w) \<in> set (votes s)"
        unfolding election_inv_def by auto
      then have "majority n V" using win(4) nd(3) by (simp add: majority_def)
      with V(3) win(1) have "\<exists>V. majority n V \<and> (\<forall>w \<in> V. (currentTerm rf', int c, w) \<in> set (votes s))"
        by (auto simp: win(5))
      moreover have "?won" by (simp add: win)
      ultimately show ?thesis
        using inv(4,6) c by (auto simp: s' leaders_inv_def nth_list_update)
    qed (use leaders_inv_update [OF inv(4,1) c, of rf' ?s] in \<open>auto simp: s' keeps_lead_def\<close>)
    ultimately show ?thesis by (simp add: safe_inv_def)
  qed
qed

section \<open>Election safety\<close>

lemma init_cluster_safe:
  assumes "init_cluster n = Inr s"
  shows "safe_inv n s" "\<And>i. i < n \<Longrightarrow> logs (nodes s ! i) = [zero_entry] \<and> state (nodes s ! i) = Follower"
    "snap_msgs s = []" "append_reqs s = []" "elected s = []" "tlog s = (\<lambda>_. [])" "applied s = []"
proof -
  from assms obtain ns where ns: "length ns = n" "\<And>i. i < n \<Longrightarrow> Make n (int i) MakePersister = Inr (ns ! i)"
    and s: "s = \<lparr>nodes = ns, elections = [], vote_reqs = [], vote_replies = [], append_reqs = [],
            append_replies = [], install_reqs = [], install_replies = [], snap_msgs = [],
            votes = [], elected = [], tlog = (\<lambda>_. []), applied = []\<rparr>"
    by (auto simp: init_cluster_def mapR_eq_Inr_iff)
  have nd: "node_ok (ns ! i) \<and> me (ns ! i) = int i \<and> peers (ns ! i) = n \<and> state (ns ! i) = Follower \<and>
      logs (ns ! i) = [zero_entry]" if "i < n" for i
    using Make_fresh [of "int i" n] ns(2) [OF that] that by (metis Inr_inject of_nat_0_le_iff of_nat_less_iff)
  then show "safe_inv n s"
    using ns(1) by (simp add: s safe_inv_def nodes_inv_def net_inv_def votes_inv_def leaders_inv_def)
  show "logs (nodes s ! i) = [zero_entry] \<and> state (nodes s ! i) = Follower" if "i < n" for i
    using nd [OF that] by (simp add: s)
qed (use assms in \<open>auto simp: init_cluster_def\<close>)

lemmas exec_safe_intros = exec_Timeout_safe exec_Heartbeat_safe exec_DeliverVote_safe
  exec_VoteReply_safe exec_ClientStart_safe exec_Replicate_safe exec_DeliverAppend_safe
  exec_AppendReply_safe exec_DeliverInstall_safe exec_InstallReply_safe exec_ApplySnapshot_safe
  exec_TakeSnapshot_safe exec_Apply_safe exec_Restart_safe

lemma exec_safe: "safe_inv n s \<Longrightarrow> exec s e = Inr s' \<Longrightarrow> safe_inv n s'"
  unfolding exec_def Let_def
  by (cases e) (auto split: if_splits intro: exec_safe_intros simp: safe_invD(6))

lemma reach_safe: "reach P n s \<Longrightarrow> safe_inv n s"
  by (induction rule: reach.induct) (auto intro: init_cluster_safe exec_safe)

lemma elected_unique:
  assumes "safe_inv n s" "(t, c) \<in> set (elected s)" "(t, d) \<in> set (elected s)"
  shows "c = d"
proof -
  from safe_invD(4) [OF assms(1)] assms(2,3) obtain A B where
    AB: "majority n A" "majority n B" "\<forall>v\<in>A. (t, int c, v) \<in> set (votes s)"
    "\<forall>v\<in>B. (t, int d, v) \<in> set (votes s)"
    unfolding leaders_inv_def by blast
  from maj.one_winner [where voted = "\<lambda>v x. (t, x, v) \<in> set (votes s)", OF AB]
    votes_invD(4) [OF safe_invD(3) [OF assms(1)]]
  show ?thesis by (metis of_nat_eq_iff)
qed

text \<open>
  C1. Election safety: in every state that the group can reach, by any sequence of timeouts,
  deliveries, losses, client requests, snapshots, crashes and restarts, at most one node has ever won
  the election of a given term, so two nodes that are leaders of the same term are the same node.
\<close>

theorem election_safety:
  assumes "reach P n s"
  shows "(\<forall>t c d. (t, c) \<in> set (elected s) \<and> (t, d) \<in> set (elected s) \<longrightarrow> c = d) \<and>
    (\<forall>i < n. \<forall>j < n. state (nodes s ! i) = Leader \<and> state (nodes s ! j) = Leader \<and>
       currentTerm (nodes s ! i) = currentTerm (nodes s ! j) \<longrightarrow> i = j)"
proof -
  note inv = reach_safe [OF assms]
  have "(currentTerm (nodes s ! i), i) \<in> set (elected s)" if "i < n" "state (nodes s ! i) = Leader" for i
    using safe_invD(4) [OF inv] that by (simp add: leaders_inv_def)
  with elected_unique [OF inv] show ?thesis by metis
qed

lemma elect_trace_leader:
  "case run 3 elect_trace of Inl _ \<Rightarrow> False | Inr s \<Rightarrow> state (nodes s ! 0) = Leader \<and> currentTerm (nodes s ! 0) = 1"
  by code_simp

theorem election_safety_witness:
  "\<exists>s. run 3 elect_trace = Inr s \<and> state (nodes s ! 0) = Leader \<and>
     (\<forall>j < 3. state (nodes s ! j) = Leader \<and> currentTerm (nodes s ! j) = 1 \<longrightarrow> j = 0)"
proof -
  obtain s where run: "run 3 elect_trace = Inr s" using elect_trace_leader by (auto split: sum.splits)
  note l = elect_trace_leader [unfolded run sum.case]
  have "reach (\<lambda>_. True) 3 s" by (rule run_reach [OF run]) (simp add: list_all_def)
  from conjunct2 [OF election_safety [OF this]] l run show ?thesis
    by (intro exI [of _ s]) (metis zero_less_numeral)
qed

end
