(* ===== verification/Raft_Matching.thy ===== *)
theory Raft_Matching
  imports Raft_Election
begin

text \<open>
  Log matching. In an execution without calls of \<^verbatim>\<open>Snapshot\<close>, any two logs that hold an entry of the
  same term at the same index are equal up to that index. The history component \<open>tlog\<close> (the log of the
  leader of each term) is the reference: every log is made of prefixes of it. With snapshots the
  property is lost, because \<^verbatim>\<open>CondInstallSnapshot\<close> keeps the tail of a log without checking that the
  entry at the snapshot index has the term of the snapshot (\<open>CondInstallSnapshot_correct\<close>).
\<close>

section \<open>Logs made of prefixes of leader logs\<close>

definition chained :: "(int \<Rightarrow> 'c LogEntry list) \<Rightarrow> 'c LogEntry list \<Rightarrow> bool" where
  "chained tm l \<longleftrightarrow> l \<noteq> [] \<and> hd l = zero_entry \<and>
     (\<forall>k. 0 < k \<and> k < length l \<longrightarrow> take (Suc k) l = take (Suc k) (tm (Term (l ! k))))"

definition grows :: "(int \<Rightarrow> 'c LogEntry list) \<Rightarrow> (int \<Rightarrow> 'c LogEntry list) \<Rightarrow> bool" where
  "grows tm tm' \<longleftrightarrow> (\<forall>t. \<exists>xs. tm' t = tm t @ xs)"

lemma grows_refl [simp]: "grows tm tm"
  by (simp add: grows_def)

lemma grows_upd: "grows tm (tm(t := tm t @ xs))"
  by (simp add: grows_def)

lemma chained_grows:
  assumes "chained tm l" "grows tm tm'"
  shows "chained tm' l"
  unfolding chained_def
proof (intro conjI allI impI)
  fix k assume k: "0 < k \<and> k < length l"
  then have eq: "take (Suc k) l = take (Suc k) (tm (Term (l ! k)))"
    using assms(1) by (simp add: chained_def)
  from arg_cong [OF this, of length] k have "Suc k \<le> length (tm (Term (l ! k)))" by simp
  moreover obtain xs where "tm' (Term (l ! k)) = tm (Term (l ! k)) @ xs"
    using assms(2) by (auto simp: grows_def)
  ultimately show "take (Suc k) l = take (Suc k) (tm' (Term (l ! k)))" using eq by simp
qed (use assms(1) in \<open>auto simp: chained_def\<close>)

lemma chained_agree:
  assumes "chained tm l" "chained tm l'" "k < length l" "k < length l'" "Term (l ! k) = Term (l' ! k)"
  shows "take (Suc k) l = take (Suc k) l'"
proof (cases "k = 0")
  case True
  with assms show ?thesis by (cases l; cases l') (auto simp: chained_def)
next
  case False
  with assms show ?thesis by (auto simp: chained_def)
qed

lemma chained_take:
  assumes "chained tm l" "0 < m"
  shows "chained tm (take m l)"
proof -
  have "take (Suc k) (take m l) = take (Suc k) l" if "k < m" for k
    using that by (simp add: min_def)
  with assms show ?thesis by (auto simp: chained_def hd_take)
qed

lemma chained_snoc:
  assumes "chained tm l" "tm (Term e) = l @ [e]"
  shows "chained tm (l @ [e])"
  using assms by (auto simp: chained_def nth_append less_Suc_eq)

text \<open>The splice of a segment of a leader log onto a log that agrees with it at the junction.\<close>

lemma chained_merge:
  assumes l: "chained tm l" and T: "chained tm T"
    and p: "p < length l" "p < length T" "Term (l ! p) = Term (T ! p)"
    and es: "es = drop (Suc p) (take m T)"
  shows "chained tm (merge_log l (Suc p) es)"
proof -
  have len: "length es = min m (length T) - Suc p" by (simp add: es)
  have nth: "es ! j = T ! (Suc p + j)" if "j < length es" for j
    using that unfolding es by (subst nth_drop) auto
  have agree: "take (Suc p + j) l = take (Suc p + j) T"
    if j: "j < length es" "Suc p + j \<le> length l" "\<forall>i<j. Term (l ! (Suc p + i)) = Term (es ! i)" for j
  proof (cases j)
    case 0
    then show ?thesis using chained_agree [OF l T p] by simp
  next
    case (Suc i)
    with j nth [of i] have "Term (l ! (Suc p + i)) = Term (T ! (Suc p + i))" by auto
    moreover have "Suc p + i < length l" "Suc p + i < length T" using Suc j len by auto
    ultimately show ?thesis using chained_agree [OF l T, of "Suc p + i"] Suc by simp
  qed
  from merge_log_cases [OF Suc_leI [OF p(1)], of es] show ?thesis
  proof (elim disjE exE conjE)
    assume "merge_log l (Suc p) es = l"
    then show ?thesis using l by simp
  next
    fix j assume j: "j < length es" and eq: "merge_log l (Suc p) es = take (Suc p + j) l @ drop j es"
      and rest: "Suc p + j \<le> length l" "\<forall>i<j. Term (l ! (Suc p + i)) = Term (es ! i)"
    have "merge_log l (Suc p) es = take (Suc p + j) T @ drop (Suc p + j) (take m T)"
      using agree [OF j rest] eq by (simp add: es add.commute)
    also have "\<dots> = take m T"
    proof -
      have "take (Suc p + j) T = take (Suc p + j) (take m T)" using j len by simp
      then show ?thesis by (metis append_take_drop_id)
    qed
    finally show ?thesis using chained_take [OF T, of m] j len by auto
  qed
qed

section \<open>What the operations do to the log\<close>

definition keeps_cand :: "'c Raft \<Rightarrow> 'c Raft \<Rightarrow> bool" where
  "keeps_cand rf rf' \<longleftrightarrow>
     (state rf' = Candidate \<longrightarrow> state rf = Candidate \<or> currentTerm rf < currentTerm rf')"

definition keeps_log :: "'c Raft \<Rightarrow> 'c Raft \<Rightarrow> bool" where
  "keeps_log rf rf' \<longleftrightarrow> logs rf' = logs rf \<and> keeps_lead rf rf' \<and> keeps_cand rf rf'"

lemma keeps_cand_refl [simp]: "keeps_cand rf rf"
  by (simp add: keeps_cand_def)

lemma keeps_cand_Follower [simp]: "state rf' = Follower \<Longrightarrow> keeps_cand rf rf'"
  by (simp add: keeps_cand_def)

lemma keeps_log_refl [simp]: "keeps_log rf rf"
  by (simp add: keeps_log_def)

lemma RequestVote_log:
  assumes "RequestVote rf args = Inr (rf', r)" "logs rf \<noteq> []"
  shows "keeps_log rf rf'"
  using assms by (cases rule: RequestVote_elim) (auto simp: keeps_log_def keeps_cand_def keeps_lead_def)

lemma InstallSnapshot_log: "InstallSnapshot rf args = (rf', r, eff) \<Longrightarrow> keeps_log rf rf'"
  by (auto simp: InstallSnapshot_def Let_def keeps_log_def split: if_splits)

lemma ticker_heartbeat_log: "keeps_log rf (fst (ticker_heartbeat rf))"
  by (auto simp: ticker_heartbeat_def Let_def keeps_log_def keeps_lead_def keeps_cand_def)

lemma onInstallSnapshotReply_log:
  "onInstallSnapshotReply rf peer args reply = Inr rf' \<Longrightarrow> keeps_log rf rf'"
  by (auto simp: onInstallSnapshotReply_def keeps_log_def keeps_lead_def keeps_cand_def split: if_splits)

lemma onAppendEntriesReply_log:
  "onAppendEntriesReply rf peer args reply = Inr (rf', eff) \<Longrightarrow> keeps_log rf rf'"
  by (auto simp: onAppendEntriesReply_def keeps_log_def keeps_lead_def keeps_cand_def
      split: if_splits option.splits dest: advanceCommitIndexForLeader_lead)

lemma applier_done_log: "keeps_log rf (applier_done rf ci)"
  by (simp add: applier_done_def keeps_log_def keeps_lead_def keeps_cand_def)

lemma ticker_election_log:
  assumes "ticker_election rf = Inr (rf', el, eff)" "logs rf \<noteq> []"
  shows "keeps_log rf rf'"
  using ticker_election_spec [OF assms(2,1)] by (simp add: keeps_log_def keeps_lead_def keeps_cand_def)

lemma Make_log:
  assumes "Make (peers rf) (me rf) (persister rf) = Inr rf'" "node_ok rf"
  shows "keeps_log rf rf'"
  using Make_durable [of rf] assms by (auto simp: node_ok_def keeps_log_def)

section \<open>The invariant\<close>

definition ae_segment :: "(int \<Rightarrow> 'c LogEntry list) \<Rightarrow> 'c AppendEntriesArgs \<Rightarrow> bool" where
  "ae_segment tm args \<longleftrightarrow>
     (let T = tm (ae_Term args); p = nat (ae_PrevLogIndex args)
      in 0 \<le> ae_PrevLogIndex args \<and> p < length T \<and> ae_PrevLogTerm args = Term (T ! p) \<and>
         (\<exists>m. ae_Entries args = drop (Suc p) (take m T)))"

definition match_inv :: "nat \<Rightarrow> 'c cluster \<Rightarrow> bool" where
  "match_inv n s \<longleftrightarrow>
     (\<forall>i < n. chained (tlog s) (logs (nodes s ! i))) \<and>
     (\<forall>i < n. state (nodes s ! i) = Leader \<longrightarrow> logs (nodes s ! i) = tlog s (currentTerm (nodes s ! i))) \<and>
     (\<forall>t. tlog s t \<noteq> [] \<longrightarrow> chained (tlog s) (tlog s t) \<and> t \<in> fst ` set (elected s)) \<and>
     (\<forall>(i, d, args) \<in> set (append_reqs s). ae_segment (tlog s) args) \<and>
     (\<forall>(i, d, args) \<in> set (install_reqs s). is_LastIncludedIndex args = 0) \<and>
     snap_msgs s = [] \<and>
     (\<forall>(t, c) \<in> set (elected s). c < n \<and>
        (t < currentTerm (nodes s ! c) \<or>
         t = currentTerm (nodes s ! c) \<and> state (nodes s ! c) \<noteq> Candidate))"

lemma match_invD:
  assumes "match_inv n s"
  shows "i < n \<Longrightarrow> chained (tlog s) (logs (nodes s ! i))"
    "i < n \<Longrightarrow> state (nodes s ! i) = Leader \<Longrightarrow> logs (nodes s ! i) = tlog s (currentTerm (nodes s ! i))"
    "tlog s t \<noteq> [] \<Longrightarrow> chained (tlog s) (tlog s t)" "tlog s t \<noteq> [] \<Longrightarrow> t \<in> fst ` set (elected s)"
    "(j, d, args) \<in> set (append_reqs s) \<Longrightarrow> ae_segment (tlog s) args"
    "(j, d, iargs) \<in> set (install_reqs s) \<Longrightarrow> is_LastIncludedIndex iargs = 0" "snap_msgs s = []"
    "(t, c) \<in> set (elected s) \<Longrightarrow> c < n \<and> (t < currentTerm (nodes s ! c) \<or>
         t = currentTerm (nodes s ! c) \<and> state (nodes s ! c) \<noteq> Candidate)"
  using assms unfolding match_inv_def by (fast | blast)+

lemma match_invI:
  assumes "\<forall>i < n. chained (tlog s) (logs (nodes s ! i))"
    "\<forall>i < n. state (nodes s ! i) = Leader \<longrightarrow> logs (nodes s ! i) = tlog s (currentTerm (nodes s ! i))"
    "\<forall>t. tlog s t \<noteq> [] \<longrightarrow> chained (tlog s) (tlog s t) \<and> t \<in> fst ` set (elected s)"
    "\<And>i d args. (i, d, args) \<in> set (append_reqs s) \<Longrightarrow> ae_segment (tlog s) args"
    "\<And>i d args. (i, d, args) \<in> set (install_reqs s) \<Longrightarrow> is_LastIncludedIndex args = 0" "snap_msgs s = []"
    "\<And>t c. (t, c) \<in> set (elected s) \<Longrightarrow> c < n \<and> (t < currentTerm (nodes s ! c) \<or>
         t = currentTerm (nodes s ! c) \<and> state (nodes s ! c) \<noteq> Candidate)"
  shows "match_inv n s"
  using assms unfolding match_inv_def by blast

lemma ae_segment_grows:
  assumes "ae_segment tm args" "grows tm tm'"
  shows "ae_segment tm' args"
proof -
  let ?T = "tm (ae_Term args)" let ?p = "nat (ae_PrevLogIndex args)"
  obtain xs where xs: "tm' (ae_Term args) = ?T @ xs" using assms(2) by (auto simp: grows_def)
  from assms(1) obtain m where m: "0 \<le> ae_PrevLogIndex args" "?p < length ?T"
    "ae_PrevLogTerm args = Term (?T ! ?p)" "ae_Entries args = drop (Suc ?p) (take m ?T)"
    by (auto simp: ae_segment_def Let_def)
  have "take (min m (length ?T)) (?T @ xs) = take m ?T" by (simp add: min_def)
  with m xs show ?thesis
    by (auto simp: ae_segment_def Let_def nth_append intro!: exI [of _ "min m (length ?T)"])
qed

text \<open>An event that keeps all logs, sends no entries and elects nobody.\<close>

lemma match_inv_update:
  assumes "match_inv n s" "nodes_inv n s" "i < n" "keeps_log (nodes s ! i) rf" "evolves (nodes s ! i) rf"
    "nodes s' = (nodes s)[i := rf]" "tlog s' = tlog s" "elected s' = elected s"
    "append_reqs s' = append_reqs s" "install_reqs s' = install_reqs s" "snap_msgs s' = snap_msgs s"
  shows "match_inv n s'"
proof -
  have nth: "nodes s' ! j = (if j = i then rf else nodes s ! j)" if "j < n" for j
    using assms(2,6) that by (auto simp: nodes_inv_def)
  have "c < n \<and> (t < currentTerm (nodes s' ! c) \<or>
      t = currentTerm (nodes s' ! c) \<and> state (nodes s' ! c) \<noteq> Candidate)" if "(t, c) \<in> set (elected s)" for t c
    using match_invD(8) [OF assms(1) that] assms(4,5)
    by (auto simp: nth keeps_log_def keeps_cand_def evolves_def)
  with assms(1,4) show ?thesis
    unfolding match_inv_def assms(7-11)
    by (auto simp: nth keeps_log_def keeps_lead_def)
qed

section \<open>Every event except Snapshot keeps it\<close>

lemma leader_elected:
  "safe_inv n s \<Longrightarrow> i < n \<Longrightarrow> state (nodes s ! i) = Leader \<Longrightarrow>
     (currentTerm (nodes s ! i), i) \<in> set (elected s)"
  by (drule safe_invD(4)) (simp add: leaders_inv_def)

lemma chained_first [simp]: "chained tm l \<Longrightarrow> first_index l = 0"
  by (simp add: chained_def zero_entry_def)

lemma Start_elim [consumes 1]:
  assumes "Start rf c = Inr (rf', (idx, t, ok), eff)"
  obtains (refused) "state rf \<noteq> Leader" "rf' = rf" "\<not> ok"
  | (accepted) "state rf = Leader" "ok" "t = currentTerm rf" "idx = Index (last (logs rf)) + 1"
      "logs rf' = logs rf @ [\<lparr>Command = c, Term = currentTerm rf, Index = idx\<rparr>]"
      "state rf' = Leader" "currentTerm rf' = currentTerm rf"
  using assms by (auto simp: Start_def Let_def op_elims split: if_splits)

text \<open>An event in which the leader of term \<open>t\<close> appears or extends its log.\<close>

lemma match_inv_lead:
  assumes "match_inv n s" "nodes_inv n s" "i < n" "nodes s' = (nodes s)[i := rf]"
    and tm: "tlog s' = (tlog s)(t := logs rf)" and ext: "\<exists>xs. logs rf = tlog s t @ xs"
    and new: "chained (tlog s') (logs rf)"
    and rf: "currentTerm rf = t" "state rf = Leader" "currentTerm (nodes s ! i) = t"
    and el: "set (elected s') = insert (t, i) (set (elected s))"
    and other: "\<And>j. j < n \<Longrightarrow> j \<noteq> i \<Longrightarrow> state (nodes s ! j) = Leader \<Longrightarrow> currentTerm (nodes s ! j) \<noteq> t"
    and rest: "append_reqs s' = append_reqs s" "install_reqs s' = install_reqs s" "snap_msgs s' = snap_msgs s"
  shows "match_inv n s'"
proof -
  note D = match_invD [OF assms(1)]
  have g: "grows (tlog s) (tlog s')" using ext grows_upd by (auto simp: tm grows_def)
  have nth: "nodes s' ! j = (if j = i then rf else nodes s ! j)" if "j < n" for j
    using assms(2,4) that by (auto simp: nodes_inv_def)
  show ?thesis
  proof (rule match_invI)
    show "\<forall>j < n. chained (tlog s') (logs (nodes s' ! j))"
      using new chained_grows [OF D(1) g] by (simp add: nth)
    show "\<forall>j < n. state (nodes s' ! j) = Leader \<longrightarrow> logs (nodes s' ! j) = tlog s' (currentTerm (nodes s' ! j))"
      using D(2) other rf by (auto simp: nth tm)
    show "\<forall>u. tlog s' u \<noteq> [] \<longrightarrow> chained (tlog s') (tlog s' u) \<and> u \<in> fst ` set (elected s')"
    proof (intro allI impI)
      fix u assume u: "tlog s' u \<noteq> []"
      show "chained (tlog s') (tlog s' u) \<and> u \<in> fst ` set (elected s')"
      proof (cases "u = t")
        case True
        with new show ?thesis by (simp add: el) (simp add: tm)
      next
        case False
        with u have "tlog s' u = tlog s u" "tlog s u \<noteq> []" by (simp_all add: tm)
        then show ?thesis using chained_grows [OF D(3) g] D(4) by (simp add: el)
      qed
    qed
    show "ae_segment (tlog s') args" if "(j, d, args) \<in> set (append_reqs s')" for j d args
      using ae_segment_grows [OF D(5) g] that unfolding rest .
    show "is_LastIncludedIndex args = 0" if "(j, d, args) \<in> set (install_reqs s')" for j d args
      using D(6) that unfolding rest .
    show "snap_msgs s' = []" using D(7) by (simp add: rest)
    show "c < n \<and> (u < currentTerm (nodes s' ! c) \<or>
         u = currentTerm (nodes s' ! c) \<and> state (nodes s' ! c) \<noteq> Candidate)" if "(u, c) \<in> set (elected s')" for u c
      using that D(8) [of u c] assms(3) rf by (auto simp: el nth split: if_splits)
  qed
qed

lemma exec_ClientStart_match:
  assumes "match_inv n s" "safe_inv n s" "i < n" "exec_ClientStart s i c = Inr s'"
  shows "match_inv n s'"
proof -
  note inv = safe_invD [OF assms(2)]
  from assms(4) obtain rf idx t ok eff where
    st: "Start (nodes s ! i) (Some c) = Inr (rf, (idx, t, ok), eff)"
    and s': "s' = (set_node s i rf)\<lparr>tlog := (if ok then (tlog s)(t := logs rf) else tlog s)\<rparr>"
    by (auto simp: exec_ClientStart_def)
  from st show ?thesis
  proof (cases rule: Start_elim)
    case refused
    then show ?thesis
      by (intro match_inv_update [OF assms(1) inv(1) assms(3), of rf]) (simp_all add: s')
  next
    case accepted
    let ?e = "\<lparr>Command = Some c, Term = currentTerm (nodes s ! i), Index = idx\<rparr>"
    have T: "logs rf = tlog s t @ [?e]" using match_invD(2) [OF assms(1,3)] accepted(1,3,5) by simp
    have tm: "tlog s' = (tlog s)(t := tlog s t @ [?e])" using accepted(2) T by (simp add: s')
    have g: "grows (tlog s) (tlog s')" unfolding tm by (rule grows_upd)
    have "chained (tlog s') (tlog s t @ [?e])"
      using chained_grows [OF match_invD(1) [OF assms(1,3)] g] match_invD(2) [OF assms(1,3)] accepted(1,3)
      by (intro chained_snoc) (simp_all add: tm)
    then have new: "chained (tlog s') (logs rf)" by (simp only: T)
    note led = leader_elected [OF assms(2)]
    show ?thesis
    proof (rule match_inv_lead [OF assms(1) inv(1) assms(3) _ _ _ new])
      show "currentTerm (nodes s ! j) \<noteq> t" if "j < n" "j \<noteq> i" "state (nodes s ! j) = Leader" for j
        using elected_unique [OF assms(2), of t i j] led [OF assms(3)] led [OF that(1)] that accepted(1,3)
        by metis
      show "set (elected s') = insert (t, i) (set (elected s))"
        using led [OF assms(3)] accepted(1,3) by (auto simp: s')
    qed (use accepted T in \<open>simp_all add: s'\<close>)
  qed
qed

lemma exec_VoteReply_match:
  assumes "match_inv n s" "safe_inv n s" "m \<in> set (vote_replies s)" "j < length (elections s)"
  shows "match_inv n (exec_VoteReply s m j)"
proof -
  note inv = safe_invD [OF assms(2)]
  obtain v args r where m: "m = (v, args, r)" by (metis surj_pair)
  obtain c el where e: "elections s ! j = (c, el)" by (metis surj_pair)
  have c: "c < n" using inv(5) [OF nth_mem [OF assms(4)]] e by (simp add: election_inv_def)
  note nd = nodes_invD [OF inv(1) c]
  obtain rf' el' eff where op: "onRequestVoteReply (nodes s ! c) el r = (rf', el', eff)" by (metis surj_pair)
  note ok = onRequestVoteReply_ok [OF nd(1) op]
  let ?s = "exec_VoteReply s m j"
  show ?thesis
  proof (cases "args = el_args el \<and> int v \<in> set (el_pending el)")
    case False
    then have "?s = s" by (simp add: exec_VoteReply_def m e) auto
    with assms(1) show ?thesis by simp
  next
    case True
    let ?won = "state (nodes s ! c) \<noteq> Leader \<and> state rf' = Leader"
    obtain els where s': "?s = (set_node s c rf')\<lparr>elections := els,
        elected := (if ?won then (currentTerm rf', c) # elected s else elected s),
        tlog := (if ?won then (tlog s)(currentTerm rf' := logs rf') else tlog s)\<rparr>"
      using True by (simp add: exec_VoteReply_def m e op Let_def)
    from op show ?thesis
    proof (cases rule: onRequestVoteReply_elim)
      case win
      let ?t = "currentTerm (nodes s ! c)"
      have won: "?won" by (simp add: win)
      have el': "elected ?s = (?t, c) # elected s" using won by (simp add: s' win)
      have no: "(?t, d) \<notin> set (elected s)" for d
      proof
        assume d: "(?t, d) \<in> set (elected s)"
        then have "d = c"
          using elected_unique [OF exec_VoteReply_safe [OF assms(2-4)], of ?t d c] by (simp add: el')
        with match_invD(8) [OF assms(1) d] win(2) show False by simp
      qed
      then have empty: "tlog s ?t = []" using match_invD(4) [OF assms(1), of ?t] by force
      have tm: "tlog ?s = (tlog s)(?t := logs (nodes s ! c))" using won by (simp add: s' win)
      have g: "grows (tlog s) (tlog ?s)" using empty by (simp add: grows_def tm)
      show ?thesis
      proof (rule match_inv_lead [OF assms(1) inv(1) c, of ?s rf' ?t])
        show "chained (tlog ?s) (logs rf')"
          using chained_grows [OF match_invD(1) [OF assms(1) c] g] by (simp add: win(5))
        show "currentTerm (nodes s ! i) \<noteq> ?t" if "i < n" "i \<noteq> c" "state (nodes s ! i) = Leader" for i
          using leader_elected [OF assms(2) that(1,3)] no [of i] by auto
      qed (use tm el' empty in \<open>simp_all add: s' win(5)\<close>)
    qed (rule match_inv_update [OF assms(1) inv(1) c _ ok(2)];
        simp add: s' keeps_log_def keeps_lead_def keeps_cand_def)+
  qed
qed

lemma exec_Replicate_match:
  assumes "match_inv n s" "safe_inv n s" "i < n" "exec_Replicate s i p = Inr s'"
  shows "match_inv n s'"
proof -
  note nd = nodes_invD [OF safe_invD(1) [OF assms(2)] assms(3)]
  note ch = match_invD(1) [OF assms(1,3)]
  from assms(4) obtain req where req: "replicateOnceRound_request (nodes s ! i) (int p) = Inr req"
    and s': "s' = (case req of None \<Rightarrow> s
      | Some (SendAppendEntries args) \<Rightarrow> s\<lparr>append_reqs := append_reqs s @ [(i, p, args)]\<rparr>
      | Some (SendInstallSnapshot args) \<Rightarrow> s\<lparr>install_reqs := install_reqs s @ [(i, p, args)]\<rparr>)"
    by (auto simp: exec_Replicate_def)
  have "ae_segment (tlog s) args" if "req = Some (SendAppendEntries args)" for args
  proof -
    note r = replicateOnceRound_request_append [OF req [unfolded that]]
    from r(2) obtain pi where "genAppendEntriesArgs (nodes s ! i) pi = Inr args" by blast
    note g = genAppendEntriesArgs_spec [OF nd(5) this]
    have T: "logs (nodes s ! i) = tlog s (ae_Term args)"
      using match_invD(2) [OF assms(1,3) r(1)] by (simp add: g(3))
    have p: "0 \<le> pi" "nat (pi + 1) = Suc (nat pi)" "nat pi < length (logs (nodes s ! i))"
      using g(1,2) ch by simp_all
    let ?T = "tlog s (ae_Term args)"
    have "ae_Entries args = drop (Suc (nat pi)) (take (length ?T) ?T)"
      using p(2) ch by (simp add: T [symmetric]) (simp add: g(3))
    moreover have "ae_PrevLogIndex args = pi" "ae_PrevLogTerm args = Term (?T ! nat pi)"
      using ch by (simp_all add: T [symmetric]) (simp_all add: g(3))
    ultimately show ?thesis
      unfolding ae_segment_def Let_def using p(1,3) T by metis
  qed
  moreover have "is_LastIncludedIndex args = 0" if "req = Some (SendInstallSnapshot args)" for args
    using req ch nd(6) unfolding that
    by (auto simp: replicateOnceRound_request_def genInstallSnapshotArgs_def Let_def split: if_splits)
  ultimately have "\<forall>(i, d, args) \<in> set (append_reqs s'). ae_segment (tlog s) args"
    "\<forall>(i, d, args) \<in> set (install_reqs s'). is_LastIncludedIndex args = 0"
    using assms(1) by (auto simp: s' match_inv_def split: option.splits replicate_request.splits)
  moreover have "nodes s' = nodes s" "tlog s' = tlog s" "elected s' = elected s" "snap_msgs s' = snap_msgs s"
    by (simp_all add: s' split: option.splits replicate_request.splits)
  ultimately show ?thesis using assms(1) by (simp add: match_inv_def)
qed

lemma exec_DeliverAppend_match:
  assumes "match_inv n s" "safe_inv n s" "k < length (append_reqs s)"
    "exec_DeliverAppend s (append_reqs s ! k) = Inr s'"
  shows "match_inv n s'"
proof -
  note inv = safe_invD [OF assms(2)]
  obtain i d args where m: "append_reqs s ! k = (i, d, args)" by (metis surj_pair)
  note lt = net_inv_nth(2) [OF inv(2) assms(3) m]
  then have d: "d < n" by simp
  note nd = nodes_invD [OF inv(1) d]
  note ch = match_invD(1) [OF assms(1) d]
  from assms(4) obtain rf r eff where ae: "AppendEntries (nodes s ! d) args = Inr (rf, r, eff)"
    and s': "s' = (set_node s d rf)\<lparr>append_replies := append_replies s @ [(i, d, args, r)]\<rparr>"
    by (auto simp: exec_DeliverAppend_def m)
  have seg: "ae_segment (tlog s) args"
    using match_invD(5) [OF assms(1)] nth_mem [OF assms(3)] m by metis
  let ?T = "tlog s (ae_Term args)" let ?p = "nat (ae_PrevLogIndex args)"
  obtain mm where sg: "0 \<le> ae_PrevLogIndex args" "?p < length ?T" "ae_PrevLogTerm args = Term (?T ! ?p)"
    "ae_Entries args = drop (Suc ?p) (take mm ?T)"
    using seg by (auto simp: ae_segment_def Let_def)
  have ok: "evolves (nodes s ! d) rf" using AppendEntries_ok(2) [OF nd(1) ae] lt by simp
  have "chained (tlog s) (logs rf) \<and> (rf = nodes s ! d \<or> state rf = Follower)"
    using ae nd(5) conjunct2 [OF conjunct2 [OF lt]]
  proof (cases rule: AppendEntries_elim)
    case accept
    have k: "nat (ae_PrevLogIndex args + 1) = Suc ?p" using sg(1) by simp
    have "?p < length (logs (nodes s ! d))" "Term (logs (nodes s ! d) ! ?p) = Term (?T ! ?p)"
      using accept(2) ch sg(1,3) by (auto simp: ae_matches_def)
    moreover have "?T \<noteq> []" using sg(2) by auto
    ultimately have "chained (tlog s) (ae_merged (nodes s ! d) args)"
      using chained_merge [OF ch match_invD(3) [OF assms(1)] _ sg(2) _ sg(4)] ch k
      by (simp add: ae_merged_def sg(4))
    then show ?thesis by (simp add: accept(3))
  qed (use ch in simp_all)
  then have new: "chained (tlog s) (logs rf)" and st: "rf = nodes s ! d \<or> state rf = Follower" by blast+
  have nth: "nodes s' ! j = (if j = d then rf else nodes s ! j)" if "j < n" for j
    using inv(6) that by (simp add: s')
  have tm: "tlog s' = tlog s" "elected s' = elected s" "append_reqs s' = append_reqs s"
    "install_reqs s' = install_reqs s" "snap_msgs s' = snap_msgs s" by (simp_all add: s')
  note D = match_invD [OF assms(1)]
  show ?thesis
  proof (rule match_invI; (unfold tm)?)
    show "\<forall>j < n. chained (tlog s) (logs (nodes s' ! j))" using new D(1) by (simp add: nth)
    show "\<forall>j < n. state (nodes s' ! j) = Leader \<longrightarrow> logs (nodes s' ! j) = tlog s (currentTerm (nodes s' ! j))"
      using st D(2) by (auto simp: nth)
    show "c < n \<and> (u < currentTerm (nodes s' ! c) \<or>
         u = currentTerm (nodes s' ! c) \<and> state (nodes s' ! c) \<noteq> Candidate)" if "(u, c) \<in> set (elected s)" for u c
      using D(8) [OF that] st ok by (auto simp: nth evolves_def)
  qed (use D in blast)+
qed

lemma exec_DeliverInstall_match:
  assumes "match_inv n s" "safe_inv n s" "k < length (install_reqs s)"
  shows "match_inv n (exec_DeliverInstall s (install_reqs s ! k))"
proof -
  note inv = safe_invD [OF assms(2)]
  obtain i d args where m: "install_reqs s ! k = (i, d, args)" by (metis surj_pair)
  have d: "d < n" using net_inv_nth(4) [OF inv(2) assms(3) m] by simp
  note nd = nodes_invD [OF inv(1) d]
  obtain rf r eff where op: "InstallSnapshot (nodes s ! d) args = (rf, r, eff)" by (metis surj_pair)
  have "is_LastIncludedIndex args = 0" using match_invD(6) [OF assms(1)] nth_mem [OF assms(3)] m by metis
  moreover have "0 \<le> commitIndex (nodes s ! d)"
    using node_okD(9) [OF nd(1)] match_invD(1) [OF assms(1) d] by simp
  ultimately have "eff = []" using op by (auto simp: InstallSnapshot_def Let_def split: if_splits)
  then have s': "exec_DeliverInstall s (install_reqs s ! k) =
      (set_node s d rf)\<lparr>install_replies := install_replies s @ [(i, d, args, r)]\<rparr>"
    by (simp add: exec_DeliverInstall_def m op snapshot_messages_def)
  show ?thesis
    using InstallSnapshot_log [OF op] InstallSnapshot_ok(2) [OF nd(1) op]
    by (intro match_inv_update [OF assms(1) inv(1) d, of rf]) (simp_all add: s')
qed

definition no_snapshot :: "'c event \<Rightarrow> bool" where
  "no_snapshot e \<longleftrightarrow> (case e of TakeSnapshot _ _ _ \<Rightarrow> False | _ \<Rightarrow> True)"

text \<open>The events that only change one node and keep its log.\<close>

lemma exec_other_match:
  assumes "match_inv n s" "safe_inv n s"
  shows "i < n \<Longrightarrow> exec_Timeout s i = Inr s' \<Longrightarrow> match_inv n s'"
    "i < n \<Longrightarrow> match_inv n (set_node s i (fst (ticker_heartbeat (nodes s ! i))))"
    "k < length (vote_reqs s) \<Longrightarrow> exec_DeliverVote s (vote_reqs s ! k) = Inr s' \<Longrightarrow> match_inv n s'"
    "k < length (append_replies s) \<Longrightarrow> exec_AppendReply s (append_replies s ! k) = Inr s' \<Longrightarrow> match_inv n s'"
    "k < length (install_replies s) \<Longrightarrow> exec_InstallReply s (install_replies s ! k) = Inr s' \<Longrightarrow> match_inv n s'"
    "i < n \<Longrightarrow> exec_Apply s i = Inr s' \<Longrightarrow> match_inv n s'"
    "i < n \<Longrightarrow> exec_Restart s i = Inr s' \<Longrightarrow> match_inv n s'"
proof -
  note inv = safe_invD [OF assms(2)]
  note nd = nodes_invD [OF inv(1)]
  note upd = match_inv_update [OF assms(1) inv(1)]
  show "i < n \<Longrightarrow> exec_Timeout s i = Inr s' \<Longrightarrow> match_inv n s'"
    using ticker_election_ok(2) [OF nd(1)] nd(6) unfolding exec_Timeout_def
    by (elim bindR_eq_InrE) (auto intro!: upd [of i] intro: ticker_election_log)
  show "i < n \<Longrightarrow> match_inv n (set_node s i (fst (ticker_heartbeat (nodes s ! i))))"
    using ticker_heartbeat_ok(2) [OF nd(1) prod.collapse [symmetric]] ticker_heartbeat_log
    by (auto intro!: upd [of i])
  show "match_inv n s'" if "k < length (vote_reqs s)" "exec_DeliverVote s (vote_reqs s ! k) = Inr s'"
  proof -
    obtain d args where m: "vote_reqs s ! k = (d, args)" by (metis surj_pair)
    note lt = net_inv_nth(1) [OF inv(2) that(1) m]
    then show ?thesis
      using that(2) RequestVote_ok(2) [OF nd(1)] nd(6) unfolding exec_DeliverVote_def m
      by (auto intro!: upd [of d] intro: RequestVote_log)
  qed
  show "match_inv n s'" if "k < length (append_replies s)" "exec_AppendReply s (append_replies s ! k) = Inr s'"
  proof -
    obtain i d args r where m: "append_replies s ! k = (i, d, args, r)" by (metis surj_pair)
    from net_inv_nth(3) [OF inv(2) that(1) m] show ?thesis
      using that(2) onAppendEntriesReply_ok(2) [OF nd(1)] onAppendEntriesReply_log
      unfolding exec_AppendReply_def m by (auto intro!: upd [of i])
  qed
  show "match_inv n s'" if "k < length (install_replies s)" "exec_InstallReply s (install_replies s ! k) = Inr s'"
  proof -
    obtain i d args r where m: "install_replies s ! k = (i, d, args, r)" by (metis surj_pair)
    from net_inv_nth(5) [OF inv(2) that(1) m] show ?thesis
      using that(2) onInstallSnapshotReply_ok(2) [OF nd(1)] onInstallSnapshotReply_log
      unfolding exec_InstallReply_def m by (auto intro!: upd [of i])
  qed
  show "i < n \<Longrightarrow> exec_Apply s i = Inr s' \<Longrightarrow> match_inv n s'"
    using applier_done_ok(2) [OF nd(1)] assms(1) upd [of i, OF _ applier_done_log] unfolding exec_Apply_def
    by (auto split: option.splits)
  show "i < n \<Longrightarrow> exec_Restart s i = Inr s' \<Longrightarrow> match_inv n s'"
    using Make_ok(2) [OF nd(1)] nd(1) unfolding exec_Restart_def Let_def
    by (auto intro!: upd [of i] intro: Make_log)
qed

lemma exec_match:
  assumes "match_inv n s" "safe_inv n s" "no_snapshot e" "exec s e = Inr s'"
  shows "match_inv n s'"
proof -
  note len = safe_invD(6) [OF assms(2)]
  note intros = exec_other_match [OF assms(1,2)] exec_ClientStart_match [OF assms(1,2)]
    exec_VoteReply_match [OF assms(1,2)] exec_Replicate_match [OF assms(1,2)]
    exec_DeliverAppend_match [OF assms(1,2)] exec_DeliverInstall_match [OF assms(1,2)]
  from assms(4,3,1) show ?thesis
    unfolding exec_def Let_def
    by (cases e) (auto split: if_splits intro: intros simp: len no_snapshot_def
        match_invD(7) [OF assms(1)])
qed

lemma init_cluster_match: "init_cluster n = Inr s \<Longrightarrow> match_inv n s"
  using init_cluster_safe [of n s] by (intro match_invI) (auto simp: chained_def init_cluster_def)

lemma reach_match: "reach no_snapshot n s \<Longrightarrow> match_inv n s"
  by (induction rule: reach.induct) (auto intro: init_cluster_match exec_match reach_safe)

section \<open>Log matching\<close>

text \<open>
  C2. Log matching: in every execution without snapshots, if the logs of two nodes hold an entry of
  the same term at the same index, the logs are equal, commands included, up to that index.
\<close>

theorem log_matching:
  assumes "reach no_snapshot n s" "i < n" "j < n"
    "k < length (logs (nodes s ! i))" "k < length (logs (nodes s ! j))"
    "Term (logs (nodes s ! i) ! k) = Term (logs (nodes s ! j) ! k)"
  shows "take (Suc k) (logs (nodes s ! i)) = take (Suc k) (logs (nodes s ! j))"
  using chained_agree match_invD(1) [OF reach_match [OF assms(1)]] assms(2-6) by blast

lemma commit_trace_logs:
  "case run 3 commit_trace of Inl _ \<Rightarrow> False | Inr s \<Rightarrow>
     map Term (logs (nodes s ! 0)) = [0, 1] \<and> map Term (logs (nodes s ! 1)) = [0, 1]"
  by code_simp

theorem log_matching_witness:
  "\<exists>s. run 3 commit_trace = Inr s \<and> Term (logs (nodes s ! 0) ! 1) = 1 \<and>
     take 2 (logs (nodes s ! 0)) = take 2 (logs (nodes s ! 1))"
proof -
  obtain s where run: "run 3 commit_trace = Inr s" using commit_trace_logs by (auto split: sum.splits)
  note l = commit_trace_logs [unfolded run sum.case]
  have len: "length (logs (nodes s ! 0)) = 2" "length (logs (nodes s ! 1)) = 2"
    using arg_cong [OF conjunct1 [OF l], of length] arg_cong [OF conjunct2 [OF l], of length] by simp_all
  have t: "Term (logs (nodes s ! 0) ! 1) = 1" "Term (logs (nodes s ! 1) ! 1) = 1"
    using arg_cong [OF conjunct1 [OF l], of "\<lambda>x. x ! 1"] arg_cong [OF conjunct2 [OF l], of "\<lambda>x. x ! 1"] len
    by simp_all
  have "reach no_snapshot 3 s"
    by (rule run_reach [OF run]) (simp add: commit_trace_def elect_trace_def no_snapshot_def)
  from log_matching [OF this, of 0 1 1] len t run show ?thesis
    by (intro exI [of _ s]) (simp add: numeral_2_eq_2)
qed

end
