(* ===== verification/Raft_Props.thy ===== *)
theory Raft_Props
  imports Raft_Matching
begin

text \<open>
  Results on the single operations of a Raft node (vote, append, commit, snapshot, apply), on one
  replication round between a leader and a follower, and concrete executions of the group that show
  where the code departs from the algorithm.
\<close>

section \<open>The commit index of a leader\<close>

definition replicated :: "'c Raft \<Rightarrow> int \<Rightarrow> bool" where
  "replicated rf x \<longleftrightarrow>
     length (matchIndex rf) div 2 < card {i. i < length (matchIndex rf) \<and> x \<le> matchIndex rf ! i}"

lemma card_nth_filter: "card {i. i < length xs \<and> P (xs ! i)} = length (filter P xs)"
  by (simp add: length_filter_conv_card)

lemma length_filter_sort: "length (filter P (sort xs)) = length (filter P xs)"
  by (metis filter_sort length_sort)

lemma sorted_count_ge:
  fixes ys :: "int list"
  assumes "sorted ys" "q < length ys"
  shows "x \<le> ys ! q \<longleftrightarrow> length ys - q \<le> length (filter (\<lambda>y. x \<le> y) ys)"
proof
  assume x: "x \<le> ys ! q"
  have "x \<le> y" if "y \<in> set (drop q ys)" for y
  proof -
    from that obtain j where "j < length ys - q" "y = ys ! (q + j)" by (auto simp: in_set_conv_nth)
    then show ?thesis using x sorted_nth_mono [OF assms(1), of q "q + j"] by linarith
  qed
  then have "length (filter (\<lambda>y. x \<le> y) (drop q ys)) = length ys - q" by (simp add: filter_id_conv)
  moreover have "length (filter (\<lambda>y. x \<le> y) (drop q ys)) \<le> length (filter (\<lambda>y. x \<le> y) ys)"
    by (subst (2) append_take_drop_id [of q ys, symmetric]) (simp del: append_take_drop_id)
  ultimately show "length ys - q \<le> length (filter (\<lambda>y. x \<le> y) ys)" by simp
next
  assume le: "length ys - q \<le> length (filter (\<lambda>y. x \<le> y) ys)"
  show "x \<le> ys ! q"
  proof (rule ccontr)
    assume "\<not> x \<le> ys ! q"
    then have x: "ys ! q < x" by simp
    have "\<not> x \<le> y" if y: "y \<in> set (take (Suc q) ys)" for y
    proof -
      from y obtain j where "j \<le> q" "y = ys ! j" by (auto simp: in_set_conv_nth less_Suc_eq_le)
      then show ?thesis using x sorted_nth_mono [OF assms(1), of j q] assms(2) by simp
    qed
    then have "filter (\<lambda>y. x \<le> y) (take (Suc q) ys) = []" by (simp add: filter_empty_conv)
    then have "filter (\<lambda>y. x \<le> y) ys = filter (\<lambda>y. x \<le> y) (drop (Suc q) ys)"
      by (metis append_Nil append_take_drop_id filter_append)
    also have "length \<dots> \<le> length ys - Suc q"
      using length_filter_le [of "\<lambda>y. x \<le> y" "drop (Suc q) ys"] by simp
    finally show False using le assms(2) by simp
  qed
qed

lemma commit_candidate:
  assumes "matchIndex rf \<noteq> []"
  shows "\<exists>c. index (sort (matchIndex rf))
      (int (length (matchIndex rf)) - (int (length (matchIndex rf)) div 2 + 1)) = Inr c \<and>
    (\<forall>x. replicated rf x \<longleftrightarrow> x \<le> c)"
proof -
  let ?n = "length (matchIndex rf)" let ?q = "?n - (?n div 2 + 1)"
  let ?s = "sort (matchIndex rf)"
  have n: "0 < ?n" using assms by simp
  then have q: "int ?n - (int ?n div 2 + 1) = int ?q" "?q < ?n" by linarith+
  have "replicated rf x \<longleftrightarrow> x \<le> ?s ! ?q" for x
    using sorted_count_ge [of ?s ?q x] q(2) n
    by (simp add: replicated_def card_nth_filter length_filter_sort) linarith
  then show ?thesis unfolding q(1) using q(2) index_of_nat [of ?q ?s] by (metis length_sort)
qed

lemma advanceCommitIndexForLeader_eq:
  assumes "node_ok rf"
  shows "\<exists>c. (\<forall>x. replicated rf x \<longleftrightarrow> x \<le> c) \<and>
    advanceCommitIndexForLeader rf =
      Inr (if commitIndex rf < c \<and> c < first_index (logs rf) + int (length (logs rf)) \<and>
              Term (logs rf ! nat (c - first_index (logs rf))) = currentTerm rf
           then (rf\<lparr>commitIndex := c\<rparr>, [SignalApply]) else (rf, []))"
proof -
  have "matchIndex rf \<noteq> []" using node_okD(4-6) [OF assms] by auto
  from commit_candidate [OF this] obtain c where
    c: "index (sort (matchIndex rf)) (int (length (matchIndex rf)) -
        (int (length (matchIndex rf)) div 2 + 1)) = Inr c" "\<forall>x. replicated rf x \<longleftrightarrow> x \<le> c" by blast
  have "isLogMatched rf c (currentTerm rf) = Inr (c < first_index (logs rf) + int (length (logs rf)) \<and>
      currentTerm rf = Term (logs rf ! nat (c - first_index (logs rf))))" if "commitIndex rf < c"
    using that node_okD(1,9) [OF assms] by (intro isLogMatched_ok) auto
  with c show ?thesis
    by (intro exI [of _ c]) (auto simp: advanceCommitIndexForLeader_def Let_def)
qed

text \<open>
  C9. What a leader commits: \<^verbatim>\<open>advanceCommitIndexForLeader\<close> never panics; with \<open>c\<close> the highest index
  that \<^verbatim>\<open>matchIndex\<close> shows on a majority of the peers, it moves the commit index to \<open>c\<close> exactly when \<open>c\<close>
  is beyond the current commit index and the entry at \<open>c\<close> has the leader's current term; otherwise
  nothing changes.
\<close>

theorem advance_commit_majority:
  assumes "node_ok rf"
  shows "\<exists>c. (\<forall>x. replicated rf x \<longleftrightarrow> x \<le> c) \<and>
    advanceCommitIndexForLeader rf =
      Inr (if commitIndex rf < c \<and> c < first_index (logs rf) + int (length (logs rf)) \<and>
              Term (logs rf ! nat (c - first_index (logs rf))) = currentTerm rf
           then (rf\<lparr>commitIndex := c\<rparr>, [SignalApply]) else (rf, []))"
  by (rule advanceCommitIndexForLeader_eq [OF assms])

theorem advance_commit_majority_witness:
  "\<exists>rf0 c. Make 3 0 (MakePersister :: nat Persister) = Inr rf0 \<and> node_ok rf0 \<and>
     (\<forall>x. replicated rf0 x \<longleftrightarrow> x \<le> c)"
proof -
  obtain rf0 where "Make 3 0 (MakePersister :: nat Persister) = Inr rf0" "node_ok rf0"
    using Make_fresh [of 0 3] by auto
  with advance_commit_majority [of rf0] show ?thesis by blast
qed

section \<open>Votes\<close>

text \<open>
  C17. When a vote is granted: a well-formed node answers every request; it grants the vote exactly when the
  request is not of an older term, the node has not voted for another candidate in that term, and
  the candidate's log is at least as up to date. A granted vote is recorded for the term of the
  request and is already on stable storage when the reply is sent.
\<close>

theorem RequestVote_grants:
  assumes "node_ok rf"
  shows "\<exists>rf' r. RequestVote rf args = Inr (rf', r) \<and>
    (rvr_VoteGranted r \<longleftrightarrow> currentTerm rf \<le> rv_Term args \<and>
       (currentTerm rf = rv_Term args \<longrightarrow> votedFor rf \<in> {-1, rv_CandidateId args}) \<and>
       (Term (last (logs rf)) < rv_LastLogTerm args \<or>
        Term (last (logs rf)) = rv_LastLogTerm args \<and> Index (last (logs rf)) \<le> rv_LastLogIndex args)) \<and>
    (rvr_VoteGranted r \<longrightarrow> currentTerm rf' = rv_Term args \<and> votedFor rf' = rv_CandidateId args \<and>
       rvr_Term r = rv_Term args \<and> raftstate (persister rf') = Some (encodeState rf')) \<and>
    logs rf' = logs rf \<and> commitIndex rf' = commitIndex rf"
proof -
  have ne: "logs rf \<noteq> []" using assms by (rule node_okD)
  have "\<exists>x. RequestVote rf args = Inr x"
    by (simp add: RequestVote_def Let_def isLogUpToDate_def ne)
  then obtain rf' r where rv: "RequestVote rf args = Inr (rf', r)" by auto
  let ?A = "rv_Term args < currentTerm rf \<or>
    (rv_Term args = currentTerm rf \<and> votedFor rf \<noteq> -1 \<and> votedFor rf \<noteq> rv_CandidateId args)"
  let ?U = "Term (last (logs rf)) < rv_LastLogTerm args \<or>
    Term (last (logs rf)) = rv_LastLogTerm args \<and> Index (last (logs rf)) \<le> rv_LastLogIndex args"
  have r: "rvr_VoteGranted r \<longleftrightarrow> \<not> ?A \<and> ?U"
  proof (cases ?A)
    case True
    with rv show ?thesis unfolding RequestVote_def by auto
  next
    case False
    from rv ne show ?thesis
      unfolding RequestVote_def if_not_P [OF False] Let_def step_down_def [symmetric]
      using False by (cases ?U) (auto simp: isLogUpToDate_ok)
  qed
  from rv ne have "(rvr_VoteGranted r \<longrightarrow> currentTerm rf' = rv_Term args \<and>
      votedFor rf' = rv_CandidateId args \<and> rvr_Term r = rv_Term args \<and>
      raftstate (persister rf') = Some (encodeState rf')) \<and> logs rf' = logs rf \<and>
      commitIndex rf' = commitIndex rf"
    by (cases rule: RequestVote_elim) (simp_all add: encodeState_def)
  moreover have "\<not> ?A \<longleftrightarrow> currentTerm rf \<le> rv_Term args \<and>
      (currentTerm rf = rv_Term args \<longrightarrow> votedFor rf \<in> {-1, rv_CandidateId args})" by auto
  ultimately show ?thesis using rv r by (intro exI [of _ rf'] exI [of _ r]) simp
qed

theorem RequestVote_grants_witness:
  "\<exists>rf0 rf' r. Make 3 0 (MakePersister :: nat Persister) = Inr rf0 \<and>
     RequestVote rf0 \<lparr>rv_Term = 1, rv_CandidateId = 2, rv_LastLogIndex = 0, rv_LastLogTerm = 0\<rparr> = Inr (rf', r) \<and>
     rvr_VoteGranted r \<and> votedFor rf' = 2"
proof -
  obtain rf0 where rf0: "Make 3 0 (MakePersister :: nat Persister) = Inr rf0" "node_ok rf0"
    "currentTerm rf0 = 0" "logs rf0 = [zero_entry]"
    using Make_fresh [of 0 3] by auto
  from RequestVote_grants [OF rf0(2), of "\<lparr>rv_Term = 1, rv_CandidateId = 2, rv_LastLogIndex = 0, rv_LastLogTerm = 0\<rparr>"]
    rf0 show ?thesis by (auto simp: zero_entry_def)
qed

section \<open>AppendEntries\<close>

lemma ae_matches_k:
  assumes "ae_matches rf args"
  shows "0 < nat (ae_PrevLogIndex args - first_index (logs rf) + 1)"
    "nat (ae_PrevLogIndex args - first_index (logs rf) + 1) \<le> length (logs rf)"
    "nat (ae_PrevLogIndex args - first_index (logs rf) + 1) =
       Suc (nat (ae_PrevLogIndex args - first_index (logs rf)))"
  using assms by (auto simp: ae_matches_def)



text \<open>
  A repeated \<^verbatim>\<open>AppendEntries\<close> (the network may deliver a request twice) is harmless: handling the
  same successful request again leaves the follower exactly as it was.
\<close>

lemma AppendEntries_idempotent:
  assumes "node_ok rf" "consecutive (ae_PrevLogIndex args + 1) (ae_Entries args)"
    "AppendEntries rf args = Inr (rf', r, eff)" "aer_Success r"
  shows "AppendEntries rf' args = Inr (rf', r, [])"
proof -
  have wf: "wf_log (logs rf)" using assms(1) by (rule node_okD)
  from assms(3) wf assms(2) show ?thesis
  proof (cases rule: AppendEntries_elim)
    case accept
    let ?k = "nat (ae_PrevLogIndex args - first_index (logs rf) + 1)"
    let ?m = "ae_merged rf args"
    note k = ae_matches_k [OF accept(2)]
    note m = ae_merged_wf [OF wf accept(2) assms(2)]
    have logs: "logs rf' = ?m" by (simp add: accept(3))
    have nth: "?m ! j = logs rf ! j" if "j < ?k" for j
      using take_eq_nth_eq [of ?k ?m "logs rf" j] that k(2)
        length_merge_log [OF k(2), of "ae_Entries args"] by (simp add: ae_merged_def)
    have le: "?k \<le> length ?m" using length_merge_log [OF k(2), of "ae_Entries args"] by (simp add: ae_merged_def)
    have match: "ae_matches rf' args"
      using accept(2) k(3) le nth [of "nat (ae_PrevLogIndex args - first_index (logs rf))"] m(2)
      by (auto simp: ae_matches_def logs)
    have merged: "ae_merged rf' args = ?m"
      using merge_log_id [of ?k "ae_Entries args" ?m] length_merge_log [OF k(2), of "ae_Entries args"]
        merge_log_Term [OF k(2), of _ "ae_Entries args"] m(2)
      by (simp add: ae_merged_def [of rf'] logs) (simp add: ae_merged_def)
    have t: "currentTerm rf' = ae_Term args" using accept(1) by (simp add: accept(3))
    have acc: "ae_accept rf' (ae_Term args) = rf'"
      using t by (simp add: ae_accept_def Let_def accept(3) ChangeState_def)
    have wf': "wf_log (logs rf')" using m(1) logs by simp
    have res: "ae_result rf' args = rf'"
      by (simp add: ae_result_def Let_def acc merged logs) (simp add: accept(3))
    have r: "r = \<lparr>aer_Term = ae_Term args, aer_Success = True, aer_ConflictIndex = 0, aer_ConflictTerm = 0\<rparr>"
      using AppendEntries_match [OF wf accept(1,2) assms(2)] assms(3) by simp
    have ci: "\<not> commitIndex rf' < min (ae_LeaderCommit args) (Index (last ?m))"
      using accept(3) by simp
    show ?thesis
      using AppendEntries_match [OF wf' _ match assms(2)] t unfolding merged if_not_P [OF ci] res r
      by simp
  qed (use assms(4) in auto)
qed

lemma ae_merged_entry:
  assumes "ae_matches rf args" "ae_PrevLogIndex args \<le> i"
    "i \<le> ae_PrevLogIndex args + int (length (ae_Entries args))"
  defines "pos \<equiv> nat (i - first_index (logs rf))"
  shows "i < first_index (logs rf) + int (length (ae_merged rf args))"
    "i = ae_PrevLogIndex args \<Longrightarrow> ae_merged rf args ! pos = logs rf ! pos"
    "i \<noteq> ae_PrevLogIndex args \<Longrightarrow>
       Term (ae_merged rf args ! pos) = Term (ae_Entries args ! nat (i - ae_PrevLogIndex args - 1))"
proof -
  let ?k = "nat (ae_PrevLogIndex args - first_index (logs rf) + 1)"
  note k = ae_matches_k [OF assms(1)]
  have f: "first_index (logs rf) \<le> ae_PrevLogIndex args" using assms(1) by (simp add: ae_matches_def)
  have len: "?k + length (ae_Entries args) \<le> length (ae_merged rf args)"
    using length_merge_log [OF k(2), of "ae_Entries args"] by (simp add: ae_merged_def)
  then show "i < first_index (logs rf) + int (length (ae_merged rf args))" using assms(2,3) f by linarith
  show "ae_merged rf args ! pos = logs rf ! pos" if "i = ae_PrevLogIndex args"
  proof (rule take_eq_nth_eq)
    show "take ?k (ae_merged rf args) = take ?k (logs rf)" using k(2) by (simp add: ae_merged_def)
    show "pos < ?k" "pos < length (ae_merged rf args)" using that f len unfolding pos_def by linarith+
  qed
  show "Term (ae_merged rf args ! pos) = Term (ae_Entries args ! nat (i - ae_PrevLogIndex args - 1))"
    if "i \<noteq> ae_PrevLogIndex args"
  proof -
    have "pos = ?k + nat (i - ae_PrevLogIndex args - 1)"
      "nat (i - ae_PrevLogIndex args - 1) < length (ae_Entries args)"
      using that assms(2,3) f unfolding pos_def by linarith+
    then show ?thesis using merge_log_Term [OF k(2)] by (simp add: ae_merged_def)
  qed
qed

section \<open>One replication round\<close>

text \<open>
  The leader \<open>lf\<close> builds a request for peer \<open>d\<close>, the follower \<open>ff\<close> handles it, and the leader
  handles the reply in the state in which it sent the request.
\<close>

definition replication_round :: "'c Raft \<Rightarrow> int \<Rightarrow> 'c Raft \<Rightarrow> ('c Raft \<times> 'c Raft) option res" where
  "replication_round lf d ff =
     bindR (replicateOnceRound_request lf d) (\<lambda>req. case req of
         Some (SendAppendEntries args) \<Rightarrow>
           bindR (AppendEntries ff args) (\<lambda>(ff', r, _).
           bindR (onAppendEntriesReply lf d args r) (\<lambda>(lf', _). Inr (Some (lf', ff'))))
       | _ \<Rightarrow> Inr None)"

abbreviation entry_at :: "'c Raft \<Rightarrow> int \<Rightarrow> 'c LogEntry" where
  "entry_at rf i \<equiv> logs rf ! nat (i - first_index (logs rf))"

abbreviation has_index :: "'c Raft \<Rightarrow> int \<Rightarrow> bool" where
  "has_index rf i \<equiv> first_index (logs rf) \<le> i \<and> i < first_index (logs rf) + int (length (logs rf))"

definition can_replicate :: "'c Raft \<Rightarrow> int \<Rightarrow> 'c Raft \<Rightarrow> bool" where
  "can_replicate lf d ff \<longleftrightarrow> node_ok lf \<and> node_ok ff \<and> state lf = Leader \<and> 0 \<le> d \<and> d < int (peers lf) \<and>
     currentTerm ff \<le> currentTerm lf \<and> has_index lf (nextIndex lf ! nat d - 1)"

lemma replication_round_eq:
  assumes "can_replicate lf d ff"
  defines "p \<equiv> nextIndex lf ! nat d - 1"
  defines "args \<equiv> \<lparr>ae_Term = currentTerm lf, ae_LeaderId = me lf, ae_PrevLogIndex = p,
       ae_PrevLogTerm = Term (entry_at lf p), ae_LeaderCommit = commitIndex lf,
       ae_Entries = drop (nat (p - first_index (logs lf) + 1)) (logs lf)\<rparr>"
  shows "replication_round lf d ff =
      bindR (AppendEntries ff args) (\<lambda>(ff', r, _).
      bindR (onAppendEntriesReply lf d args r) (\<lambda>(lf', _). Inr (Some (lf', ff'))))"
    "consecutive (ae_PrevLogIndex args + 1) (ae_Entries args)"
    "int (length (ae_Entries args)) = Index (last (logs lf)) - p"
proof -
  have lf: "wf_log (logs lf)" "logs lf \<noteq> []" "length (nextIndex lf) = peers lf"
    using assms(1) by (auto simp: can_replicate_def intro: node_okD)
  have p: "has_index lf p" using assms(1) by (simp add: can_replicate_def p_def)
  then have gen: "genAppendEntriesArgs lf p = Inr args"
    using lf(2) by (simp add: genAppendEntriesArgs_def index_def slice_from_def args_def)
  have "replicateOnceRound_request lf d = Inr (Some (SendAppendEntries args))"
    using assms(1) lf p gen
    by (simp add: replicateOnceRound_request_def can_replicate_def Let_def index_def p_def)
  then show "replication_round lf d ff =
      bindR (AppendEntries ff args) (\<lambda>(ff', r, _).
      bindR (onAppendEntriesReply lf d args r) (\<lambda>(lf', _). Inr (Some (lf', ff'))))"
    by (simp add: replication_round_def)
  show "consecutive (ae_PrevLogIndex args + 1) (ae_Entries args)"
    by (rule genAppendEntriesArgs_spec(4) [OF lf(1) gen])
  show "int (length (ae_Entries args)) = Index (last (logs lf)) - p"
    using p lf(1) by (simp add: args_def wf_log_last of_nat_diff nat_le_iff)
qed

lemma ae_matches_mismatch:
  assumes "wf_log (logs rf)" "has_index rf (ae_PrevLogIndex args)"
    "Term (entry_at rf (ae_PrevLogIndex args)) \<noteq> ae_PrevLogTerm args" "currentTerm rf \<le> ae_Term args"
  shows "AppendEntries rf args = Inr (ae_accept rf (ae_Term args), \<lparr>aer_Term = ae_Term args,
       aer_Success = False, aer_ConflictIndex = ae_PrevLogIndex args + 1,
       aer_ConflictTerm = ae_PrevLogTerm args\<rparr>, [])"
  using AppendEntries_mismatch [OF assms(1,4)] assms(2,3) by blast


lemma replication_round_stuck:
  assumes "can_replicate lf d ff" "has_index ff (nextIndex lf ! nat d - 1)"
    "Term (entry_at ff (nextIndex lf ! nat d - 1)) \<noteq> Term (entry_at lf (nextIndex lf ! nat d - 1))"
    "Term (entry_at lf (nextIndex lf ! nat d - 1)) \<noteq> -1"
    "\<forall>i. first_index (logs lf) \<le> i \<and> i < nextIndex lf ! nat d - 1 \<longrightarrow>
       Term (entry_at lf i) \<noteq> Term (entry_at lf (nextIndex lf ! nat d - 1))"
  shows "\<exists>ff'. replication_round lf d ff = Inr (Some (lf, ff')) \<and> logs ff' = logs ff \<and>
    can_replicate lf d ff'"
proof -
  let ?p = "nextIndex lf ! nat d - 1"
  note ok = assms(1) [unfolded can_replicate_def]
  have wf: "wf_log (logs ff)" "logs lf \<noteq> []" "length (nextIndex lf) = peers lf"
    using ok by (auto intro: node_okD)
  have scan: "leader_scan (logs lf) (first_index (logs lf)) (Term (entry_at lf ?p)) (?p - 1) = Inr None"
    using assms(5) ok by (intro leader_scan_None) auto
  let ?ff = "ae_accept ff (currentTerm lf)"
  have upd: "(nextIndex lf)[nat d := nextIndex lf ! nat d] = nextIndex lf" by simp
  have "replication_round lf d ff = Inr (Some (lf\<lparr>nextIndex := nextIndex lf\<rparr>, ?ff))"
    using assms(2-4) ok wf scan
    by (simp add: replication_round_eq(1) [OF assms(1)] ae_matches_mismatch onAppendEntriesReply_def
        set_index_def)
  moreover have "can_replicate lf d ?ff"
    using ok ae_accept_ok(1) [of ff "currentTerm lf"] by (simp add: can_replicate_def)
  ultimately show ?thesis by auto
qed

text \<open>Several rounds in a row.\<close>

fun replication_rounds :: "nat \<Rightarrow> 'c Raft \<Rightarrow> int \<Rightarrow> 'c Raft \<Rightarrow> ('c Raft \<times> 'c Raft) option res" where
  "replication_rounds 0 lf d ff = Inr (Some (lf, ff))"
| "replication_rounds (Suc n) lf d ff =
     bindR (replication_round lf d ff) (\<lambda>r. case r of
         None \<Rightarrow> Inr None
       | Some (lf', ff') \<Rightarrow> replication_rounds n lf' d ff')"

text \<open>
  C37. Replication can get stuck for ever. If the follower holds an entry of another term at
  \<^verbatim>\<open>nextIndex - 1\<close> and the leader's entry there is the first of its term in the leader's log, then however
  many rounds are made, with no message lost, the leader's state and the follower's log stay exactly
  as they are. (\<^verbatim>\<open>AppendEntries\<close> compares its own entries with \<^verbatim>\<open>args.PrevLogTerm\<close>, which the entry at
  that index does not have, so the loop ends at once and the reply points past the conflict.)
\<close>

theorem replication_stuck_forever:
  assumes "can_replicate lf d ff" "has_index ff (nextIndex lf ! nat d - 1)"
    "Term (entry_at ff (nextIndex lf ! nat d - 1)) \<noteq> Term (entry_at lf (nextIndex lf ! nat d - 1))"
    "Term (entry_at lf (nextIndex lf ! nat d - 1)) \<noteq> -1"
    "\<forall>i. first_index (logs lf) \<le> i \<and> i < nextIndex lf ! nat d - 1 \<longrightarrow>
       Term (entry_at lf i) \<noteq> Term (entry_at lf (nextIndex lf ! nat d - 1))"
  shows "\<exists>ff'. replication_rounds n lf d ff = Inr (Some (lf, ff')) \<and> logs ff' = logs ff"
  using assms(1-3)
proof (induction n arbitrary: ff)
  case (Suc n)
  from replication_round_stuck [OF Suc.prems(1-3) assms(4,5)] obtain ff' where
    ff': "replication_round lf d ff = Inr (Some (lf, ff'))" "logs ff' = logs ff" "can_replicate lf d ff'"
    by blast
  with Suc.IH [of ff'] Suc.prems(2,3) show ?case by simp
qed simp

section \<open>Concrete executions\<close>

text \<open>
  Three nodes. Node 2 wins term 2, appends an entry that reaches nobody, restarts and wins term 3,
  while node 0 holds an entry of term 1 at the same index.
\<close>

definition stuck_trace :: "nat event list" where
  "stuck_trace = [
     Timeout 0, DeliverVote 0, VoteReply 0 0, ClientStart 0 11,
     Timeout 2, Timeout 2, DeliverVote 5, VoteReply 1 0, ClientStart 2 20,
     Restart 2, Timeout 2, DeliverVote 7, VoteReply 2 0]"

lemma stuck_trace_state:
  "case run 3 stuck_trace of Inl _ \<Rightarrow> False | Inr s \<Rightarrow>
     map (\<lambda>rf. (state rf, currentTerm rf, nextIndex rf, map (\<lambda>e. (Term e, Index e)) (logs rf))) (nodes s) =
       [(Leader, 1, [2, 1, 1], [(0, 0), (1, 1)]), (Follower, 3, [1, 1, 1], [(0, 0)]),
        (Leader, 3, [2, 2, 2], [(0, 0), (2, 1)])]"
  by code_simp

lemma run_nodes_inv: "run n es = Inr s \<Longrightarrow> nodes_inv n s"
  by (rule safe_invD(1), rule reach_safe [where P = "\<lambda>_. True"], erule run_reach) (simp add: list_all_def)

theorem replication_stuck_forever_witness:
  "\<exists>s ff'. run 3 stuck_trace = Inr s \<and>
     replication_rounds 1000 (nodes s ! 2) 0 (nodes s ! 0) = Inr (Some (nodes s ! 2, ff')) \<and>
     logs ff' = logs (nodes s ! 0)"
proof -
  obtain s where s: "run 3 stuck_trace = Inr s" using stuck_trace_state by (auto split: sum.splits)
  note n = nodes_invD [OF run_nodes_inv [OF s]]
  obtain a b c where abc: "nodes s = [a, b, c]"
    using n(4) [of 0] by (auto simp: length_Suc_conv numeral_3_eq_3)
  have st: "state c = Leader" "currentTerm c = 3" "nextIndex c = [2, 2, 2]" "currentTerm a = 1"
    "map (\<lambda>e. (Term e, Index e)) (logs a) = [(0, 0), (1, 1)]"
    "map (\<lambda>e. (Term e, Index e)) (logs c) = [(0, 0), (2, 1)]"
    using stuck_trace_state s abc by auto
  have "can_replicate c 0 a"
    using st n(1) [of 0] n(1,3) [of 2] abc by (auto simp: can_replicate_def)
  from replication_stuck_forever [OF this, of 1000] st s abc show ?thesis by auto
qed

lemma elect_trace_state:
  "case run 3 elect_trace of Inl _ \<Rightarrow> False | Inr s \<Rightarrow>
     map (\<lambda>rf. (state rf, currentTerm rf, nextIndex rf, map (\<lambda>e. (Term e, Index e)) (logs rf))) (nodes s) =
       [(Leader, 1, [2, 1, 1], [(0, 0), (1, 1)]), (Follower, 1, [1, 1, 1], [(0, 0)]),
        (Follower, 0, [1, 1, 1], [(0, 0)])]"
  by code_simp


section \<open>Snapshots and restart\<close>


text \<open>
  C25. What \<^verbatim>\<open>CondInstallSnapshot\<close> does: a snapshot at or below the commit index is refused and nothing
  changes; otherwise it is installed (first entry, commit and apply index, saved snapshot). The tail of
  the old log after the snapshot's index is kept whatever term the old entry at that index had, so it may be
  a tail that conflicts with the snapshot.
\<close>

theorem CondInstallSnapshot_correct:
  assumes "node_ok rf"
  shows "\<exists>rf' b. CondInstallSnapshot rf t i (Some snap) = Inr (rf', b) \<and> node_ok rf' \<and>
    (b \<longleftrightarrow> commitIndex rf < i) \<and>
    (if b then hd (logs rf') = \<lparr>Command = None, Term = t, Index = i\<rparr> \<and>
         List.tl (logs rf') = drop (Suc (nat (i - first_index (logs rf)))) (logs rf) \<and>
         commitIndex rf' = i \<and> lastApplied rf' = i \<and> ReadSnapshot (persister rf') = Some snap
     else rf' = rf)"
proof (cases "commitIndex rf < i")
  case False
  with assms show ?thesis by (auto simp: CondInstallSnapshot_def)
next
  case True
  let ?f = "first_index (logs rf)" let ?n = "nat (i - ?f)"
  let ?e = "\<lparr>Command = None, Term = t, Index = i\<rparr>"
  have wf: "wf_log (logs rf)" and f: "?f \<le> commitIndex rf" using assms by (rule node_okD)+
  let ?l = "if i \<ge> ?f + int (length (logs rf)) then [?e] else (drop ?n (logs rf))[0 := ?e]"
  have l: "hd ?l = ?e \<and> List.tl ?l = drop (Suc ?n) (logs rf)"
  proof (cases "i \<ge> ?f + int (length (logs rf))")
    case True
    then have "length (logs rf) \<le> Suc ?n" by linarith
    with True show ?thesis by simp
  next
    case False
    with True f have "?n < length (logs rf)" by linarith
    then show ?thesis using False by (simp add: Cons_nth_drop_Suc [symmetric])
  qed
  from CondInstallSnapshot_eq [OF wf f True, of t "Some snap"] obtain rf' where
    c: "CondInstallSnapshot rf t i (Some snap) = Inr (rf', True)" and rf': "logs rf' = ?l"
    "commitIndex rf' = i" "lastApplied rf' = i" "snapshot (persister rf') = Some snap"
    by (simp add: Let_def)
  with CondInstallSnapshot_ok(1) [OF assms c] l True show ?thesis
    by (intro exI [of _ rf'] exI [of _ True]) (simp add: ReadSnapshot_def clone_def)
qed

section \<open>The applier\<close>

text \<open>
  C26. The applier hands over exactly the committed entries that it has not applied yet, each once and in the
  order of the log, and then records them as applied.
\<close>

theorem applier_in_order:
  assumes "node_ok rf" "first_index (logs rf) \<le> lastApplied rf" "lastApplied rf < commitIndex rf"
    "commitIndex rf \<le> Index (last (logs rf))"
  shows "\<exists>es. applier_take rf = Inr (Some (es, commitIndex rf)) \<and>
    int (length es) = commitIndex rf - lastApplied rf \<and>
    (\<forall>j < length es. es ! j = entry_at rf (lastApplied rf + 1 + int j) \<and>
       CommandIndex (command_msg (es ! j)) = lastApplied rf + 1 + int j) \<and>
    lastApplied (applier_done rf (commitIndex rf)) = commitIndex rf"
proof -
  let ?f = "first_index (logs rf)"
  let ?lo = "nat (lastApplied rf - ?f + 1)" let ?hi = "nat (commitIndex rf - ?f + 1)"
  have wf: "wf_log (logs rf)" using assms(1) by (rule node_okD)
  then have hi: "?hi \<le> length (logs rf)" "?lo \<le> ?hi" using assms(2-4) by (simp_all add: wf_log_last)
  let ?es = "drop ?lo (take ?hi (logs rf))"
  have len: "length ?es = nat (commitIndex rf - lastApplied rf)" using hi assms(2,3) by simp
  have sl: "slice_between (logs rf) (lastApplied rf - ?f + 1) (commitIndex rf - ?f + 1) = Inr ?es"
    using hi assms(2,3) by (simp add: slice_between_def nat_le_iff)
  have "applier_take rf = Inr (Some (?es, commitIndex rf))"
    using assms(3) sl len wf_log_ne [OF wf] by (simp add: applier_take_def del: length_drop length_take)
  moreover have "?es ! j = entry_at rf (lastApplied rf + 1 + int j) \<and>
       Index (?es ! j) = lastApplied rf + 1 + int j" if "j < length ?es" for j
  proof -
    have e: "nat (lastApplied rf + 1 + int j - ?f) = ?lo + j" using assms(2) by linarith
    have "?lo + j < ?hi" using that hi by simp
    with e hi have "?es ! j = entry_at rf (lastApplied rf + 1 + int j)" by simp
    then show ?thesis
      using wf_log_nth [OF wf, of "?lo + j"] e \<open>?lo + j < ?hi\<close> hi assms(2) by simp
  qed
  ultimately obtain es where "applier_take rf = Inr (Some (es, commitIndex rf))"
    "length es = nat (commitIndex rf - lastApplied rf)"
    "\<forall>j < length es. es ! j = entry_at rf (lastApplied rf + 1 + int j) \<and>
       Index (es ! j) = lastApplied rf + 1 + int j" using len by blast
  then show ?thesis
    using assms(3) by (intro exI [of _ es] conjI allI impI) (auto simp: command_msg_def applier_done_def)
qed

lemma commit_trace_state:
  "case run 3 commit_trace of Inl _ \<Rightarrow> False | Inr s \<Rightarrow>
     map (\<lambda>rf. (commitIndex rf, lastApplied rf, map Index (logs rf))) (nodes s) =
       [(1, 0, [0, 1]), (0, 0, [0, 1]), (0, 0, [0])]"
  by code_simp

lemma commit_trace_node:
  "\<exists>s. run 3 commit_trace = Inr s \<and> node_ok (nodes s ! 0) \<and> commitIndex (nodes s ! 0) = 1 \<and>
     lastApplied (nodes s ! 0) = 0 \<and> map Index (logs (nodes s ! 0)) = [0, 1]"
proof -
  obtain s where run: "run 3 commit_trace = Inr s" using commit_trace_state by (auto split: sum.splits)
  note n = nodes_invD [OF run_nodes_inv [OF run], of 0]
  obtain a b c where abc: "nodes s = [a, b, c]"
    using n(4) by (auto simp: length_Suc_conv numeral_3_eq_3)
  have "commitIndex a = 1" "lastApplied a = 0" "map Index (logs a) = [0, 1]"
    using commit_trace_state [unfolded run sum.case abc list.map] by simp_all
  with n(1) run abc show ?thesis by (intro exI [of _ s]) simp
qed


theorem CondInstallSnapshot_correct_witness:
  "\<exists>s rf'. run 3 commit_trace = Inr s \<and> CondInstallSnapshot (nodes s ! 0) 1 4 (Some [5]) = Inr (rf', True) \<and>
     commitIndex rf' = 4"
proof -
  from commit_trace_node obtain s where s: "run 3 commit_trace = Inr s" "node_ok (nodes s ! 0)"
    "commitIndex (nodes s ! 0) = 1" "lastApplied (nodes s ! 0) = 0" "map Index (logs (nodes s ! 0)) = [0, 1]"
    by (elim exE conjE)
  from CondInstallSnapshot_correct [OF s(2), of 1 4 "[5]"] obtain rf' b where
    r: "CondInstallSnapshot (nodes s ! 0) 1 4 (Some [5]) = Inr (rf', b)" "b \<longleftrightarrow> commitIndex (nodes s ! 0) < 4"
    and rf': "if b then hd (logs rf') = \<lparr>Command = None, Term = 1, Index = 4\<rparr> \<and>
         List.tl (logs rf') = drop (Suc (nat (4 - first_index (logs (nodes s ! 0))))) (logs (nodes s ! 0)) \<and>
         commitIndex rf' = 4 \<and> lastApplied rf' = 4 \<and> ReadSnapshot (persister rf') = Some [5]
     else rf' = nodes s ! 0" by (elim exE conjE)
  have b: "b" using r(2) s(3) by simp
  with rf' have "commitIndex rf' = 4" by simp
  with s(1) r(1) b show ?thesis by (intro exI [of _ s] exI [of _ rf']) simp
qed

theorem applier_in_order_witness:
  "\<exists>s es. run 3 commit_trace = Inr s \<and> applier_take (nodes s ! 0) = Inr (Some (es, 1)) \<and> length es = 1"
proof -
  from commit_trace_node obtain s where s: "run 3 commit_trace = Inr s" "node_ok (nodes s ! 0)"
    "commitIndex (nodes s ! 0) = 1" "lastApplied (nodes s ! 0) = 0" "map Index (logs (nodes s ! 0)) = [0, 1]"
    by (elim exE conjE)
  from s(5) obtain e0 e1 where l: "logs (nodes s ! 0) = [e0, e1]" "Index e0 = 0" "Index e1 = 1"
    by (auto simp: map_eq_Cons_conv)
  have "first_index (logs (nodes s ! 0)) \<le> lastApplied (nodes s ! 0)"
    "lastApplied (nodes s ! 0) < commitIndex (nodes s ! 0)"
    "commitIndex (nodes s ! 0) \<le> Index (last (logs (nodes s ! 0)))"
    using s(3,4) by (simp_all add: l)
  from applier_in_order [OF s(2) this] obtain es where
    "applier_take (nodes s ! 0) = Inr (Some (es, commitIndex (nodes s ! 0)))"
    "int (length es) = commitIndex (nodes s ! 0) - lastApplied (nodes s ! 0)" by (elim exE conjE)
  with s(1,3,4) show ?thesis by (intro exI [of _ s] exI [of _ es]) simp
qed

section \<open>Where the group departs from the algorithm\<close>

text \<open>
  Node 0 leads term 3 and learns that node 1 holds its entries up to index 2 of an older log; later it leads term 5
  with these values of \<^verbatim>\<open>matchIndex\<close>, which nothing has reset.
\<close>

definition stale_match_trace :: "nat event list" where
  "stale_match_trace = [
     Timeout 0, DeliverVote 0, VoteReply 0 0, ClientStart 0 11, ClientStart 0 12,
     Timeout 2, Timeout 2, DeliverVote 5, VoteReply 1 0, ClientStart 2 20,
     Restart 0, Timeout 0, Timeout 0, DeliverVote 8, VoteReply 2 0,
     Replicate 0 1, Replicate 0 1, Replicate 0 2, DeliverAppend 0, DeliverAppend 1, DeliverAppend 2,
     AppendReply 0, Replicate 0 1, DeliverAppend 3, AppendReply 3, AppendReply 1, AppendReply 2,
     Timeout 2, DeliverVote 11, VoteReply 3 0, Replicate 2 1, Replicate 2 0, DeliverAppend 4, DeliverAppend 5,
     Timeout 0, DeliverVote 12, VoteReply 4 0, Replicate 0 2, DeliverAppend 6, ClientStart 0 30, AppendReply 6,
     Apply 0,
     Timeout 1, DeliverVote 15, VoteReply 5 0, ClientStart 1 40, Replicate 1 2, DeliverAppend 7, AppendReply 7,
     Apply 1]"


definition stale_next_trace :: "nat event list" where
  "stale_next_trace = [
     Timeout 0, DeliverVote 0, VoteReply 0 0, ClientStart 0 11, ClientStart 0 12,
     Timeout 2, Timeout 2, DeliverVote 5, VoteReply 1 0, ClientStart 2 20,
     Restart 0, Replicate 2 0, DeliverAppend 0, Timeout 0, DeliverVote 7, VoteReply 2 0]"


end
