(* ===== verification/Raft_Gradient.thy ===== *)
theory Raft_Gradient
  imports Raft_Node "HOL-Library.AList"
begin

text \<open>
  The gradient extension of the Raft package (src/raft/gradient.go and the second half of
  src/raft/raft.go): workers submit gradients through \<^verbatim>\<open>Start\<close>, every node buffers the committed ones per batch,
  averages a batch once ten of them have arrived, and moves its model parameters.

  A Go map is an association list with distinct keys, in the order in which the loop of the code
  happens to visit it; the theorems that need it say that the order does not matter. The arithmetic of \<^verbatim>\<open>float32\<close> is
  the parameter \<open>F\<close>: no theorem uses a law of it. \<^verbatim>\<open>time.Now()\<close> is the argument \<open>now\<close>.
\<close>

record 'f float_ops =
  f_zero :: 'f
  f_add :: "'f \<Rightarrow> 'f \<Rightarrow> 'f"
  f_sub :: "'f \<Rightarrow> 'f \<Rightarrow> 'f"
  f_mul :: "'f \<Rightarrow> 'f \<Rightarrow> 'f"
  f_div :: "'f \<Rightarrow> 'f \<Rightarrow> 'f"
  f_of_nat :: "nat \<Rightarrow> 'f"

type_synonym 'f tensors = "(string \<times> 'f list) list"

record 'f GradientLog =
  gl_Epoch :: int
  WorkerID :: int
  gl_BatchID :: int
  gl_Gradients :: "'f tensors"
  gl_Timestamp :: int

record 'f AggregatedGradient =
  ag_Epoch :: int
  ag_BatchID :: int
  ag_Gradients :: "'f tensors"
  WorkerCount :: nat
  ag_Timestamp :: int

record 'f ModelState =
  ms_Epoch :: int
  Params :: "'f tensors"
  ms_Timestamp :: int

record 'f GradientManager =
  gradientBuffer :: "(int \<times> 'f GradientLog list) list"
  bufferSize :: nat
  currentModel :: "'f ModelState"
  learningRate :: 'f
  TotalGradients :: nat
  AggregatedBatches :: nat
  LastAggregation :: "int option" \<comment> \<open>\<open>None\<close> is the zero time\<close>

section \<open>The operations\<close>

definition NewGradientManager :: "'f \<Rightarrow> int \<Rightarrow> 'f GradientManager" where
  "NewGradientManager rate now =
     \<lparr>gradientBuffer = [], bufferSize = 10,
      currentModel = \<lparr>ms_Epoch = 0, Params = [], ms_Timestamp = now\<rparr>, learningRate = rate,
      TotalGradients = 0, AggregatedBatches = 0, LastAggregation = None\<rparr>"

text \<open>Reading a missing key gives the zero value, an empty slice.\<close>

definition lookup_slice :: "('k \<times> 'v list) list \<Rightarrow> 'k \<Rightarrow> 'v list" where
  "lookup_slice m k = (case map_of m k of None \<Rightarrow> [] | Some xs \<Rightarrow> xs)"

definition AddGradient :: "'f GradientManager \<Rightarrow> 'f GradientLog \<Rightarrow> 'f GradientManager \<times> bool" where
  "AddGradient gm grad =
     (let b = gl_BatchID grad;
          buf0 = (if map_of (gradientBuffer gm) b = None
                  then AList.update b [] (gradientBuffer gm) else gradientBuffer gm);
          buf = AList.update b (lookup_slice buf0 b @ [grad]) buf0;
          gm1 = gm\<lparr>gradientBuffer := buf, TotalGradients := TotalGradients gm + 1\<rparr>
      in (gm1, bufferSize gm \<le> length (lookup_slice buf b)))"

text \<open>The inner loop \<^verbatim>\<open>for i, val := range vals { acc[i] op= val }\<close>, which may run past the end of \<^verbatim>\<open>acc\<close>.\<close>

fun update_elems :: "('f \<Rightarrow> 'f \<Rightarrow> 'f) \<Rightarrow> 'f list \<Rightarrow> nat \<Rightarrow> 'f list \<Rightarrow> 'f list res" where
  "update_elems f acc i [] = Inr acc"
| "update_elems f acc i (v # vs) =
     bindR (index acc (int i)) (\<lambda>a.
     bindR (set_index acc (int i) (f a v)) (\<lambda>acc'. update_elems f acc' (Suc i) vs))"

text \<open>One iteration of the loop over the parameters of a map, for \<^verbatim>\<open>+=\<close> and for the step of the model.\<close>

definition merge_param ::
  "'f float_ops \<Rightarrow> ('f \<Rightarrow> 'f \<Rightarrow> 'f) \<Rightarrow> 'f tensors \<Rightarrow> string \<times> 'f list \<Rightarrow> 'f tensors res" where
  "merge_param F f m pv =
     (case pv of (p, vals) \<Rightarrow>
        let m1 = (if map_of m p = None
                  then AList.update p (replicate (length vals) (f_zero F)) m else m)
        in bindR (update_elems f (lookup_slice m1 p) 0 vals) (\<lambda>xs. Inr (AList.update p xs m1)))"

definition merge_tensors ::
  "'f float_ops \<Rightarrow> ('f \<Rightarrow> 'f \<Rightarrow> 'f) \<Rightarrow> 'f tensors \<Rightarrow> 'f tensors \<Rightarrow> 'f tensors res" where
  "merge_tensors F f m g = foldR (merge_param F f) m g"

definition AggregateGradients ::
  "'f float_ops \<Rightarrow> int \<Rightarrow> 'f GradientManager \<Rightarrow> int
     \<Rightarrow> ('f GradientManager \<times> 'f AggregatedGradient option) res" where
  "AggregateGradients F now gm batchID =
     (let gradients = lookup_slice (gradientBuffer gm) batchID
      in case gradients of
           [] \<Rightarrow> Inr (gm, None)
         | g0 # _ \<Rightarrow>
             bindR (foldR (\<lambda>m grad. merge_tensors F (f_add F) m (gl_Gradients grad)) [] gradients) (\<lambda>total.
               let mean = map (\<lambda>(p, xs). (p, map (\<lambda>x. f_div F x (f_of_nat F (length gradients))) xs)) total
               in Inr (gm\<lparr>gradientBuffer := AList.delete batchID (gradientBuffer gm),
                          AggregatedBatches := AggregatedBatches gm + 1, LastAggregation := Some now\<rparr>,
                       Some \<lparr>ag_Epoch = gl_Epoch g0, ag_BatchID = batchID, ag_Gradients = mean,
                             WorkerCount = length gradients, ag_Timestamp = now\<rparr>)))"

definition ApplyGradientToModel ::
  "'f float_ops \<Rightarrow> int \<Rightarrow> 'f GradientManager \<Rightarrow> 'f AggregatedGradient \<Rightarrow> 'f GradientManager res" where
  "ApplyGradientToModel F now gm agg =
     bindR (merge_tensors F (\<lambda>a g. f_sub F a (f_mul F (learningRate gm) g))
              (Params (currentModel gm)) (ag_Gradients agg)) (\<lambda>ps.
       Inr (gm\<lparr>currentModel := \<lparr>ms_Epoch = ag_Epoch agg, Params = ps, ms_Timestamp = now\<rparr>\<rparr>))"

definition GetModelState :: "'f float_ops \<Rightarrow> 'f GradientManager \<Rightarrow> 'f ModelState" where
  "GetModelState F gm =
     \<lparr>ms_Epoch = ms_Epoch (currentModel gm),
      Params = map (\<lambda>(p, xs). (p, copy_into (replicate (length xs) (f_zero F)) xs)) (Params (currentModel gm)),
      ms_Timestamp = ms_Timestamp (currentModel gm)\<rparr>"

record 'f gradient_stats =
  total_gradients :: nat
  aggregated_batches :: nat
  last_aggregation :: "int option"
  buffer_size :: nat
  current_epoch :: int
  learning_rate :: 'f

definition GetStats :: "'f GradientManager \<Rightarrow> 'f gradient_stats" where
  "GetStats gm =
     \<lparr>total_gradients = TotalGradients gm, aggregated_batches = AggregatedBatches gm,
      last_aggregation = LastAggregation gm, buffer_size = length (gradientBuffer gm),
      current_epoch = ms_Epoch (currentModel gm), learning_rate = learningRate gm\<rparr>"

text \<open>The manager of a node; \<open>None\<close> is a nil pointer.\<close>

definition GetGradientStats :: "'f GradientManager option \<Rightarrow> string + 'f gradient_stats" where
  "GetGradientStats gmo =
     (case gmo of None \<Rightarrow> Inl ''gradient manager not initialized'' | Some gm \<Rightarrow> Inr (GetStats gm))"

definition Raft_GetModelState :: "'f float_ops \<Rightarrow> 'f GradientManager option \<Rightarrow> 'f ModelState option" where
  "Raft_GetModelState F gmo = (case gmo of None \<Rightarrow> None | Some gm \<Rightarrow> Some (GetModelState F gm))"

definition handleGradientLog ::
  "'f float_ops \<Rightarrow> int \<Rightarrow> 'f GradientManager option \<Rightarrow> 'f GradientLog \<Rightarrow> 'f GradientManager option res" where
  "handleGradientLog F now gmo grad =
     (case gmo of
        None \<Rightarrow> Inr None
      | Some gm \<Rightarrow>
          (case AddGradient gm grad of (gm1, full) \<Rightarrow>
             if full
             then bindR (AggregateGradients F now gm1 (gl_BatchID grad)) (\<lambda>(gm2, agg).
                    case agg of
                      None \<Rightarrow> Inr (Some gm2)
                    | Some a \<Rightarrow> bindR (ApplyGradientToModel F now gm2 a) (\<lambda>gm3. Inr (Some gm3)))
             else Inr (Some gm1)))"

text \<open>A command of the log: a gradient or another value.\<close>

datatype ('f, 'a) command = Gradient "'f GradientLog" | Other 'a

definition SubmitGradient ::
  "('f, 'a) command Raft \<Rightarrow> 'f GradientLog
     \<Rightarrow> (('f, 'a) command Raft \<times> (int \<times> int \<times> bool) \<times> ('f, 'a) command effect list) res" where
  "SubmitGradient rf grad = Start rf (Some (Gradient grad))"

text \<open>The loop of the applier over the entries it took: the manager and the messages sent.\<close>

definition applier_entry ::
  "'f float_ops \<Rightarrow> int \<Rightarrow> 'f GradientManager option \<times> ('f, 'a) command ApplyMsg list
     \<Rightarrow> ('f, 'a) command LogEntry \<Rightarrow> ('f GradientManager option \<times> ('f, 'a) command ApplyMsg list) res" where
  "applier_entry F now st e =
     (case st of (gmo, msgs) \<Rightarrow>
        bindR (case Command e of Some (Gradient g) \<Rightarrow> handleGradientLog F now gmo g | _ \<Rightarrow> Inr gmo)
          (\<lambda>gmo'. Inr (gmo', msgs @ [command_msg e])))"

definition applier_send ::
  "'f float_ops \<Rightarrow> int \<Rightarrow> 'f GradientManager option \<Rightarrow> ('f, 'a) command LogEntry list
     \<Rightarrow> ('f GradientManager option \<times> ('f, 'a) command ApplyMsg list) res" where
  "applier_send F now gmo es = foldR (applier_entry F now) (gmo, []) es"

section \<open>The loops in closed form\<close>

definition combine :: "('f \<Rightarrow> 'f \<Rightarrow> 'f) \<Rightarrow> 'f list \<Rightarrow> 'f list \<Rightarrow> 'f list" where
  "combine f acc vals = map2 f acc vals @ drop (length vals) acc"

lemma length_combine [simp]: "length vals \<le> length acc \<Longrightarrow> length (combine f acc vals) = length acc"
  by (simp add: combine_def)

lemma nth_combine:
  "length vals \<le> length acc \<Longrightarrow> i < length vals \<Longrightarrow> combine f acc vals ! i = f (acc ! i) (vals ! i)"
  by (simp add: combine_def nth_append)

lemma update_elems_gen:
  "i \<le> length acc \<Longrightarrow> update_elems f acc i vals =
     (if i + length vals \<le> length acc then Inr (take i acc @ combine f (drop i acc) vals)
      else Inl IndexOutOfRange)"
proof (induction vals arbitrary: acc i)
  case Nil
  then show ?case by (simp add: combine_def)
next
  case (Cons v vs)
  show ?case
  proof (cases "i < length acc")
    case True
    then obtain a rest where d: "drop i acc = a # rest" "a = acc ! i" "rest = drop (Suc i) acc"
      by (metis Cons_nth_drop_Suc)
    with True Cons.IH [of "Suc i" "acc[i := f (acc ! i) v]"] show ?thesis
      by (simp add: set_index_def combine_def take_Suc_conv_app_nth)
  next
    case False
    then show ?thesis by (simp add: index_def)
  qed
qed

lemma update_elems_eq:
  "update_elems f acc 0 vals =
     (if length vals \<le> length acc then Inr (combine f acc vals) else Inl IndexOutOfRange)"
  by (simp add: update_elems_gen)

text \<open>The vector that a loop over a map leaves for one parameter, from the old one and the new values.\<close>

definition merged ::
  "'f float_ops \<Rightarrow> ('f \<Rightarrow> 'f \<Rightarrow> 'f) \<Rightarrow> 'f list option \<Rightarrow> 'f list option \<Rightarrow> 'f list option" where
  "merged F f old new =
     (case new of
        None \<Rightarrow> old
      | Some vals \<Rightarrow>
          Some (combine f (case old of None \<Rightarrow> replicate (length vals) (f_zero F) | Some xs \<Rightarrow> xs) vals))"

definition fits :: "'f list option \<Rightarrow> 'f list option \<Rightarrow> bool" where
  "fits old new \<longleftrightarrow> (\<forall>xs vals. old = Some xs \<longrightarrow> new = Some vals \<longrightarrow> length vals \<le> length xs)"

lemma fits_simps [simp]: "fits None new" "fits old None"
  "fits (Some xs) (Some vals) \<longleftrightarrow> length vals \<le> length xs"
  by (auto simp: fits_def)

lemma merged_None [simp]: "merged F f old None = old"
  by (simp add: merged_def)

lemma merge_param_eq:
  "\<exists>m'. merge_param F f m (p, vals) =
     (if fits (map_of m p) (Some vals) then Inr m' else Inl IndexOutOfRange) \<and>
     map_of m' = (map_of m)(p := merged F f (map_of m p) (Some vals)) \<and>
     (distinct (map fst m) \<longrightarrow> distinct (map fst m'))"
proof (cases "map_of m p")
  case None
  let ?m1 = "AList.update p (replicate (length vals) (f_zero F)) m"
  show ?thesis
    using None
    by (intro exI [of _ "AList.update p (combine f (replicate (length vals) (f_zero F)) vals) ?m1"])
      (simp add: merge_param_def lookup_slice_def update_conv' update_elems_eq merged_def
        distinct_update)
next
  case (Some xs)
  then show ?thesis
    by (intro exI [of _ "AList.update p (combine f xs vals) m"])
      (simp add: merge_param_def lookup_slice_def update_conv' update_elems_eq merged_def
        distinct_update)
qed

lemma merge_tensors_eq:
  assumes "distinct (map fst g)"
  shows "if \<forall>p. fits (map_of m p) (map_of g p)
    then \<exists>m'. merge_tensors F f m g = Inr m' \<and> map_of m' = (\<lambda>p. merged F f (map_of m p) (map_of g p)) \<and>
           (distinct (map fst m) \<longrightarrow> distinct (map fst m'))
    else merge_tensors F f m g = Inl IndexOutOfRange"
  using assms
proof (induction g arbitrary: m)
  case Nil
  then show ?case by (simp add: merge_tensors_def)
next
  case (Cons pv g)
  obtain p vals where pv: "pv = (p, vals)" by force
  obtain m1 where m1: "merge_param F f m (p, vals) =
      (if fits (map_of m p) (Some vals) then Inr m1 else Inl IndexOutOfRange)"
    "map_of m1 = (map_of m)(p := merged F f (map_of m p) (Some vals))"
    "distinct (map fst m) \<longrightarrow> distinct (map fst m1)"
    using merge_param_eq [of F f m p vals] by blast
  have g: "map_of g p = None" "distinct (map fst g)"
    using Cons.prems by (auto simp: pv map_of_eq_None_iff)
  show ?case
  proof (cases "fits (map_of m p) (Some vals)")
    case False
    then have "\<not> (\<forall>q. fits (map_of m q) (map_of (pv # g) q))" by (auto simp: pv)
    with False m1(1) show ?thesis by (simp add: merge_tensors_def pv)
  next
    case True
    have step: "merge_tensors F f m (pv # g) = merge_tensors F f m1 g"
      using True m1(1) by (simp add: merge_tensors_def pv)
    have all: "(\<forall>q. fits (map_of m q) (map_of (pv # g) q)) \<longleftrightarrow> (\<forall>q. fits (map_of m1 q) (map_of g q))"
      using True g(1) by (auto simp: pv m1(2))
    have mg: "(\<lambda>q. merged F f (map_of m1 q) (map_of g q)) = (\<lambda>q. merged F f (map_of m q) (map_of (pv # g) q))"
      using g(1) by (auto simp: pv m1(2))
    from Cons.IH [OF g(2), of m1] m1(3) show ?thesis unfolding step all mg by auto
  qed
qed

section \<open>The average of a batch\<close>

text \<open>All gradients of a batch have distinct keys and vectors of the same shape.\<close>

definition uniform :: "(string \<Rightarrow> nat option) \<Rightarrow> 'f tensors list \<Rightarrow> bool" where
  "uniform shape gs \<longleftrightarrow>
     (\<forall>g \<in> set gs. distinct (map fst g) \<and> (\<forall>p. map_option length (map_of g p) = shape p))"

definition column :: "'f tensors list \<Rightarrow> string \<Rightarrow> nat \<Rightarrow> 'f list" where
  "column gs p i = map (\<lambda>g. lookup_slice g p ! i) gs"

definition sums :: "'f float_ops \<Rightarrow> (string \<Rightarrow> 'f list option) \<Rightarrow> 'f tensors list \<Rightarrow> string \<Rightarrow> 'f list option" where
  "sums F m gs p =
     map_option (\<lambda>xs. map (\<lambda>i. foldl (f_add F) (xs ! i) (column gs p i)) [0..<length xs]) (m p)"

lemma sum_uniform:
  assumes "uniform shape gs" "\<And>p. map_option length (map_of m p) = shape p" "distinct (map fst m)"
  shows "\<exists>m'. foldR (merge_tensors F (f_add F)) m gs = Inr m' \<and> map_of m' = sums F (map_of m) gs \<and>
    distinct (map fst m')"
  using assms
proof (induction gs arbitrary: m)
  case Nil
  have "map_of m = sums F (map_of m) []"
    by (rule ext) (simp add: sums_def column_def map_nth option.map_ident)
  with Nil show ?case by simp
next
  case (Cons g gs)
  have g: "distinct (map fst g)" "\<And>p. map_option length (map_of g p) = shape p"
    using Cons.prems(1) by (auto simp: uniform_def)
  have len: "length vals = length xs" if "map_of m p = Some xs" "map_of g p = Some vals" for p xs vals
    using Cons.prems(2) [of p] g(2) [of p] that by simp (metis option.inject)
  then have fit: "\<forall>p. fits (map_of m p) (map_of g p)" by (simp add: fits_def)
  with merge_tensors_eq [OF g(1), of m F "f_add F"] Cons.prems(3) obtain m1 where
    m1: "merge_tensors F (f_add F) m g = Inr m1" "distinct (map fst m1)"
    "map_of m1 = (\<lambda>p. merged F (f_add F) (map_of m p) (map_of g p))" by auto
  have dom: "map_of m p = None \<longleftrightarrow> map_of g p = None" for p
    using Cons.prems(2) [of p] g(2) [of p] by (metis option.map_disc_iff)
  have shape1: "map_option length (map_of m1 p) = shape p" for p
    using Cons.prems(2) [of p] g(2) [of p] len dom [of p]
    by (auto simp: m1(3) merged_def split: option.splits)
  have "sums F (map_of m1) gs p = sums F (map_of m) (g # gs) p" for p
    using len [of p] dom [of p]
    by (auto simp: sums_def m1(3) merged_def column_def lookup_slice_def nth_combine split: option.splits)
  then have eq: "sums F (map_of m1) gs = sums F (map_of m) (g # gs)" by (rule ext)
  have "uniform shape gs" using Cons.prems(1) by (simp add: uniform_def)
  from Cons.IH [OF this shape1 m1(2)] show ?case using m1(1) eq by simp
qed

lemma sum_uniform_start:
  assumes "uniform shape (g # gs)"
  shows "\<exists>m'. foldR (merge_tensors F (f_add F)) [] (g # gs) = Inr m' \<and> distinct (map fst m') \<and>
    (\<forall>p. map_of m' p = map_option (\<lambda>n. map (\<lambda>i. foldl (f_add F) (f_zero F) (column (g # gs) p i)) [0..<n]) (shape p))"
proof -
  have g: "distinct (map fst g)" "\<And>p. map_option length (map_of g p) = shape p"
    using assms by (auto simp: uniform_def)
  from merge_tensors_eq [OF g(1), of "[]" F "f_add F"] obtain m1 where
    m1: "merge_tensors F (f_add F) [] g = Inr m1" "distinct (map fst m1)"
    "map_of m1 = (\<lambda>p. merged F (f_add F) None (map_of g p))" by auto
  have shape1: "map_option length (map_of m1 p) = shape p" for p
    using g(2) [of p] by (auto simp: m1(3) merged_def split: option.splits)
  have "uniform shape gs" using assms by (simp add: uniform_def)
  from sum_uniform [OF this shape1 m1(2), of F] obtain m' where
    m': "foldR (merge_tensors F (f_add F)) m1 gs = Inr m'" "map_of m' = sums F (map_of m1) gs" "distinct (map fst m')"
    by blast
  have "map_of m' p =
      map_option (\<lambda>n. map (\<lambda>i. foldl (f_add F) (f_zero F) (column (g # gs) p i)) [0..<n]) (shape p)" for p
    by (auto simp: g(2) [symmetric] m'(2) sums_def m1(3) merged_def column_def lookup_slice_def nth_combine
        split: option.splits)
  with m1(1) m'(1,3) show ?thesis by simp
qed

lemma foldR_map: "foldR f s (map g xs) = foldR (\<lambda>s x. f s (g x)) s xs"
  by (induction xs arbitrary: s) (auto intro: bindR_cong)

text \<open>
  C28. The average of a batch: when all gradients of a batch have the same parameters and shapes,
  aggregating does not panic and gives, for every parameter and position, the sum over the
  gradients in the order in which they were committed, divided by their number; the batch leaves the buffer
  and is counted.
\<close>

theorem AggregateGradients_average:
  assumes "gs = lookup_slice (gradientBuffer gm) b" "gs \<noteq> []" "uniform shape (map gl_Gradients gs)"
  shows "\<exists>gm' a. AggregateGradients F now gm b = Inr (gm', Some a) \<and>
    (\<forall>p. map_of (ag_Gradients a) p = map_option (\<lambda>n. map (\<lambda>i.
        f_div F (foldl (f_add F) (f_zero F) (column (map gl_Gradients gs) p i)) (f_of_nat F (length gs))) [0..<n]) (shape p)) \<and>
    WorkerCount a = length gs \<and> ag_Epoch a = gl_Epoch (hd gs) \<and>
    map_of (gradientBuffer gm') = (map_of (gradientBuffer gm))(b := None) \<and>
    AggregatedBatches gm' = AggregatedBatches gm + 1 \<and> currentModel gm' = currentModel gm"
proof -
  obtain g rest where gs: "gs = g # rest" using assms(2) by (cases gs) auto
  from sum_uniform_start [of shape "gl_Gradients g" "map gl_Gradients rest" F] assms(3) gs obtain m' where
    m': "foldR (merge_tensors F (f_add F)) [] (map gl_Gradients gs) = Inr m'"
    "\<And>p. map_of m' p = map_option (\<lambda>n. map (\<lambda>i. foldl (f_add F) (f_zero F)
       (column (map gl_Gradients gs) p i)) [0..<n]) (shape p)" by auto
  have "map_of (map (\<lambda>(p, xs). (p, h xs)) m') p = map_option h (map_of m' p)" for h :: "'a list \<Rightarrow> 'a list" and p
    by (simp add: map_of_map)
  moreover have "foldR (\<lambda>m grad. merge_tensors F (f_add F) m (gl_Gradients grad)) [] (g # rest) = Inr m'"
    using m'(1) by (simp only: foldR_map gs)
  ultimately show ?thesis
    unfolding AggregateGradients_def assms(1) [symmetric] Let_def
    by (simp add: gs m'(2) option.map_comp o_def delete_conv' del: foldR.simps)
qed

text \<open>Integers in place of floating point numbers, for the examples.\<close>

definition int_ops :: "int float_ops" where
  "int_ops = \<lparr>f_zero = 0, f_add = (+), f_sub = (-), f_mul = (*), f_div = (div), f_of_nat = int\<rparr>"

definition sample_log :: "int \<Rightarrow> int list \<Rightarrow> int GradientLog" where
  "sample_log w xs = \<lparr>gl_Epoch = 1, WorkerID = w, gl_BatchID = 1, gl_Gradients = [(''w'', xs)], gl_Timestamp = 0\<rparr>"

definition sample_manager :: "int GradientLog list \<Rightarrow> int GradientManager" where
  "sample_manager gs = (NewGradientManager 1 0)\<lparr>gradientBuffer := [(1, gs)]\<rparr>"

theorem AggregateGradients_average_witness:
  "\<exists>gm' a. AggregateGradients int_ops 5 (sample_manager [sample_log 0 [2, 4], sample_log 1 [4, 10]]) 1 = Inr (gm', Some a) \<and>
     map_of (ag_Gradients a) ''w'' = Some [3, 7]"
proof -
  let ?gs = "[sample_log 0 [2, 4], sample_log 1 [4, 10]]"
  let ?shape = "\<lambda>p. if p = ''w'' then Some (2::nat) else None"
  have "?gs = lookup_slice (gradientBuffer (sample_manager ?gs)) 1"
    by (simp add: sample_manager_def lookup_slice_def)
  moreover have "uniform ?shape (map gl_Gradients ?gs)" by (simp add: uniform_def sample_log_def)
  ultimately obtain gm' a where r: "AggregateGradients int_ops 5 (sample_manager ?gs) 1 = Inr (gm', Some a)"
    "\<forall>p. map_of (ag_Gradients a) p = map_option (\<lambda>n. map (\<lambda>i.
        f_div int_ops (foldl (f_add int_ops) (f_zero int_ops) (column (map gl_Gradients ?gs) p i))
          (f_of_nat int_ops (length ?gs))) [0..<n]) (?shape p)"
    using AggregateGradients_average [of ?gs "sample_manager ?gs" 1 ?shape int_ops 5] by blast
  from r(2) [rule_format, of "''w''"] have "map_of (ag_Gradients a) ''w'' = Some [3, 7]"
    by (simp add: int_ops_def column_def lookup_slice_def sample_log_def upt_rec)
  with r(1) show ?thesis by blast
qed

text \<open>
  A worker can stop the whole group: when a later gradient of a batch has a longer vector for some
  parameter than the first gradient that mentions it, aggregating the batch panics with an index out of range. The
  handler runs in the applier of every node, on the same committed entries.
\<close>

lemma AggregateGradients_longer_vector_panics:
  assumes "lookup_slice (gradientBuffer gm) b = [g1, g2]"
    "distinct (map fst (gl_Gradients g1))" "distinct (map fst (gl_Gradients g2))"
    "map_of (gl_Gradients g1) p = Some xs" "map_of (gl_Gradients g2) p = Some ys" "length xs < length ys"
  shows "AggregateGradients F now gm b = Inl IndexOutOfRange"
proof -
  from merge_tensors_eq [OF assms(2), of "[]" F "f_add F"] obtain m1 where
    m1: "merge_tensors F (f_add F) [] (gl_Gradients g1) = Inr m1"
    "map_of m1 = (\<lambda>p. merged F (f_add F) None (map_of (gl_Gradients g1) p))" by auto
  have "length (combine (f_add F) (replicate (length xs) (f_zero F)) xs) = length xs" by simp
  then have "\<not> fits (map_of m1 p) (map_of (gl_Gradients g2) p)"
    using assms(4-6) by (simp add: m1(2) merged_def)
  then have "\<not> (\<forall>q. fits (map_of m1 q) (map_of (gl_Gradients g2) q))" by blast
  with merge_tensors_eq [OF assms(3), of m1 F "f_add F"]
  have "merge_tensors F (f_add F) m1 (gl_Gradients g2) = Inl IndexOutOfRange" by simp
  with m1(1) assms(1) show ?thesis by (simp add: AggregateGradients_def Let_def)
qed

section \<open>Invariant of the manager\<close>

definition buffered :: "'f GradientManager \<Rightarrow> nat" where
  "buffered gm = sum_list (map (\<lambda>(b, gs). length gs) (gradientBuffer gm))"

definition gm_inv :: "'f GradientManager \<Rightarrow> bool" where
  "gm_inv gm \<longleftrightarrow> bufferSize gm = 10 \<and> distinct (map fst (gradientBuffer gm)) \<and>
     (\<forall>(b, gs) \<in> set (gradientBuffer gm). gs \<noteq> [] \<and> length gs < 10 \<and> (\<forall>g \<in> set gs. gl_BatchID g = b)) \<and>
     TotalGradients gm = 10 * AggregatedBatches gm + buffered gm"

lemma sum_list_update:
  assumes "distinct (map fst m)"
  shows "sum_list (map (\<lambda>(b, gs). length gs) (AList.update b gs m)) + length (lookup_slice m b) =
    sum_list (map (\<lambda>(b, gs). length gs) m) + length gs"
  using assms
  by (induction m) (auto simp: lookup_slice_def map_of_eq_None_iff image_iff split: option.splits)

lemma sum_list_delete:
  assumes "distinct (map fst m)"
  shows "sum_list (map (\<lambda>(b, gs). length gs) (AList.delete b m)) + length (lookup_slice m b) =
    sum_list (map (\<lambda>(b, gs). length gs) m)"
  using assms
proof (induction m)
  case (Cons x m)
  obtain c gs where x: "x = (c, gs)" by force
  show ?case
  proof (cases "c = b")
    case True
    with Cons.prems have "b \<notin> fst ` set m" by (auto simp: x)
    then have "AList.delete b m = m" by (simp add: delete_id)
    with True show ?thesis by (simp add: x lookup_slice_def)
  next
    case False
    with Cons show ?thesis by (simp add: x lookup_slice_def)
  qed
qed (simp add: lookup_slice_def)

lemma AddGradient_eq:
  fixes grad :: "'f GradientLog"
  assumes "gm_inv gm"
  defines "b \<equiv> gl_BatchID grad"
  defines "gs \<equiv> lookup_slice (gradientBuffer gm) b @ [grad]"
  shows "\<exists>gm1. AddGradient gm grad = (gm1, length gs = 10) \<and> distinct (map fst (gradientBuffer gm1)) \<and>
    map_of (gradientBuffer gm1) = (map_of (gradientBuffer gm))(b \<mapsto> gs) \<and>
    TotalGradients gm1 = TotalGradients gm + 1 \<and> buffered gm1 = buffered gm + 1 \<and>
    AggregatedBatches gm1 = AggregatedBatches gm \<and> bufferSize gm1 = 10 \<and> currentModel gm1 = currentModel gm \<and>
    learningRate gm1 = learningRate gm \<and> length gs \<le> 10"
proof -
  let ?m = "gradientBuffer gm"
  let ?init = "if map_of ?m b = None then AList.update b [] ?m else ?m"
  have d: "distinct (map fst ?m)" and sz: "bufferSize gm = 10" using assms(1) by (auto simp: gm_inv_def)
  have d0: "distinct (map fst ?init)" using d by (simp add: distinct_update)
  have l0: "lookup_slice ?init b = lookup_slice ?m b" by (simp add: lookup_slice_def update_conv')
  have s0: "sum_list (map (\<lambda>(b, gs). length gs) ?init) = buffered gm"
    using sum_list_update [OF d, of b "[]"] by (auto simp: buffered_def lookup_slice_def)
  let ?upd = "AList.update b gs ?init"
  have mo: "map_of ?upd = (map_of ?m)(b \<mapsto> gs)" by (auto simp: update_conv')
  have sum: "sum_list (map (\<lambda>(b, gs). length gs) ?upd) = buffered gm + 1"
    using sum_list_update [OF d0, of b gs] s0 l0 by (simp add: gs_def)
  have "length (lookup_slice ?m b) < 10"
  proof (cases "map_of ?m b")
    case (Some x)
    then have "(b, x) \<in> set ?m" by (rule map_of_SomeD)
    with assms(1) Some show ?thesis by (auto simp: gm_inv_def lookup_slice_def)
  qed (simp add: lookup_slice_def)
  then have len: "length gs \<le> 10" by (simp add: gs_def)
  have "AddGradient gm grad = (gm\<lparr>gradientBuffer := ?upd, TotalGradients := TotalGradients gm + 1\<rparr>,
      bufferSize gm \<le> length (lookup_slice ?upd b))"
    by (simp add: AddGradient_def Let_def b_def [symmetric] l0 gs_def)
  with len d0 mo sum sz show ?thesis
    by (simp add: lookup_slice_def distinct_update buffered_def)
qed

lemma distinct_map_of: "distinct (map fst m) \<Longrightarrow> (k, v) \<in> set m \<longleftrightarrow> map_of m k = Some v"
  by (auto intro: map_of_SomeD)

lemma gm_invI:
  assumes "bufferSize gm = 10" "distinct (map fst (gradientBuffer gm))"
    "\<And>b gs. map_of (gradientBuffer gm) b = Some gs \<Longrightarrow>
       gs \<noteq> [] \<and> length gs < 10 \<and> (\<forall>g \<in> set gs. gl_BatchID g = b)"
    "TotalGradients gm = 10 * AggregatedBatches gm + buffered gm"
  shows "gm_inv gm"
  unfolding gm_inv_def
proof (intro conjI ballI)
  fix x assume "x \<in> set (gradientBuffer gm)"
  then have "map_of (gradientBuffer gm) (fst x) = Some (snd x)"
    using assms(2) distinct_map_of [of "gradientBuffer gm" "fst x" "snd x"] by simp
  from assms(3) [OF this] show "case x of (b, gs) \<Rightarrow> gs \<noteq> [] \<and> length gs < 10 \<and> (\<forall>g\<in>set gs. gl_BatchID g = b)"
    by (cases x) simp
qed (use assms in simp_all)

lemma gm_invD:
  assumes "gm_inv gm" "map_of (gradientBuffer gm) b = Some gs"
  shows "gs \<noteq> [] \<and> length gs < 10 \<and> (\<forall>g \<in> set gs. gl_BatchID g = b)"
  using assms map_of_SomeD [OF assms(2)] unfolding gm_inv_def by blast

lemma merge_tensors_panic: "merge_tensors F f m g = Inl p \<Longrightarrow> p = IndexOutOfRange"
  unfolding merge_tensors_def
proof (induction g arbitrary: m)
  case (Cons pv g)
  obtain q vals where pv: "pv = (q, vals)" by force
  from Cons show ?case
    using merge_param_eq [of F f m q vals] by (auto simp: pv bindR_eq_Inl_iff split: if_splits)
qed simp

lemma aggregate_panic:
  "foldR (\<lambda>m grad. merge_tensors F f m (gl_Gradients grad)) m gs = Inl p \<Longrightarrow> p = IndexOutOfRange"
  by (induction gs arbitrary: m) (auto simp: bindR_eq_Inl_iff dest: merge_tensors_panic)

lemma gm_inv_model [simp]: "gm_inv (gm\<lparr>currentModel := c\<rparr>) = gm_inv gm"
  by (simp add: gm_inv_def buffered_def)

lemma handleGradientLog_inv:
  assumes "gm_inv gm"
  shows "case handleGradientLog F now (Some gm) grad of
      Inl p \<Rightarrow> p = IndexOutOfRange
    | Inr gmo \<Rightarrow> \<exists>gm'. gmo = Some gm' \<and> gm_inv gm' \<and> TotalGradients gm' = TotalGradients gm + 1"
proof -
  let ?b = "gl_BatchID grad"
  let ?gs = "lookup_slice (gradientBuffer gm) ?b @ [grad]"
  obtain gm1 where a: "AddGradient gm grad = (gm1, length ?gs = 10)" "distinct (map fst (gradientBuffer gm1))"
    "map_of (gradientBuffer gm1) = (map_of (gradientBuffer gm))(?b \<mapsto> ?gs)"
    "TotalGradients gm1 = TotalGradients gm + 1" "buffered gm1 = buffered gm + 1"
    "AggregatedBatches gm1 = AggregatedBatches gm" "bufferSize gm1 = 10" "length ?gs \<le> 10"
    using AddGradient_eq [OF assms, of grad] by blast
  have tot: "TotalGradients gm = 10 * AggregatedBatches gm + buffered gm" using assms by (simp add: gm_inv_def)
  have ids: "\<forall>g \<in> set ?gs. gl_BatchID g = ?b"
    using gm_invD [OF assms, of ?b] by (cases "map_of (gradientBuffer gm) ?b") (auto simp: lookup_slice_def)
  show ?thesis
  proof (cases "length ?gs = 10")
    case False
    with a(8) have "length ?gs < 10" by simp
    have "gm_inv gm1"
    proof (rule gm_invI)
      show "gs \<noteq> [] \<and> length gs < 10 \<and> (\<forall>g \<in> set gs. gl_BatchID g = b)"
        if "map_of (gradientBuffer gm1) b = Some gs" for b gs
      proof (cases "b = ?b")
        case True
        then have "gs = ?gs" using that by (simp add: a(3))
        then show ?thesis using \<open>length ?gs < 10\<close> ids unfolding True by blast
      next
        case False
        then show ?thesis using that gm_invD [OF assms, of b gs] by (simp add: a(3))
      qed
    qed (use a tot in simp_all)
    with False a(1,4) show ?thesis by (simp add: handleGradientLog_def)
  next
    case True
    have look: "lookup_slice (gradientBuffer gm1) ?b = ?gs" by (simp add: lookup_slice_def a(3))
    show ?thesis
    proof (cases "AggregateGradients F now gm1 ?b")
      case (Inl p)
      then have "p = IndexOutOfRange"
        unfolding AggregateGradients_def look Let_def
        by (auto simp: bindR_eq_Inl_iff split: list.splits dest: aggregate_panic merge_tensors_panic)
      with Inl True a(1) show ?thesis by (simp add: handleGradientLog_def)
    next
      case (Inr r)
      then obtain gm2 agg where r: "r = (gm2, Some agg)" and gm2: "gm2 = gm1\<lparr>gradientBuffer := AList.delete ?b (gradientBuffer gm1),
          AggregatedBatches := AggregatedBatches gm1 + 1, LastAggregation := Some now\<rparr>"
        unfolding AggregateGradients_def look Let_def by (auto split: list.splits)
      have "buffered gm2 + 10 = buffered gm1"
        using sum_list_delete [OF a(2), of ?b] look True by (simp add: buffered_def gm2)
      with a tot have "TotalGradients gm2 = 10 * AggregatedBatches gm2 + buffered gm2" by (simp add: gm2)
      then have inv: "gm_inv gm2"
      proof (rule gm_invI [rotated 3])
        show "gs \<noteq> [] \<and> length gs < 10 \<and> (\<forall>g \<in> set gs. gl_BatchID g = b)"
          if "map_of (gradientBuffer gm2) b = Some gs" for b gs
          using that gm_invD [OF assms, of b gs] by (auto simp: gm2 delete_conv' a(3) split: if_splits)
      qed (use a in \<open>simp_all add: gm2 distinct_delete\<close>)
      show ?thesis
      proof (cases "ApplyGradientToModel F now gm2 agg")
        case (Inl p)
        then have "p = IndexOutOfRange"
          by (auto simp: ApplyGradientToModel_def bindR_eq_Inl_iff dest: merge_tensors_panic)
        with Inl Inr r True a(1) show ?thesis by (simp add: handleGradientLog_def)
      next
        case App: (Inr gm3)
        then obtain c where "gm3 = gm2\<lparr>currentModel := c\<rparr>" by (auto simp: ApplyGradientToModel_def)
        with inv App Inr r True a(1,4) show ?thesis by (simp add: handleGradientLog_def gm2)
      qed
    qed
  qed
qed

definition handle_all ::
  "'f float_ops \<Rightarrow> 'f GradientManager option \<Rightarrow> (int \<times> 'f GradientLog) list \<Rightarrow> 'f GradientManager option res" where
  "handle_all F gmo glogs = foldR (\<lambda>g (now, grad). handleGradientLog F now g grad) gmo glogs"


section \<open>Replicas\<close>

text \<open>The state of a manager without the clock readings in it.\<close>

definition untimed :: "'f GradientManager \<Rightarrow> 'f GradientManager" where
  "untimed gm = gm\<lparr>currentModel := (currentModel gm)\<lparr>ms_Timestamp := 0\<rparr>, LastAggregation := None\<rparr>"

definition untimed_res :: "'f GradientManager option res \<Rightarrow> 'f GradientManager option res" where
  "untimed_res r = map_sum id (map_option untimed) r"

definition retimed :: "'f GradientManager \<Rightarrow> int \<Rightarrow> int option \<Rightarrow> 'f GradientManager" where
  "retimed gm t l = gm\<lparr>currentModel := (currentModel gm)\<lparr>ms_Timestamp := t\<rparr>, LastAggregation := l\<rparr>"

lemma untimed_eq_iff: "untimed gm = untimed gm' \<longleftrightarrow> (\<exists>t l. gm' = retimed gm t l)"
proof
  assume "untimed gm = untimed gm'"
  then have "gm' = retimed gm (ms_Timestamp (currentModel gm')) (LastAggregation gm')"
    by (cases gm; cases gm'; cases "currentModel gm"; cases "currentModel gm'")
      (simp add: untimed_def retimed_def)
  then show "\<exists>t l. gm' = retimed gm t l" by blast
qed (auto simp: untimed_def retimed_def)

lemma AddGradient_retimed:
  "AddGradient (retimed gm t l) grad = (case AddGradient gm grad of (gm1, b) \<Rightarrow> (retimed gm1 t l, b))"
  by (simp add: AddGradient_def Let_def retimed_def)

lemma AggregateGradients_retimed:
  "AggregateGradients F now' (retimed gm t l) b =
     map_sum id (\<lambda>(gm1, agg). (if agg = None then retimed gm1 t l else retimed gm1 t (Some now'),
        map_option (\<lambda>a. a\<lparr>ag_Timestamp := now'\<rparr>) agg)) (AggregateGradients F now gm b)"
proof -
  let ?R = "foldR (\<lambda>m grad. merge_tensors F (f_add F) m (gl_Gradients grad)) [] (lookup_slice (gradientBuffer gm) b)"
  show ?thesis
    by (cases "lookup_slice (gradientBuffer gm) b"; cases ?R)
      (simp_all add: AggregateGradients_def Let_def retimed_def del: foldR.simps)
qed

lemma ApplyGradientToModel_retimed:
  "ApplyGradientToModel F now' (retimed gm t l) (a\<lparr>ag_Timestamp := u\<rparr>) =
     map_sum id (\<lambda>gm1. retimed gm1 now' l) (ApplyGradientToModel F now gm a)"
proof -
  let ?R = "merge_tensors F (\<lambda>a g. f_sub F a (f_mul F (learningRate gm) g)) (Params (currentModel gm)) (ag_Gradients a)"
  show ?thesis by (cases ?R) (simp_all add: ApplyGradientToModel_def retimed_def)
qed

lemma untimed_retimed [simp]: "untimed (retimed gm t l) = untimed gm"
  by (simp add: untimed_def retimed_def)

lemma handleGradientLog_untimed:
  assumes "untimed gm = untimed gm'"
  shows "untimed_res (handleGradientLog F now (Some gm) grad) = untimed_res (handleGradientLog F now' (Some gm') grad)"
proof -
  obtain t l where gm': "gm' = retimed gm t l" using assms by (auto simp: untimed_eq_iff)
  obtain gm1 full where add: "AddGradient gm grad = (gm1, full)" by force
  show ?thesis
  proof (cases full)
    case False
    then show ?thesis by (simp add: gm' handleGradientLog_def AddGradient_retimed add untimed_res_def)
  next
    case True
    note agg = AggregateGradients_retimed [of F now' gm1 t l "gl_BatchID grad" now]
    show ?thesis
    proof (cases "AggregateGradients F now gm1 (gl_BatchID grad)")
      case (Inl p)
      with True agg show ?thesis
        by (simp add: gm' handleGradientLog_def AddGradient_retimed add untimed_res_def)
    next
      case (Inr r)
      obtain gm2 ao where r: "r = (gm2, ao)" by force
      show ?thesis
      proof (cases ao)
        case None
        with True agg Inr r show ?thesis
          by (simp add: gm' handleGradientLog_def AddGradient_retimed add untimed_res_def)
      next
        case (Some a)
        with True agg Inr r ApplyGradientToModel_retimed [where now = now and a = a and gm = gm2 and F = F] show ?thesis
          by (cases "ApplyGradientToModel F now gm2 a")
            (simp_all add: gm' handleGradientLog_def AddGradient_retimed add untimed_res_def)
      qed
    qed
  qed
qed



section \<open>The demonstration program\<close>

text \<open>demo\_gradient.go: three workers submit gradients of one batch; \<open>lit\<close> are its literals in tenths.\<close>

definition demo_gradients :: "(nat \<Rightarrow> 'f) \<Rightarrow> int \<Rightarrow> 'f GradientLog list" where
  "demo_gradients lit now =
     map (\<lambda>w. \<lparr>gl_Epoch = 1, WorkerID = int w, gl_BatchID = 1,
        gl_Gradients = [(''weight1'', map lit [w + 1, w + 2, w + 3]), (''weight2'', map lit [w + 4, w + 5, w + 6])],
        gl_Timestamp = now\<rparr>) [0, 1, 2]"

definition demo_step :: "'f float_ops \<Rightarrow> int \<Rightarrow> 'f GradientManager \<Rightarrow> 'f GradientLog \<Rightarrow> 'f GradientManager res" where
  "demo_step F now gm grad =
     (case AddGradient gm grad of (gm1, shouldAggregate) \<Rightarrow>
        if shouldAggregate then
          bindR (AggregateGradients F now gm1 (gl_BatchID grad)) (\<lambda>(gm2, aggGrad).
            case aggGrad of None \<Rightarrow> Inr gm2 | Some a \<Rightarrow> ApplyGradientToModel F now gm2 a)
        else Inr gm1)"

text \<open>What the program prints at the end: the state of the model and the statistics.\<close>

definition demo_main :: "'f float_ops \<Rightarrow> (nat \<Rightarrow> 'f) \<Rightarrow> 'f \<Rightarrow> int \<Rightarrow> ('f ModelState \<times> 'f gradient_stats) res" where
  "demo_main F lit rate now =
     bindR (foldR (demo_step F now) (NewGradientManager rate now) (demo_gradients lit now)) (\<lambda>gm.
       Inr (GetModelState F gm, GetStats gm))"

text \<open>The demonstration never aggregates: three gradients do not fill a batch of ten, and the model it prints has no parameters.\<close>

lemma demo_never_aggregates:
  "\<exists>m st. demo_main F lit rate now = Inr (m, st) \<and> Params m = [] \<and> total_gradients st = 3 \<and> aggregated_batches st = 0"
  by (simp add: demo_main_def demo_gradients_def demo_step_def AddGradient_def NewGradientManager_def GetModelState_def GetStats_def
      lookup_slice_def Let_def)

end
