(* ===== verification/KVServer.thy ===== *)
theory KVServer
  imports Go_Prelude
begin

text \<open>
  The single-server key/value store of src/kvsrv: the handlers \<^verbatim>\<open>Get\<close>, \<^verbatim>\<open>Put\<close> and \<^verbatim>\<open>Append\<close> with their
  table of finished requests, and the clerk that repeats a call until it is answered and then confirms it.

  A handler releases its lock between the look into the table and the update. It is modelled by
  two functions, one per critical section, and \<open>thread\<close> is the state of a handler between them. A string
  that a map does not hold reads as the empty string.
\<close>

section \<open>The server\<close>

record KVServer =
  kvMap :: "string \<Rightarrow> string option"
  status :: "int \<Rightarrow> string option"

record GetArgs =
  ga_Key :: string
  ga_Id :: int
  ga_Confirm :: bool

record PutAppendArgs =
  pa_Key :: string
  pa_Value :: string
  pa_Id :: int
  pa_Confirm :: bool

definition StartKVServer :: KVServer where
  "StartKVServer = \<lparr>kvMap = (\<lambda>_. None), status = (\<lambda>_. None)\<rparr>"

definition read_key :: "KVServer \<Rightarrow> string \<Rightarrow> string" where
  "read_key kv k = (case kvMap kv k of None \<Rightarrow> '''' | Some v \<Rightarrow> v)"

definition forget :: "KVServer \<Rightarrow> int \<Rightarrow> KVServer" where
  "forget kv i = (if status kv i \<noteq> None then kv\<lparr>status := (status kv)(i := None)\<rparr> else kv)"

datatype thread =
    Replied string                \<comment> \<open>returned, with the value in the reply\<close>
  | GetWait GetArgs string        \<comment> \<open>read the value, waits for the write lock\<close>
  | PutWait PutAppendArgs
  | AppendWait PutAppendArgs

definition Get_begin :: "KVServer \<Rightarrow> GetArgs \<Rightarrow> KVServer \<times> thread" where
  "Get_begin kv args =
     (if ga_Confirm args then (forget kv (ga_Id args), Replied '''')
      else case status kv (ga_Id args) of
             Some v \<Rightarrow> (kv, Replied v)
           | None \<Rightarrow> (kv, GetWait args (read_key kv (ga_Key args))))"

definition Put_begin :: "KVServer \<Rightarrow> PutAppendArgs \<Rightarrow> KVServer \<times> thread" where
  "Put_begin kv args =
     (if pa_Confirm args then (forget kv (pa_Id args), Replied '''')
      else case status kv (pa_Id args) of
             Some v \<Rightarrow> (kv, Replied v)
           | None \<Rightarrow> (kv, PutWait args))"

definition Append_begin :: "KVServer \<Rightarrow> PutAppendArgs \<Rightarrow> KVServer \<times> thread" where
  "Append_begin kv args =
     (if pa_Confirm args then (forget kv (pa_Id args), Replied '''')
      else case status kv (pa_Id args) of
             Some v \<Rightarrow> (kv, Replied v)
           | None \<Rightarrow> (kv, AppendWait args))"

text \<open>The second critical section of each handler.\<close>

definition handler_end :: "KVServer \<Rightarrow> thread \<Rightarrow> KVServer \<times> thread" where
  "handler_end kv t =
     (case t of
        Replied v \<Rightarrow> (kv, Replied v)
      | GetWait args v \<Rightarrow> (kv\<lparr>status := (status kv)(ga_Id args \<mapsto> v)\<rparr>, Replied v)
      | PutWait args \<Rightarrow>
          let v = read_key kv (pa_Key args)
          in (kv\<lparr>kvMap := (kvMap kv)(pa_Key args \<mapsto> pa_Value args),
                 status := (status kv)(pa_Id args \<mapsto> v)\<rparr>, Replied v)
      | AppendWait args \<Rightarrow>
          let v = read_key kv (pa_Key args)
          in (kv\<lparr>kvMap := (kvMap kv)(pa_Key args \<mapsto> v @ pa_Value args),
                 status := (status kv)(pa_Id args \<mapsto> v)\<rparr>, Replied v))"

text \<open>The handlers when nothing runs in between: the new server and the value in the reply.\<close>

definition finish :: "KVServer \<times> thread \<Rightarrow> KVServer \<times> string" where
  "finish p = (case handler_end (fst p) (snd p) of (kv, t) \<Rightarrow> (kv, case t of Replied v \<Rightarrow> v | _ \<Rightarrow> ''''))"

definition Get :: "KVServer \<Rightarrow> GetArgs \<Rightarrow> KVServer \<times> string" where
  "Get kv args = finish (Get_begin kv args)"

definition Put :: "KVServer \<Rightarrow> PutAppendArgs \<Rightarrow> KVServer \<times> string" where
  "Put kv args = finish (Put_begin kv args)"

definition Append :: "KVServer \<Rightarrow> PutAppendArgs \<Rightarrow> KVServer \<times> string" where
  "Append kv args = finish (Append_begin kv args)"

section \<open>The clerk\<close>

text \<open>
  One attempt of \<^verbatim>\<open>ck.server.Call\<close>: the request is lost, the request is executed but the reply is lost,
  or the call succeeds. The reply is decoded into the variable of the earlier attempts, and \<^verbatim>\<open>gob\<close> does not
  transmit a zero value, so an empty string in the reply leaves that variable as it is.
\<close>

datatype attempt = LostRequest | LostReply | Delivered

definition decode_reply :: "string \<Rightarrow> string \<Rightarrow> string" where
  "decode_reply old new = (if new = '''' then old else new)"

text \<open>
  \<^verbatim>\<open>for !ok { ok = Call(...) }\<close>, with the fate of each attempt given in advance; \<open>None\<close> when the attempts run
  out before one succeeds.
\<close>

fun call_until ::
  "('s \<Rightarrow> 's \<times> string) \<Rightarrow> 's \<Rightarrow> string \<Rightarrow> attempt list
     \<Rightarrow> ('s \<times> string \<times> attempt list) option" where
  "call_until h kv reply [] = None"
| "call_until h kv reply (LostRequest # as) = call_until h kv reply as"
| "call_until h kv reply (LostReply # as) = call_until h (fst (h kv)) reply as"
| "call_until h kv reply (Delivered # as) =
     (case h kv of (kv', v) \<Rightarrow> Some (kv', decode_reply reply v, as))"

definition Clerk_Get :: "KVServer \<Rightarrow> int \<Rightarrow> string \<Rightarrow> attempt list \<Rightarrow> (KVServer \<times> string) option" where
  "Clerk_Get kv i key as =
     (let args = \<lparr>ga_Key = key, ga_Id = i, ga_Confirm = False\<rparr>
      in case call_until (\<lambda>s. Get s args) kv '''' as of
           None \<Rightarrow> None
         | Some (kv1, reply1, as1) \<Rightarrow>
             (case call_until (\<lambda>s. Get s (args\<lparr>ga_Confirm := True\<rparr>)) kv1 reply1 as1 of
                None \<Rightarrow> None
              | Some (kv2, reply2, as2) \<Rightarrow> Some (kv2, reply2)))"

datatype putappend = OpPut | OpAppend

definition call_op :: "putappend \<Rightarrow> KVServer \<Rightarrow> PutAppendArgs \<Rightarrow> KVServer \<times> string" where
  "call_op op kv args = (case op of OpPut \<Rightarrow> Put kv args | OpAppend \<Rightarrow> Append kv args)"

definition PutAppend ::
  "KVServer \<Rightarrow> int \<Rightarrow> string \<Rightarrow> string \<Rightarrow> putappend \<Rightarrow> attempt list \<Rightarrow> (KVServer \<times> string) option" where
  "PutAppend kv i key val op as =
     (let args = \<lparr>pa_Key = key, pa_Value = val, pa_Id = i, pa_Confirm = False\<rparr>
      in case call_until (\<lambda>s. call_op op s args) kv '''' as of
           None \<Rightarrow> None
         | Some (kv1, reply1, as1) \<Rightarrow>
             (case call_until (\<lambda>s. call_op op s (args\<lparr>pa_Confirm := True\<rparr>)) kv1 reply1 as1 of
                None \<Rightarrow> None
              | Some (kv2, reply2, as2) \<Rightarrow> Some (kv2, reply2)))"

definition Clerk_Put :: "KVServer \<Rightarrow> int \<Rightarrow> string \<Rightarrow> string \<Rightarrow> attempt list \<Rightarrow> KVServer option" where
  "Clerk_Put kv i key val as = map_option fst (PutAppend kv i key val OpPut as)"

definition Clerk_Append :: "KVServer \<Rightarrow> int \<Rightarrow> string \<Rightarrow> string \<Rightarrow> attempt list \<Rightarrow> (KVServer \<times> string) option" where
  "Clerk_Append kv i key val as = PutAppend kv i key val OpAppend as"

section \<open>Handlers in closed form\<close>

datatype request = RGet GetArgs | RPut PutAppendArgs | RAppend PutAppendArgs

fun serve :: "KVServer \<Rightarrow> request \<Rightarrow> KVServer \<times> string" where
  "serve kv (RGet a) = Get kv a"
| "serve kv (RPut a) = Put kv a"
| "serve kv (RAppend a) = Append kv a"

fun req_id :: "request \<Rightarrow> int" where
  "req_id (RGet a) = ga_Id a" | "req_id (RPut a) = pa_Id a" | "req_id (RAppend a) = pa_Id a"

fun req_confirm :: "request \<Rightarrow> bool" where
  "req_confirm (RGet a) = ga_Confirm a" | "req_confirm (RPut a) = pa_Confirm a"
| "req_confirm (RAppend a) = pa_Confirm a"

text \<open>What the request means on a plain map: the value it returns and the map after it.\<close>

type_synonym store = "string \<Rightarrow> string option"

definition look :: "store \<Rightarrow> string \<Rightarrow> string" where
  "look m k = (case m k of None \<Rightarrow> '''' | Some v \<Rightarrow> v)"

fun result :: "store \<Rightarrow> request \<Rightarrow> string" where
  "result m (RGet a) = look m (ga_Key a)"
| "result m (RPut a) = look m (pa_Key a)"
| "result m (RAppend a) = look m (pa_Key a)"

fun apply_op :: "store \<Rightarrow> request \<Rightarrow> store" where
  "apply_op m (RGet a) = m"
| "apply_op m (RPut a) = m(pa_Key a \<mapsto> pa_Value a)"
| "apply_op m (RAppend a) = m(pa_Key a \<mapsto> look m (pa_Key a) @ pa_Value a)"

lemma read_key_look: "read_key kv k = look (kvMap kv) k"
  by (simp add: read_key_def look_def)

lemma forget_eq: "forget kv i = kv\<lparr>status := (status kv)(i := None)\<rparr>"
  by (cases kv) (auto simp: forget_def)

lemmas handler_defs = Get_def Put_def Append_def finish_def Get_begin_def Put_begin_def Append_begin_def
  handler_end_def Let_def read_key_look

lemma serve_eq:
  "serve kv r =
     (if req_confirm r then (kv\<lparr>status := (status kv)(req_id r := None)\<rparr>, '''')
      else case status kv (req_id r) of
             Some v \<Rightarrow> (kv, v)
           | None \<Rightarrow> (kv\<lparr>kvMap := apply_op (kvMap kv) r,
                         status := (status kv)(req_id r \<mapsto> result (kvMap kv) r)\<rparr>, result (kvMap kv) r))"
  by (cases r) (auto simp: handler_defs forget_eq split: option.splits)

section \<open>Retrying\<close>

locale retryable =
  fixes h :: "'s \<Rightarrow> 's \<times> string"
  assumes repeat: "h (fst (h s)) = (fst (h s), snd (h s))"
begin

lemma call_until_done:
  assumes "Delivered \<in> set as"
  shows "call_until h s reply as =
    Some (fst (h s), decode_reply reply (snd (h s)), tl (dropWhile (\<lambda>a. a \<noteq> Delivered) as))"
  using assms
proof (induction as arbitrary: s)
  case (Cons a as)
  then show ?case
  proof (cases a)
    case LostReply
    then show ?thesis using Cons repeat [of s] by simp
  next
    case Delivered
    then show ?thesis by (simp add: case_prod_beta)
  qed simp
qed simp

end

lemma serve_repeat: "serve (fst (serve kv r)) r = (fst (serve kv r), snd (serve kv r))"
  by (simp add: serve_eq split: option.splits)

interpretation srv: retryable "\<lambda>kv. serve kv r" for r
  by unfold_locales (rule serve_repeat)

lemma call_op_serve: "call_op op kv a = serve kv (case op of OpPut \<Rightarrow> RPut a | OpAppend \<Rightarrow> RAppend a)"
  by (simp add: call_op_def split: putappend.splits)

lemma decode_reply_empty [simp]: "decode_reply r '''' = r" "decode_reply '''' v = v"
  by (simp_all add: decode_reply_def)

lemma delivered_rest:
  "2 \<le> count_list as Delivered \<Longrightarrow>
     Delivered \<in> set as \<and> Delivered \<in> set (tl (dropWhile (\<lambda>a. a \<noteq> Delivered) as))"
proof (induction as)
  case (Cons a as)
  have "Delivered \<in> set as" if "a = Delivered"
    using Cons.prems that by (cases "Delivered \<in> set as") simp_all
  with Cons show ?case by (cases "a = Delivered") auto
qed simp

lemma PutAppend_once:
  assumes "status kv i = None" "2 \<le> count_list as Delivered"
  shows "\<exists>kv'. PutAppend kv i key val op as = Some (kv', read_key kv key) \<and> status kv' = status kv \<and>
    kvMap kv' = (kvMap kv)(key \<mapsto> (case op of OpPut \<Rightarrow> val | OpAppend \<Rightarrow> read_key kv key @ val))"
proof -
  let ?a = "\<lparr>pa_Key = key, pa_Value = val, pa_Id = i, pa_Confirm = False\<rparr>"
  let ?r = "\<lambda>a. case op of OpPut \<Rightarrow> RPut a | OpAppend \<Rightarrow> RAppend a"
  let ?kv1 = "fst (serve kv (?r ?a))"
  note d = delivered_rest [OF assms(2)]
  have r: "req_id (?r a) = pa_Id a" "req_confirm (?r a) = pa_Confirm a"
    "result m (?r a) = look m (pa_Key a)" for a m
    by (simp_all split: putappend.splits)
  have "PutAppend kv i key val op as =
      Some (fst (serve ?kv1 (?r (?a\<lparr>pa_Confirm := True\<rparr>))),
        decode_reply (decode_reply [] (snd (serve kv (?r ?a)))) (snd (serve ?kv1 (?r (?a\<lparr>pa_Confirm := True\<rparr>)))))"
    unfolding PutAppend_def Let_def call_op_serve
    by (simp only: srv.call_until_done [OF conjunct1 [OF d]] srv.call_until_done [OF conjunct2 [OF d]]
        option.case prod.case)
  moreover have "serve kv (?r ?a) = (kv\<lparr>kvMap := apply_op (kvMap kv) (?r ?a),
      status := (status kv)(i \<mapsto> look (kvMap kv) key)\<rparr>, look (kvMap kv) key)"
    using assms(1) by (simp add: serve_eq r)
  moreover have "(status kv)(i := None) = status kv" using assms(1) by auto
  moreover have "apply_op (kvMap kv) (?r ?a) =
      (kvMap kv)(key \<mapsto> (case op of OpPut \<Rightarrow> val | OpAppend \<Rightarrow> read_key kv key @ val))"
    by (simp add: read_key_look split: putappend.splits)
  ultimately show ?thesis by (simp add: serve_eq r read_key_look)
qed

text \<open>
  C11. Exactly once: with a fresh request id, and however many requests and replies are lost, as soon as two
  attempts get through (one for the operation, one for the confirmation) \<^verbatim>\<open>PutAppend\<close> returns the value
  the key had before, the operation has been applied exactly once, and the server's table of requests is
  as it was before the call.
\<close>

theorem PutAppend_exactly_once:
  assumes "status kv i = None" "2 \<le> count_list as Delivered"
  shows "\<exists>kv'. PutAppend kv i key val op as = Some (kv', read_key kv key) \<and> status kv' = status kv \<and>
    kvMap kv' = (kvMap kv)(key \<mapsto> (case op of OpPut \<Rightarrow> val | OpAppend \<Rightarrow> read_key kv key @ val))"
  using assms by (rule PutAppend_once)

theorem PutAppend_exactly_once_witness:
  "\<exists>kv'. PutAppend StartKVServer 7 ''x'' ''a'' OpAppend [LostReply, LostReply, Delivered, LostRequest, Delivered] =
     Some (kv', '''') \<and> kvMap kv' ''x'' = Some ''a''"
proof -
  have "read_key StartKVServer ''x'' = ''''" by (simp add: read_key_def StartKVServer_def)
  with PutAppend_exactly_once [of StartKVServer 7 "[LostReply, LostReply, Delivered, LostRequest, Delivered]"
      "''x''" "''a''" OpAppend]
  show ?thesis by (auto simp: StartKVServer_def)
qed

section \<open>At most once, for all clients together\<close>

text \<open>
  Requests of many clients reach the server in some order, each possibly several times. A client repeats a
  request only before it confirms it.
\<close>

fun serve_all :: "KVServer \<Rightarrow> request list \<Rightarrow> KVServer \<times> string list" where
  "serve_all kv [] = (kv, [])"
| "serve_all kv (r # rs) =
     (case serve kv r of (kv1, v) \<Rightarrow> case serve_all kv1 rs of (kv2, vs) \<Rightarrow> (kv2, v # vs))"

fun confirmed_last :: "request list \<Rightarrow> bool" where
  "confirmed_last [] = True"
| "confirmed_last (r # rs) =
     ((req_confirm r \<longrightarrow> (\<forall>q \<in> set rs. req_id q = req_id r \<longrightarrow> req_confirm q)) \<and> confirmed_last rs)"

text \<open>
  The specification: a server that remembers every request for ever. It answers a repeated request with
  the remembered value, and applies every other one.
\<close>

fun spec_all :: "store \<Rightarrow> (int \<Rightarrow> string option) \<Rightarrow> request list \<Rightarrow> store \<times> string list" where
  "spec_all m memo [] = (m, [])"
| "spec_all m memo (r # rs) =
     (if req_confirm r then (case spec_all m memo rs of (m', vs) \<Rightarrow> (m', '''' # vs))
      else case memo (req_id r) of
             Some v \<Rightarrow> (case spec_all m memo rs of (m', vs) \<Rightarrow> (m', v # vs))
           | None \<Rightarrow> (case spec_all (apply_op m r) (memo(req_id r \<mapsto> result m r)) rs of
                       (m', vs) \<Rightarrow> (m', result m r # vs)))"

lemma serve_all_spec:
  assumes "confirmed_last rs"
    "\<And>r. r \<in> set rs \<Longrightarrow> \<not> req_confirm r \<Longrightarrow> status kv (req_id r) = memo (req_id r)"
  shows "(case serve_all kv rs of (kv', vs) \<Rightarrow> (kvMap kv', vs)) = spec_all (kvMap kv) memo rs"
  using assms
proof (induction rs arbitrary: kv memo)
  case (Cons r rs)
  show ?case
  proof (cases "req_confirm r")
    case True
    have "status (kv\<lparr>status := (status kv)(req_id r := None)\<rparr>) (req_id q) = memo (req_id q)"
      if "q \<in> set rs" "\<not> req_confirm q" for q
      using that Cons.prems True by auto
    with Cons.IH [of "kv\<lparr>status := (status kv)(req_id r := None)\<rparr>" memo] Cons.prems(1) True show ?thesis
      by (simp add: serve_eq case_prod_beta prod_eq_iff)
  next
    case False
    then have st: "status kv (req_id r) = memo (req_id r)" using Cons.prems(2) by simp
    show ?thesis
    proof (cases "memo (req_id r)")
      case (Some v)
      with st False Cons.IH [of kv memo] Cons.prems show ?thesis
        by (simp add: serve_eq case_prod_beta prod_eq_iff)
    next
      case None
      let ?kv = "kv\<lparr>kvMap := apply_op (kvMap kv) r, status := (status kv)(req_id r \<mapsto> result (kvMap kv) r)\<rparr>"
      have "status ?kv (req_id q) = (memo(req_id r \<mapsto> result (kvMap kv) r)) (req_id q)"
        if "q \<in> set rs" "\<not> req_confirm q" for q
        using that Cons.prems(2) [of q] by simp
      moreover have "confirmed_last rs" using Cons.prems(1) by simp
      ultimately have "(case serve_all ?kv rs of (kv', vs) \<Rightarrow> (kvMap kv', vs)) =
          spec_all (kvMap ?kv) (memo(req_id r \<mapsto> result (kvMap kv) r)) rs"
        by (intro Cons.IH)
      with None st False show ?thesis by (simp add: serve_eq case_prod_beta prod_eq_iff)
    qed
  qed
qed simp


definition sample_append :: "int \<Rightarrow> string \<Rightarrow> bool \<Rightarrow> request" where
  "sample_append i v c = RAppend \<lparr>pa_Key = ''x'', pa_Value = v, pa_Id = i, pa_Confirm = c\<rparr>"


section \<open>Two handlers of the same request at once\<close>

text \<open>
  The at-most-once table does not protect against overlapping duplicates: when a repeated
  \<^verbatim>\<open>Append\<close> starts before the first one has taken the write lock, both find no table entry and both
  append, so the value is appended twice.
\<close>

lemma overlapping_appends_apply_twice:
  assumes "\<not> pa_Confirm args" "status kv (pa_Id args) = None"
    "Append_begin kv args = (kv1, t1)" "Append_begin kv1 args = (kv2, t2)"
    "handler_end kv2 t1 = (kv3, r1)" "handler_end kv3 t2 = (kv4, r2)"
  shows "read_key kv4 (pa_Key args) = read_key kv (pa_Key args) @ pa_Value args @ pa_Value args"
proof -
  have "kv1 = kv" "t1 = AppendWait args" "kv2 = kv" "t2 = AppendWait args"
    using assms(1-4) by (auto simp: Append_begin_def)
  with assms(5,6) show ?thesis by (auto simp: handler_end_def Let_def read_key_look look_def)
qed

end
