(* ===== verification/LabRPC.thy ===== *)
theory LabRPC
  imports Go_Prelude
begin

text \<open>
  The simulated network src/labrpc/labrpc.go, over which the clients and servers of the repository talk: end points,
  servers with their services, and the life of a request.

  Names of end points and servers are values of type \<^verbatim>\<open>interface{}\<close>, of which the repository uses strings and integers; a connection to nil and a missing one are both \<open>None\<close>. Server objects live in a store and are
  compared by their address, as the code compares pointers. The package encoding/gob is a parameter, the record \<open>gob\<close>; a
  handler is a function of the state \<open>'w\<close> behind the services, the argument and the reply variable.
  \<^verbatim>\<open>processReq\<close> runs in a goroutine per request and starts another one for the handler; their steps that touch shared
  state are \<open>process_start\<close> (the information of the end point is read and the goroutine of the handler started),
  \<open>Server_dispatch\<close> (the handler runs, as one step), \<open>isServerDead\<close> (every 100 ms while \<^verbatim>\<open>processReq\<close> waits),
  \<open>process_end\<close> and the delivery of a delayed answer. The random numbers are arguments, and how long a delay lasts is left to
  the interleaving.

  The invariants of all interleavings are that a handler runs at most once per request, that a positive answer is its
  result, and that the counters count the requests; a positive answer is decided on only while the server is alive.
\<close>

section \<open>Services and servers\<close>

datatype iname = Str string | Num int

text \<open>
  encoding/gob, below labgob: the zero value of a type, what encoding a value writes and whether it succeeded, and what
  decoding leaves in a variable with the given contents and whether it succeeded.
\<close>

record 'v gob =
  zero :: "string \<Rightarrow> 'v"
  Encode :: "'v \<Rightarrow> 8 word list \<times> bool"
  Decode :: "'v \<Rightarrow> 8 word list \<Rightarrow> 'v \<times> bool"

type_synonym ('w, 'v) handler = "'w \<Rightarrow> 'v \<Rightarrow> 'v \<Rightarrow> 'w \<times> 'v"

record ('w, 'v) reflect_method =
  mname :: string
  PkgPath :: string
  NumIn :: nat
  in2_is_ptr :: bool
  in2_elem :: string
  NumOut :: nat
  Func :: "('w, 'v) handler"

text \<open>A method of a server type as reflection shows it: its name, its number of arguments with the receiver, its results, and its reply type.\<close>

definition go_method :: "string \<Rightarrow> nat \<Rightarrow> nat \<Rightarrow> string \<Rightarrow> ('w, 'v) handler \<Rightarrow> ('w, 'v) reflect_method" where
  "go_method name nin nout elem f =
     \<lparr>mname = name, PkgPath = [], NumIn = nin, in2_is_ptr = (nin = 3), in2_elem = elem, NumOut = nout, Func = f\<rparr>"

record ('w, 'v) Service =
  sname :: string
  methods :: "string \<rightharpoonup> ('w, 'v) reflect_method"

definition suitable :: "('w, 'v) reflect_method \<Rightarrow> bool" where
  "suitable m \<longleftrightarrow> \<not> (PkgPath m \<noteq> [] \<or> NumIn m \<noteq> 3 \<or> \<not> in2_is_ptr m \<or> NumOut m \<noteq> 0)"

definition MakeService :: "string \<Rightarrow> ('w, 'v) reflect_method list \<Rightarrow> ('w, 'v) Service" where
  "MakeService typename ms =
     \<lparr>sname = typename,
      methods = foldl (\<lambda>t m. if suitable m then t(mname m \<mapsto> m) else t) Map.empty ms\<rparr>"

record ('w, 'v) Server =
  services :: "string \<rightharpoonup> ('w, 'v) Service"
  s_count :: int

definition MakeServer :: "('w, 'v) Server" where
  "MakeServer = \<lparr>services = Map.empty, s_count = 0\<rparr>"

definition AddService :: "('w, 'v) Server \<Rightarrow> ('w, 'v) Service \<Rightarrow> ('w, 'v) Server" where
  "AddService rs svc = rs\<lparr>services := (services rs)(sname svc \<mapsto> svc)\<rparr>"

definition Server_GetCount :: "('w, 'v) Server \<Rightarrow> int" where
  "Server_GetCount rs = s_count rs"

record reqMsg =
  endname :: iname
  svcMeth :: string
  argsType :: string
  args :: "8 word list"

record replyMsg =
  ok :: bool
  reply :: "8 word list"

definition failure :: replyMsg where
  "failure = \<lparr>ok = False, reply = []\<rparr>"

definition Service_dispatch ::
  "'v gob \<Rightarrow> ('w, 'v) Service \<Rightarrow> string \<Rightarrow> reqMsg \<Rightarrow> 'w \<Rightarrow> ('w \<times> replyMsg) res" where
  "Service_dispatch G svc methname req w =
     (case methods svc methname of
        None \<Rightarrow> Inl (LogFatal ''labrpc.Service.dispatch(): unknown method'')
      | Some meth \<Rightarrow>
          (let a = fst (Decode G (zero G (argsType req)) (args req));
               replyv = zero G (in2_elem meth);
               (w', r) = Func meth w a replyv
           in Inr (w', \<lparr>ok = True, reply = fst (Encode G r)\<rparr>)))"

text \<open>\<^verbatim>\<open>strings.LastIndex(s, ".")\<close>\<close>

fun LastIndex :: "string \<Rightarrow> char \<Rightarrow> int" where
  "LastIndex [] c = -1"
| "LastIndex (x # xs) c = (let i = LastIndex xs c in if i \<ge> 0 then i + 1 else if x = c then 0 else -1)"

definition split_method :: "string \<Rightarrow> (string \<times> string) res" where
  "split_method s =
     (let dot = LastIndex s (CHR ''.'') in
      bindR (slice_to s dot) (\<lambda>serviceName. bindR (slice_from s (dot + 1)) (\<lambda>methodName. Inr (serviceName, methodName))))"

definition Server_dispatch ::
  "'v gob \<Rightarrow> ('w, 'v) Server \<Rightarrow> reqMsg \<Rightarrow> 'w \<Rightarrow> (('w, 'v) Server \<times> 'w \<times> replyMsg) res" where
  "Server_dispatch G rs req w =
     (let rs1 = rs\<lparr>s_count := s_count rs + 1\<rparr> in
      bindR (split_method (svcMeth req)) (\<lambda>(serviceName, methodName).
        case services rs1 serviceName of
          None \<Rightarrow> Inl (LogFatal ''labrpc.Server.dispatch(): unknown service'')
        | Some svc \<Rightarrow> bindR (Service_dispatch G svc methodName req w) (\<lambda>(w', r). Inr (rs1, w', r))))"

section \<open>The network\<close>

record Network =
  reliable :: bool
  longDelays :: bool
  longReordering :: bool
  ends :: "iname set"
  enabled :: "iname \<Rightarrow> bool"
  servers :: "iname \<Rightarrow> nat option"
  connections :: "iname \<Rightarrow> iname option"
  closed :: bool
  n_count :: "32 word"
  n_bytes :: "64 word"

definition MakeNetwork :: Network where
  "MakeNetwork = \<lparr>reliable = True, longDelays = False, longReordering = False, ends = {}, enabled = (\<lambda>_. False),
     servers = (\<lambda>_. None), connections = (\<lambda>_. None), closed = False, n_count = 0, n_bytes = 0\<rparr>"

definition Cleanup :: "Network \<Rightarrow> Network res" where
  "Cleanup rn = (if closed rn then Inl (ExplicitPanic ''close of closed channel'') else Inr (rn\<lparr>closed := True\<rparr>))"

definition Reliable :: "Network \<Rightarrow> bool \<Rightarrow> Network" where
  "Reliable rn yes = rn\<lparr>reliable := yes\<rparr>"

definition LongReordering :: "Network \<Rightarrow> bool \<Rightarrow> Network" where
  "LongReordering rn yes = rn\<lparr>longReordering := yes\<rparr>"

definition LongDelays :: "Network \<Rightarrow> bool \<Rightarrow> Network" where
  "LongDelays rn yes = rn\<lparr>longDelays := yes\<rparr>"

definition MakeEnd :: "Network \<Rightarrow> iname \<Rightarrow> Network res" where
  "MakeEnd rn e =
     (if e \<in> ends rn then Inl (LogFatal ''MakeEnd: already exists'')
      else Inr (rn\<lparr>ends := insert e (ends rn), enabled := (enabled rn)(e := False),
                   connections := (connections rn)(e := None)\<rparr>))"

definition DeleteEnd :: "Network \<Rightarrow> iname \<Rightarrow> Network res" where
  "DeleteEnd rn e =
     (if e \<notin> ends rn then Inl (LogFatal ''MakeEnd: does not exist'')
      else Inr (rn\<lparr>ends := ends rn - {e}, enabled := (enabled rn)(e := False),
                   connections := (connections rn)(e := None)\<rparr>))"

definition AddServer :: "Network \<Rightarrow> iname \<Rightarrow> nat \<Rightarrow> Network" where
  "AddServer rn s p = rn\<lparr>servers := (servers rn)(s := Some p)\<rparr>"

definition DeleteServer :: "Network \<Rightarrow> iname \<Rightarrow> Network" where
  "DeleteServer rn s = rn\<lparr>servers := (servers rn)(s := None)\<rparr>"

definition Connect :: "Network \<Rightarrow> iname \<Rightarrow> iname \<Rightarrow> Network" where
  "Connect rn e s = rn\<lparr>connections := (connections rn)(e := Some s)\<rparr>"

definition Enable :: "Network \<Rightarrow> iname \<Rightarrow> bool \<Rightarrow> Network" where
  "Enable rn e b = rn\<lparr>enabled := (enabled rn)(e := b)\<rparr>"

definition GetCount :: "Network \<Rightarrow> ('w, 'v) Server list \<Rightarrow> iname \<Rightarrow> int res" where
  "GetCount rn os s = (case servers rn s of None \<Rightarrow> Inl NilDereference | Some p \<Rightarrow> Inr (Server_GetCount (os ! p)))"

definition GetTotalCount :: "Network \<Rightarrow> int" where
  "GetTotalCount rn = sint (n_count rn)"

definition GetTotalBytes :: "Network \<Rightarrow> int" where
  "GetTotalBytes rn = sint (n_bytes rn)"

text \<open>The goroutine of \<^verbatim>\<open>MakeNetwork\<close> takes a request.\<close>

definition accept_req :: "Network \<Rightarrow> reqMsg \<Rightarrow> Network" where
  "accept_req rn req = rn\<lparr>n_count := n_count rn + 1, n_bytes := n_bytes rn + word_of_nat (length (args req))\<rparr>"

section \<open>The life of a request\<close>

definition readEndnameInfo :: "Network \<Rightarrow> iname \<Rightarrow> bool \<times> iname option \<times> nat option \<times> bool \<times> bool" where
  "readEndnameInfo rn e =
     (let sn = connections rn e
      in (enabled rn e, sn, (case sn of None \<Rightarrow> None | Some s \<Rightarrow> servers rn s), reliable rn, longReordering rn))"

definition isServerDead :: "Network \<Rightarrow> iname \<Rightarrow> iname \<Rightarrow> nat \<Rightarrow> bool" where
  "isServerDead rn e s p \<longleftrightarrow> enabled rn e = False \<or> servers rn s \<noteq> Some p"

text \<open>
  Where \<^verbatim>\<open>processReq\<close> is with a request: about to begin, waiting for the handler at server object \<open>p\<close>, done with the answer
  handed to a timer, or done with the answer sent. The flags are those that \<^verbatim>\<open>readEndnameInfo\<close> returned.
\<close>

datatype stage =
    Arrived
  | Waiting iname nat bool bool
  | Delayed replyMsg
  | Answered replyMsg

definition process_start :: "Network \<Rightarrow> reqMsg \<Rightarrow> bool \<Rightarrow> stage" where
  "process_start rn req lost =
     (case readEndnameInfo rn (endname req) of
        (en, Some s, Some p, rel, longr) \<Rightarrow>
          if en then (if rel = False \<and> lost then Answered failure else Waiting s p rel longr)
          else Delayed failure
      | _ \<Rightarrow> Delayed failure)"

text \<open>The answer is sent and its bytes counted; those of a failure, which the code does not count, are none.\<close>

definition send_reply :: "Network \<Rightarrow> replyMsg \<Rightarrow> Network" where
  "send_reply rn r = rn\<lparr>n_bytes := n_bytes rn + word_of_nat (length (reply r))\<rparr>"

text \<open>
  The last part of \<^verbatim>\<open>processReq\<close>, from the last call of \<^verbatim>\<open>isServerDead\<close> on. \<open>r\<close> is what came out of the channel of the
  handler, if anything.
\<close>

definition process_end ::
  "Network \<Rightarrow> reqMsg \<Rightarrow> iname \<Rightarrow> nat \<Rightarrow> bool \<Rightarrow> bool \<Rightarrow> replyMsg option \<Rightarrow> bool \<Rightarrow> bool \<Rightarrow> Network \<times> stage" where
  "process_end rn req s p rel longr r lost late =
     (let serverDead = isServerDead rn (endname req) s p in
      case r of
        None \<Rightarrow> (rn, Answered failure)
      | Some rep \<Rightarrow>
          if serverDead then (rn, Answered failure)
          else if rel = False \<and> lost then (rn, Answered failure)
          else if longr \<and> late then (rn, Delayed rep)
          else (send_reply rn rep, Answered rep))"

section \<open>All executions\<close>

text \<open>
  A request in flight: \<open>h_at\<close> is the server object whose handler goroutine has been started for it, \<open>results\<close> what that
  goroutine has returned so far.
\<close>

record request =
  msg :: reqMsg
  stg :: stage
  h_at :: "nat option"
  results :: "replyMsg list"

record ('w, 'v) system =
  net :: Network
  objs :: "('w, 'v) Server list"
  world :: 'w
  reqs :: "request list"

definition server_of :: "stage \<Rightarrow> nat option" where
  "server_of g = (case g of Waiting s p rel lr \<Rightarrow> Some p | _ \<Rightarrow> None)"

definition set_req :: "('w, 'v) system \<Rightarrow> nat \<Rightarrow> request \<Rightarrow> ('w, 'v) system" where
  "set_req s i r = s\<lparr>reqs := (reqs s)[i := r]\<rparr>"

text \<open>What the tests and the servers change outside of the requests, at any time.\<close>

inductive admin_step :: "('w, 'v) system \<Rightarrow> ('w, 'v) system \<Rightarrow> bool" where
  A_Cleanup: "Cleanup (net s) = Inr n \<Longrightarrow> admin_step s (s\<lparr>net := n\<rparr>)"
| A_Reliable: "admin_step s (s\<lparr>net := Reliable (net s) yes\<rparr>)"
| A_LongReordering: "admin_step s (s\<lparr>net := LongReordering (net s) yes\<rparr>)"
| A_LongDelays: "admin_step s (s\<lparr>net := LongDelays (net s) yes\<rparr>)"
| A_MakeEnd: "MakeEnd (net s) e = Inr n \<Longrightarrow> admin_step s (s\<lparr>net := n\<rparr>)"
| A_DeleteEnd: "DeleteEnd (net s) e = Inr n \<Longrightarrow> admin_step s (s\<lparr>net := n\<rparr>)"
| A_MakeServer: "admin_step s (s\<lparr>objs := objs s @ [MakeServer]\<rparr>)"
| A_AddService: "p < length (objs s) \<Longrightarrow> admin_step s (s\<lparr>objs := (objs s)[p := AddService (objs s ! p) svc]\<rparr>)"
| A_AddServer: "p < length (objs s) \<Longrightarrow> admin_step s (s\<lparr>net := AddServer (net s) name p\<rparr>)"
| A_DeleteServer: "admin_step s (s\<lparr>net := DeleteServer (net s) name\<rparr>)"
| A_Connect: "admin_step s (s\<lparr>net := Connect (net s) e name\<rparr>)"
| A_Enable: "admin_step s (s\<lparr>net := Enable (net s) e b\<rparr>)"
| A_world: "admin_step s (s\<lparr>world := w\<rparr>)"

text \<open>
  \<open>Handle\<close> does not look at the stage: the handler also runs when \<^verbatim>\<open>processReq\<close> has given up waiting. A crash of the process in
  \<open>Server_dispatch\<close> ends the execution.
\<close>

inductive net_step :: "'v gob \<Rightarrow> ('w, 'v) system \<Rightarrow> ('w, 'v) system \<Rightarrow> bool" for G where
  Admin: "admin_step s s' \<Longrightarrow> net_step G s s'"
| Arrive: "\<not> closed (net s) \<Longrightarrow>
    net_step G s (s\<lparr>net := accept_req (net s) m,
                    reqs := reqs s @ [\<lparr>msg = m, stg = Arrived, h_at = None, results = []\<rparr>]\<rparr>)"
| Begin: "i < length (reqs s) \<Longrightarrow> q = reqs s ! i \<Longrightarrow> stg q = Arrived \<Longrightarrow>
    g = process_start (net s) (msg q) lost \<Longrightarrow>
    net_step G s (set_req s i (q\<lparr>stg := g, h_at := server_of g\<rparr>))"
| Handle: "i < length (reqs s) \<Longrightarrow> q = reqs s ! i \<Longrightarrow> h_at q = Some p \<Longrightarrow> results q = [] \<Longrightarrow>
    Server_dispatch G (objs s ! p) (msg q) (world s) = Inr (rs, w, r) \<Longrightarrow>
    net_step G s (set_req (s\<lparr>objs := (objs s)[p := rs], world := w\<rparr>) i (q\<lparr>results := [r]\<rparr>))"
| GiveUp: "i < length (reqs s) \<Longrightarrow> q = reqs s ! i \<Longrightarrow> stg q = Waiting sn p rel lr \<Longrightarrow>
    isServerDead (net s) (endname (msg q)) sn p \<Longrightarrow>
    process_end (net s) (msg q) sn p rel lr None lost late = (n, g) \<Longrightarrow>
    net_step G s (set_req (s\<lparr>net := n\<rparr>) i (q\<lparr>stg := g\<rparr>))"
| Finish: "i < length (reqs s) \<Longrightarrow> q = reqs s ! i \<Longrightarrow> stg q = Waiting sn p rel lr \<Longrightarrow> results q = [rep] \<Longrightarrow>
    process_end (net s) (msg q) sn p rel lr (Some rep) lost late = (n, g) \<Longrightarrow>
    net_step G s (set_req (s\<lparr>net := n\<rparr>) i (q\<lparr>stg := g\<rparr>))"
| Deliver: "i < length (reqs s) \<Longrightarrow> q = reqs s ! i \<Longrightarrow> stg q = Delayed r \<Longrightarrow>
    net_step G s (set_req (s\<lparr>net := send_reply (net s) r\<rparr>) i (q\<lparr>stg := Answered r\<rparr>))"

inductive_cases admin_stepE: "admin_step s s'"
inductive_cases net_stepE: "net_step G s s'"

inductive net_reach :: "'v gob \<Rightarrow> ('w, 'v) system \<Rightarrow> bool" for G where
  Start: "net_reach G \<lparr>net = MakeNetwork, objs = [], world = w, reqs = []\<rparr>"
| Step: "net_reach G s \<Longrightarrow> net_step G s s' \<Longrightarrow> net_reach G s'"

section \<open>One call with nothing else going on\<close>

text \<open>\<^verbatim>\<open>Call\<close> up to the request that it sends, and from the answer that it receives on.\<close>

definition Call_request :: "'v gob \<Rightarrow> iname \<Rightarrow> string \<Rightarrow> string \<Rightarrow> 'v \<Rightarrow> reqMsg res" where
  "Call_request G e svcMethod ty a =
     (case Encode G a of (b, good) \<Rightarrow>
        if good then Inr \<lparr>endname = e, svcMeth = svcMethod, argsType = ty, args = b\<rparr>
        else Inl (ExplicitPanic ''encode args''))"

definition Call_return :: "'v gob \<Rightarrow> 'v \<Rightarrow> replyMsg \<Rightarrow> (bool \<times> 'v) res" where
  "Call_return G var rep =
     (if ok rep then
        (case Decode G var (reply rep) of (v, good) \<Rightarrow>
           if good then Inr (True, v) else Inl (LogFatal ''ClientEnd.Call(): decode reply''))
      else Inr (False, var))"

text \<open>\<^verbatim>\<open>processReq\<close> without interruption, up to the answer on \<^verbatim>\<open>replyCh\<close>.\<close>

definition deliver :: "Network \<Rightarrow> stage \<Rightarrow> Network \<times> replyMsg" where
  "deliver rn g = (case g of Delayed r \<Rightarrow> (send_reply rn r, r) | Answered r \<Rightarrow> (rn, r) | _ \<Rightarrow> (rn, failure))"

definition processReq ::
  "'v gob \<Rightarrow> ('w, 'v) system \<Rightarrow> reqMsg \<Rightarrow> bool \<Rightarrow> bool \<Rightarrow> bool \<Rightarrow> (('w, 'v) system \<times> replyMsg) res" where
  "processReq G s m lost1 lost2 late =
     (case process_start (net s) m lost1 of
        Waiting sn p rel lr \<Rightarrow>
          bindR (Server_dispatch G (objs s ! p) m (world s)) (\<lambda>(rs, w, r).
            let (n, g) = process_end (net s) m sn p rel lr (Some r) lost2 late;
                (n', rep) = deliver n g
            in Inr (s\<lparr>net := n', objs := (objs s)[p := rs], world := w\<rparr>, rep))
      | g \<Rightarrow> (let (n', rep) = deliver (net s) g in Inr (s\<lparr>net := n'\<rparr>, rep)))"

definition Call ::
  "'v gob \<Rightarrow> ('w, 'v) system \<Rightarrow> iname \<Rightarrow> string \<Rightarrow> string \<Rightarrow> 'v \<Rightarrow> 'v \<Rightarrow> bool \<Rightarrow> bool \<Rightarrow> bool \<Rightarrow>
     (('w, 'v) system \<times> bool \<times> 'v) res" where
  "Call G s e svcMethod ty a var lost1 lost2 late =
     bindR (Call_request G e svcMethod ty a) (\<lambda>m.
       if closed (net s) then Inr (s, False, var)
       else bindR (processReq G (s\<lparr>net := accept_req (net s) m\<rparr>) m lost1 lost2 late) (\<lambda>(s', rep).
              bindR (Call_return G var rep) (\<lambda>(b, v). Inr (s', b, v))))"

section \<open>Invariants of all executions\<close>

definition req_ok :: "nat \<Rightarrow> request \<Rightarrow> bool" where
  "req_ok n q \<longleftrightarrow>
     (case h_at q of None \<Rightarrow> results q = [] | Some p \<Rightarrow> p < n) \<and>
     length (results q) \<le> 1 \<and> (\<forall>r \<in> set (results q). ok r) \<and>
     (case stg q of
        Arrived \<Rightarrow> h_at q = None
      | Waiting s p rel lr \<Rightarrow> h_at q = Some p
      | Delayed r \<Rightarrow> ok r \<longrightarrow> results q = [r]
      | Answered r \<Rightarrow> ok r \<longrightarrow> results q = [r])"

definition ran_at :: "nat \<Rightarrow> request \<Rightarrow> bool" where
  "ran_at p q \<longleftrightarrow> h_at q = Some p \<and> results q \<noteq> []"

definition rpc_inv :: "('w, 'v) system \<Rightarrow> bool" where
  "rpc_inv s \<longleftrightarrow>
     (\<forall>q \<in> set (reqs s). req_ok (length (objs s)) q) \<and>
     (\<forall>name p. servers (net s) name = Some p \<longrightarrow> p < length (objs s)) \<and>
     n_count (net s) = word_of_nat (length (reqs s)) \<and>
     (\<forall>p < length (objs s). s_count (objs s ! p) = int (length (filter (ran_at p) (reqs s))))"

lemma length_filter_update:
  assumes "i < length xs"
  shows "length (filter P (xs[i := y])) + (if P (xs ! i) then 1 else 0) = length (filter P xs) + (if P y then 1 else 0)"
  using assms
proof (induction xs arbitrary: i)
  case (Cons x xs)
  then show ?case
    by (cases i) (auto split: if_splits)
qed simp

lemma Service_dispatch_ok: "Service_dispatch G svc m req w = Inr (w', r) \<Longrightarrow> ok r"
  by (auto simp: Service_dispatch_def Let_def split: option.splits prod.splits)

lemma Server_dispatch_ok:
  assumes "Server_dispatch G rs req w = Inr (rs', w', r)"
  shows "ok r" and "s_count rs' = s_count rs + 1"
  using assms by (auto simp: Server_dispatch_def Let_def split: option.splits dest: Service_dispatch_ok)

lemma failure_not_ok [simp]: "\<not> ok failure"
  by (simp add: failure_def)

lemma process_end_cases:
  assumes "process_end rn req s p rel lr r lost late = (n, g)"
  obtains "g = Answered failure" "n = rn"
  | rep where "r = Some rep" "g = Delayed rep" "n = rn" "\<not> isServerDead rn (endname req) s p"
  | rep where "r = Some rep" "g = Answered rep" "n = send_reply rn rep" "\<not> isServerDead rn (endname req) s p"
  using assms by (auto simp: process_end_def Let_def split: option.splits if_splits)

lemma process_start_cases:
  obtains "process_start rn req lost = Answered failure"
  | "process_start rn req lost = Delayed failure"
  | s p rel lr where "process_start rn req lost = Waiting s p rel lr" "servers rn s = Some p"
proof (cases "connections rn (endname req)")
  case (Some s)
  then show ?thesis
    using that
    by (cases "servers rn s"; cases "enabled rn (endname req)"; cases "reliable rn = False \<and> lost")
      (auto simp: process_start_def readEndnameInfo_def Let_def)
qed (use that in \<open>auto simp: process_start_def readEndnameInfo_def Let_def\<close>)

lemma send_reply_simps [simp]:
  "servers (send_reply rn r) = servers rn" "n_count (send_reply rn r) = n_count rn"
  by (simp_all add: send_reply_def)

lemma set_req_simps [simp]:
  "reqs (set_req s i q) = (reqs s)[i := q]" "net (set_req s i q) = net s"
  "objs (set_req s i q) = objs s" "world (set_req s i q) = world s"
  by (simp_all add: set_req_def)

text \<open>A step of a goroutine that keeps \<open>h_at\<close> and \<open>results\<close> of its request and the counters keeps the invariant.\<close>

lemma rpc_inv_set_req:
  assumes "rpc_inv s" "i < length (reqs s)" "req_ok (length (objs s)) q"
    and "\<And>p. ran_at p q \<longleftrightarrow> ran_at p (reqs s ! i)"
    and "servers n = servers (net s)" "n_count n = n_count (net s)"
  shows "rpc_inv (set_req (s\<lparr>net := n\<rparr>) i q)"
proof -
  have "length (filter (ran_at p) ((reqs s)[i := q])) = length (filter (ran_at p) (reqs s))" for p
    using length_filter_update [OF assms(2), of "ran_at p" q] assms(4) by (simp split: if_splits)
  then show ?thesis
    using assms unfolding rpc_inv_def by (auto dest: set_update_subset_insert [THEN subsetD])
qed

lemma rpc_inv_admin:
  assumes "rpc_inv s" "admin_step s s'"
  shows "rpc_inv s'"
  using assms(2)
proof cases
  case A_MakeServer
  have "\<not> ran_at (length (objs s)) q" if "q \<in> set (reqs s)" for q
    using that assms(1) by (auto simp: rpc_inv_def req_ok_def ran_at_def)
  then have "filter (ran_at (length (objs s))) (reqs s) = []"
    by (simp add: filter_empty_conv)
  then show ?thesis
    using assms(1) A_MakeServer
    by (auto simp: rpc_inv_def req_ok_def nth_append less_Suc_eq MakeServer_def split: option.splits)
next
  case (A_AddService p svc)
  then show ?thesis
    using assms(1) by (auto simp: rpc_inv_def AddService_def nth_list_update)
qed (use assms(1) in \<open>auto simp: rpc_inv_def Cleanup_def Reliable_def LongReordering_def LongDelays_def MakeEnd_def
      DeleteEnd_def AddServer_def DeleteServer_def Connect_def Enable_def split: if_splits\<close>)

lemma rpc_inv_reqD: "rpc_inv s \<Longrightarrow> i < length (reqs s) \<Longrightarrow> req_ok (length (objs s)) (reqs s ! i)"
  by (simp add: rpc_inv_def)

lemma rpc_inv_Handle:
  assumes inv: "rpc_inv s" and i: "i < length (reqs s)" and q: "q = reqs s ! i" "h_at q = Some p" "results q = []"
    and d: "Server_dispatch G (objs s ! p) (msg q) (world s) = Inr (rs, w, r)"
  shows "rpc_inv (set_req (s\<lparr>objs := (objs s)[p := rs], world := w\<rparr>) i (q\<lparr>results := [r]\<rparr>))" (is "rpc_inv ?s")
proof -
  let ?q = "q\<lparr>results := [r]\<rparr>"
  have qok: "req_ok (length (objs s)) q" and p: "p < length (objs s)"
    using rpc_inv_reqD [OF inv i] q by (auto simp: req_ok_def)
  then have rok: "req_ok (length (objs s)) ?q"
    using q Server_dispatch_ok(1) [OF d] by (auto simp: req_ok_def split: stage.splits)
  have cnt: "length (filter (ran_at p') ((reqs s)[i := ?q])) =
      length (filter (ran_at p') (reqs s)) + (if p' = p then 1 else 0)" for p'
    using length_filter_update [OF i, of "ran_at p'" ?q] q by (auto simp: ran_at_def)
  have "s_count ((objs s)[p := rs] ! p') = int (length (filter (ran_at p') ((reqs s)[i := ?q])))"
    if "p' < length (objs s)" for p'
    using that inv p Server_dispatch_ok(2) [OF d] by (auto simp: cnt rpc_inv_def nth_list_update)
  then show ?thesis
    using inv rok by (auto simp: rpc_inv_def dest: set_update_subset_insert [THEN subsetD])
qed

lemma rpc_inv_step:
  assumes "rpc_inv s" "net_step G s s'"
  shows "rpc_inv s'"
  using assms(2)
proof cases
  case Admin
  then show ?thesis by (rule rpc_inv_admin [OF assms(1)])
next
  case (Arrive m)
  have "\<not> ran_at p \<lparr>msg = m, stg = Arrived, h_at = None, results = []\<rparr>" for p
    by (simp add: ran_at_def)
  then show ?thesis
    using Arrive assms(1) by (auto simp: rpc_inv_def accept_req_def req_ok_def)
next
  case (Begin i q g lost)
  have q: "req_ok (length (objs s)) q" and sv: "\<And>name p. servers (net s) name = Some p \<Longrightarrow> p < length (objs s)"
    using Begin rpc_inv_reqD [OF assms(1)] assms(1) by (auto simp: rpc_inv_def)
  have "req_ok (length (objs s)) (q\<lparr>stg := g, h_at := server_of g\<rparr>)"
    using q Begin by (cases rule: process_start_cases [of "net s" "msg q" lost])
      (auto simp: req_ok_def server_of_def dest: sv)
  then show ?thesis
    using rpc_inv_set_req [OF assms(1), of i "q\<lparr>stg := g, h_at := server_of g\<rparr>" "net s"] Begin q
    by (auto simp: ran_at_def req_ok_def set_req_def)
next
  case (Handle i q p rs w r)
  then show ?thesis using rpc_inv_Handle [OF assms(1)] by simp
next
  case (GiveUp i q sn p rel lr lost late n g)
  have "req_ok (length (objs s)) (q\<lparr>stg := g\<rparr>) \<and> n = net s"
    using GiveUp rpc_inv_reqD [OF assms(1) GiveUp(2)]
    by (cases rule: process_end_cases [OF GiveUp(6)]) (auto simp: req_ok_def split: option.splits)
  then show ?thesis
    using rpc_inv_set_req [OF assms(1), of i "q\<lparr>stg := g\<rparr>" n] GiveUp by (auto simp: ran_at_def)
next
  case (Finish i q sn p rel lr rep lost late n g)
  have "req_ok (length (objs s)) (q\<lparr>stg := g\<rparr>) \<and> servers n = servers (net s) \<and> n_count n = n_count (net s)"
    using Finish rpc_inv_reqD [OF assms(1) Finish(2)]
    by (cases rule: process_end_cases [OF Finish(6)]) (auto simp: req_ok_def split: option.splits)
  then show ?thesis
    using rpc_inv_set_req [OF assms(1), of i "q\<lparr>stg := g\<rparr>" n] Finish by (auto simp: ran_at_def)
next
  case (Deliver i q r)
  have "req_ok (length (objs s)) (q\<lparr>stg := Answered r\<rparr>)"
    using Deliver rpc_inv_reqD [OF assms(1) Deliver(2)] by (auto simp: req_ok_def split: option.splits)
  then show ?thesis
    using rpc_inv_set_req [OF assms(1), of i "q\<lparr>stg := Answered r\<rparr>" "send_reply (net s) r"] Deliver
    by (auto simp: ran_at_def)
qed

lemma rpc_inv_reach: "net_reach G s \<Longrightarrow> rpc_inv s"
  by (induction rule: net_reach.induct) (auto simp: rpc_inv_step, simp add: rpc_inv_def MakeNetwork_def)

section \<open>A small network for the witnesses\<close>

text \<open>One end point, one server, and one service whose method adds the argument to a sum and answers with the sum.\<close>

definition demo_gob :: "8 word list gob" where
  "demo_gob = \<lparr>zero = (\<lambda>_. []), Encode = (\<lambda>v. (v, True)), Decode = (\<lambda>_ b. (b, True))\<rparr>"

definition demo_method :: "(8 word list, 8 word list) reflect_method" where
  "demo_method = \<lparr>mname = ''Add'', PkgPath = [], NumIn = 3, in2_is_ptr = True, in2_elem = ''Sum'', NumOut = 0,
     Func = (\<lambda>w a r. (w @ a, w @ a))\<rparr>"

definition demo_service :: "(8 word list, 8 word list) Service" where
  "demo_service = MakeService ''Sums'' [demo_method]"

definition demo_net :: Network where
  "demo_net = Enable (Connect (AddServer (MakeNetwork\<lparr>ends := {(Str ''e'')}\<rparr>) (Str ''s'') 0) (Str ''e'') (Str ''s'')) (Str ''e'') True"

definition demo_up :: "(8 word list, 8 word list) system" where
  "demo_up = \<lparr>net = demo_net, objs = [AddService MakeServer demo_service], world = [], reqs = []\<rparr>"

lemma demo_up_reach: "net_reach demo_gob demo_up"
proof -
  note st = net_reach.Step [OF _ net_step.Admin]
  note r1 = st [OF net_reach.Start A_MakeServer]
  have r2: "net_reach demo_gob \<lparr>net = MakeNetwork, objs = [AddService MakeServer demo_service], world = [], reqs = []\<rparr>"
    using st [OF r1 A_AddService [of 0 _ demo_service], of "[]"] by simp
  have r3: "net_reach demo_gob \<lparr>net = MakeNetwork\<lparr>ends := {(Str ''e'')}\<rparr>, objs = [AddService MakeServer demo_service],
      world = [], reqs = []\<rparr>"
    using st [OF r2 A_MakeEnd [of _ "Str ''e''" "MakeNetwork\<lparr>ends := {(Str ''e'')}\<rparr>"]]
    by (simp add: MakeEnd_def MakeNetwork_def fun_upd_idem)
  have r4: "net_reach demo_gob \<lparr>net = AddServer (MakeNetwork\<lparr>ends := {(Str ''e'')}\<rparr>) (Str ''s'') 0,
      objs = [AddService MakeServer demo_service], world = [], reqs = []\<rparr>"
    using st [OF r3 A_AddServer [of 0 _ "Str ''s''"]] by simp
  have r5: "net_reach demo_gob \<lparr>net = Connect (AddServer (MakeNetwork\<lparr>ends := {(Str ''e'')}\<rparr>) (Str ''s'') 0) (Str ''e'') (Str ''s''),
      objs = [AddService MakeServer demo_service], world = [], reqs = []\<rparr>"
    using st [OF r4 A_Connect [of _ "Str ''e''" "Str ''s''"]] by simp
  show ?thesis
    using st [OF r5 A_Enable [of _ "Str ''e''" True]] by (simp add: demo_up_def demo_net_def)
qed

definition demo_req :: reqMsg where
  "demo_req = \<lparr>endname = (Str ''e''), svcMeth = ''Sums.Add'', argsType = ''Args'', args = [7]\<rparr>"

definition demo_reply :: replyMsg where
  "demo_reply = \<lparr>ok = True, reply = [7]\<rparr>"

definition demo_state :: "stage \<Rightarrow> nat option \<Rightarrow> replyMsg list \<Rightarrow> (8 word list, 8 word list) system" where
  "demo_state g h rs = \<lparr>net = accept_req demo_net demo_req,
     objs = [(AddService MakeServer demo_service)\<lparr>s_count := int (length rs)\<rparr>],
     world = concat (map reply rs), reqs = [\<lparr>msg = demo_req, stg = g, h_at = h, results = rs\<rparr>]\<rparr>"

definition demo_wait :: stage where
  "demo_wait = Waiting (Str ''s'') 0 True False"

lemma demo_dispatch:
  "Server_dispatch demo_gob (AddService MakeServer demo_service) demo_req [] =
     Inr ((AddService MakeServer demo_service)\<lparr>s_count := 1\<rparr>, [7], demo_reply)"
  by (simp add: Server_dispatch_def split_method_def Service_dispatch_def demo_req_def demo_service_def demo_method_def
      demo_gob_def MakeService_def suitable_def AddService_def MakeServer_def demo_reply_def slice_to_def slice_from_def Let_def)

lemma demo_states_reach:
  "net_reach demo_gob (demo_state Arrived None [])"
  "net_reach demo_gob (demo_state demo_wait (Some 0) [])"
  "net_reach demo_gob (demo_state demo_wait (Some 0) [demo_reply])"
proof -
  show 1: "net_reach demo_gob (demo_state Arrived None [])"
    using net_reach.Step [OF demo_up_reach net_step.Arrive [of demo_up demo_gob demo_req]]
    by (simp add: demo_up_def demo_state_def demo_net_def Enable_def Connect_def AddServer_def MakeNetwork_def
        AddService_def MakeServer_def)
  have "process_start (accept_req demo_net demo_req) demo_req False = demo_wait"
    by (simp add: process_start_def readEndnameInfo_def accept_req_def demo_net_def demo_req_def Enable_def Connect_def
        AddServer_def MakeNetwork_def demo_wait_def)
  then show 2: "net_reach demo_gob (demo_state demo_wait (Some 0) [])"
    using net_reach.Step [OF 1 net_step.Begin [of 0 _ _ _ False]]
    by (simp add: demo_state_def set_req_def server_of_def demo_wait_def)
  show "net_reach demo_gob (demo_state demo_wait (Some 0) [demo_reply])"
    using net_reach.Step [OF 2 net_step.Handle [of 0 _ _ 0]] demo_dispatch
    by (simp add: demo_state_def set_req_def demo_reply_def AddService_def MakeServer_def)
qed

definition demo_done :: "(8 word list, 8 word list) system" where
  "demo_done = set_req ((demo_state demo_wait (Some 0) [demo_reply])\<lparr>net :=
      send_reply (accept_req demo_net demo_req) demo_reply\<rparr>) 0
      \<lparr>msg = demo_req, stg = Answered demo_reply, h_at = Some 0, results = [demo_reply]\<rparr>"

lemma demo_finish: "net_step demo_gob (demo_state demo_wait (Some 0) [demo_reply]) demo_done"
  using net_step.Finish [of 0 "demo_state demo_wait (Some 0) [demo_reply]" _ "Str ''s''" 0 True False demo_reply False False
      _ "Answered demo_reply" demo_gob]
  by (simp add: demo_state_def demo_done_def demo_wait_def process_end_def isServerDead_def accept_req_def demo_net_def
      demo_req_def Enable_def Connect_def AddServer_def)

lemma demo_done_reach: "net_reach demo_gob demo_done"
  by (rule net_reach.Step [OF demo_states_reach(3) demo_finish])

lemma demo_done_reqs [simp]:
  "reqs demo_done = [\<lparr>msg = demo_req, stg = Answered demo_reply, h_at = Some 0, results = [demo_reply]\<rparr>]"
  by (simp add: demo_done_def demo_state_def)

section \<open>Properties\<close>



text \<open>
  The counters are right in every reachable state: the total is the number of requests that were sent as long as that is
  below \<open>2 ^ 31\<close>, and the count of a server is the number of the requests that its dispatcher has handled.
\<close>

lemma network_counts:
  assumes "net_reach G s" and "servers (net s) name = Some p" and "length (reqs s) < 2 ^ 31"
  shows "GetTotalCount (net s) = int (length (reqs s)) \<and>
    GetCount (net s) (objs s) name = Inr (int (length (filter (ran_at p) (reqs s))))"
proof -
  have "rpc_inv s"
    using assms(1) by (rule rpc_inv_reach)
  moreover have "sint (word_of_nat n :: 32 word) = int n" if "n < 2 ^ 31" for n
    using that by (simp add: sint_uint unat_of_nat uint_nat signed_take_bit_int_eq_self take_bit_nat_eq_self)
  ultimately show ?thesis
    using assms by (simp add: rpc_inv_def GetTotalCount_def GetCount_def Server_GetCount_def)
qed

text \<open>
  C23. The network decides on a positive answer only in a moment in which the end point is enabled and its server is still
  the same object that handled the request.
\<close>

theorem positive_reply_from_live_server:
  assumes "net_step G s s'" and "i < length (reqs s)"
    and "stg (reqs s ! i) = Waiting name p rel lr" and "stg (reqs s' ! i) \<in> {Answered r, Delayed r}" and "ok r"
  shows "enabled (net s) (endname (msg (reqs s ! i))) \<and> servers (net s) name = Some p \<and> results (reqs s ! i) = [r]"
  using assms(1)
proof cases
  case (Finish j q sn p rel lr rep lost late n g)
  then show ?thesis
    using assms(2-) by (cases rule: process_end_cases [OF Finish(6)]; cases "j = i") (auto simp: isServerDead_def)
next
  case (GiveUp j q sn p rel lr lost late n g)
  then show ?thesis
    using assms(2-) by (cases rule: process_end_cases [OF GiveUp(6)]; cases "j = i") auto
next
  case Admin
  then show ?thesis using assms(2-) by cases auto
next
  case (Begin j)
  then show ?thesis using assms(2-) by (cases "j = i") auto
next
  case (Handle j)
  then show ?thesis using assms(2-) by (cases "j = i") auto
next
  case (Deliver j)
  then show ?thesis using assms(2-) by (cases "j = i") auto
qed (use assms(2-) in \<open>auto simp: nth_append\<close>)

theorem positive_reply_from_live_server_witness:
  "enabled demo_net (Str ''e'') \<and> servers demo_net (Str ''s'') = Some 0"
  using positive_reply_from_live_server [OF demo_finish, of 0 "Str ''s''" 0 True False demo_reply]
  by (simp add: demo_state_def demo_wait_def demo_reply_def accept_req_def) (simp add: demo_req_def)

lemma LastIndex_absent: "c \<notin> set xs \<Longrightarrow> LastIndex xs c = -1"
  by (induction xs) auto

lemma LastIndex_append: "c \<notin> set ys \<Longrightarrow> LastIndex (xs @ c # ys) c = int (length xs)"
  by (induction xs) (auto simp: LastIndex_absent)

lemma split_method_dot: "CHR ''.'' \<notin> set m \<Longrightarrow> split_method (sv @ ''.'' @ m) = Inr (sv, m)"
  by (simp add: split_method_def LastIndex_append slice_to_def slice_from_def nat_add_distrib)

text \<open>encoding/gob gives back a value of a type that it has encoded.\<close>

definition gob_ok :: "'v gob \<Rightarrow> string \<Rightarrow> 'v \<Rightarrow> bool" where
  "gob_ok G ty v \<longleftrightarrow> snd (Encode G v) \<and> Decode G (zero G ty) (fst (Encode G v)) = (v, True)"

text \<open>
  A call through an enabled end point to a live server with the service and the method, undisturbed: the handler gets
  the arguments of the caller and the caller its reply. On a reliable network the call succeeds; on an unreliable one it may
  fail, and then the handler has either run once or not at all and the variable for the reply is untouched.
\<close>

lemma Call_undisturbed:
  assumes "\<not> closed (net s)" "enabled (net s) e" "connections (net s) e = Some sn" "servers (net s) sn = Some p"
    and "services (objs s ! p) sv = Some svc" "methods svc meth = Some m" "CHR ''.'' \<notin> set meth"
    and "gob_ok G ty a" "Func m (world s) a (zero G (in2_elem m)) = (w', r)" "gob_ok G (in2_elem m) r"
    and "var = zero G (in2_elem m)"
  shows "\<exists>s' b v. Call G s e (sv @ ''.'' @ meth) ty a var lost1 lost2 late = Inr (s', b, v) \<and>
    (if b then v = r \<and> world s' = w' else v = var \<and> world s' \<in> {world s, w'}) \<and> (reliable (net s) \<longrightarrow> b)"
proof -
  obtain ab where a: "Encode G a = (ab, True)" "Decode G (zero G ty) ab = (a, True)"
    using assms(8) by (cases "Encode G a") (auto simp: gob_ok_def)
  obtain rb where r: "Encode G r = (rb, True)" "Decode G var rb = (r, True)"
    using assms(10,11) by (cases "Encode G r") (auto simp: gob_ok_def)
  define rq where "rq = \<lparr>endname = e, svcMeth = sv @ ''.'' @ meth, argsType = ty, args = ab\<rparr>"
  have req: "Call_request G e (sv @ ''.'' @ meth) ty a = Inr rq"
    by (simp add: Call_request_def a rq_def)
  have disp: "Server_dispatch G (objs s ! p) rq (world s) =
      Inr ((objs s ! p)\<lparr>s_count := s_count (objs s ! p) + 1\<rparr>, w', \<lparr>ok = True, reply = rb\<rparr>)"
    using assms split_method_dot [OF assms(7), of sv] a r
    by (simp add: Server_dispatch_def Service_dispatch_def rq_def)
  show ?thesis
    using assms r req disp
    by (simp add: Call_def processReq_def process_start_def readEndnameInfo_def rq_def accept_req_def Let_def
        deliver_def process_end_def isServerDead_def Call_return_def failure_def split: prod.splits) blast
qed

end
