(* ===== verification/KVSrv_Harness.thy ===== *)
theory KVSrv_Harness
  imports KVServer LabRPC
begin

text \<open>
  The test harness of the key/value server, src/kvsrv/config.go: one server, clerks that come and go, and the statistics of a test.
  Clerks are named by the order of their creation; random names are arguments.
\<close>

definition SERVERID :: int where
  "SERVERID = 0"

record config =
  knet :: Network
  kserver :: KVServer
  kclerks :: "nat \<rightharpoonup> string"
  nextClientId :: int
  rpcs0 :: int
  ops :: "32 word"
  made :: nat      \<comment> \<open>\<^verbatim>\<open>labrpc.Server\<close> objects made so far\<close>
  nclerks :: nat   \<comment> \<open>clerks made so far\<close>

text \<open>A clerk has the end point of the server, which is known by its name.\<close>

record Clerk =
  ck_server :: string

definition MakeClerk :: "string \<Rightarrow> Clerk" where
  "MakeClerk e = \<lparr>ck_server = e\<rparr>"

definition ConnectClientUnlocked :: "config \<Rightarrow> nat \<Rightarrow> config" where
  "ConnectClientUnlocked cfg k =
     cfg\<lparr>knet := Enable (knet cfg) (Str (case kclerks cfg k of Some e \<Rightarrow> e | None \<Rightarrow> '''')) True\<rparr>"

definition ConnectClient :: "config \<Rightarrow> nat \<Rightarrow> config" where
  "ConnectClient cfg k = ConnectClientUnlocked cfg k"

definition makeClient :: "config \<Rightarrow> string \<Rightarrow> config res" where
  "makeClient cfg name =
     bindR (MakeEnd (knet cfg) (Str name)) (\<lambda>nt.
       let c1 = cfg\<lparr>knet := Connect nt (Str name) (Num SERVERID), kclerks := (kclerks cfg)(nclerks cfg \<mapsto> name),
                    nclerks := Suc (nclerks cfg), nextClientId := nextClientId cfg + 1\<rparr>
       in Inr (ConnectClientUnlocked c1 (nclerks cfg)))"

definition deleteClient :: "config \<Rightarrow> nat \<Rightarrow> config res" where
  "deleteClient cfg k =
     bindR (DeleteEnd (knet cfg) (Str (case kclerks cfg k of Some e \<Rightarrow> e | None \<Rightarrow> ''''))) (\<lambda>nt.
       Inr (cfg\<lparr>knet := nt, kclerks := (kclerks cfg)(k := None)\<rparr>))"

definition StartServer :: "config \<Rightarrow> config" where
  "StartServer cfg = cfg\<lparr>kserver := StartKVServer, knet := AddServer (knet cfg) (Num 0) (made cfg), made := Suc (made cfg)\<rparr>"

definition make_config :: "bool \<Rightarrow> config" where
  "make_config unreliable =
     (let c0 = \<lparr>knet = MakeNetwork, kserver = StartKVServer, kclerks = Map.empty, nextClientId = SERVERID + 1, rpcs0 = 0, ops = 0,
                made = 0, nclerks = 0\<rparr>;
          c1 = StartServer c0
      in c1\<lparr>knet := Reliable (knet c1) (\<not> unreliable)\<rparr>)"

definition cleanup :: "config \<Rightarrow> config res" where
  "cleanup cfg = bindR (Cleanup (knet cfg)) (\<lambda>nt. Inr (cfg\<lparr>knet := nt\<rparr>))"

definition rpcTotal :: "config \<Rightarrow> int" where
  "rpcTotal cfg = GetTotalCount (knet cfg)"

definition begin_test :: "config \<Rightarrow> config" where
  "begin_test cfg = cfg\<lparr>rpcs0 := rpcTotal cfg, ops := 0\<rparr>"

definition op :: "config \<Rightarrow> config" where
  "op cfg = cfg\<lparr>ops := ops cfg + 1\<rparr>"

text \<open>The numbers that \<^verbatim>\<open>end\<close> prints: RPCs and operations since \<^verbatim>\<open>begin\<close>.\<close>

definition end_test :: "config \<Rightarrow> int \<times> int" where
  "end_test cfg = (rpcTotal cfg - rpcs0 cfg, sint (ops cfg))"

section \<open>All executions of a test\<close>

inductive ks_reach :: "config \<Rightarrow> bool" where
  KS_make: "ks_reach (make_config unreliable)"
| KS_client: "ks_reach cfg \<Longrightarrow> makeClient cfg name = Inr c \<Longrightarrow> ks_reach c"
| KS_delete: "ks_reach cfg \<Longrightarrow> k \<in> dom (kclerks cfg) \<Longrightarrow> deleteClient cfg k = Inr c \<Longrightarrow> ks_reach c"
| KS_connect: "ks_reach cfg \<Longrightarrow> k \<in> dom (kclerks cfg) \<Longrightarrow> ks_reach (ConnectClientUnlocked cfg k)"
| KS_request: "ks_reach cfg \<Longrightarrow> ks_reach (cfg\<lparr>knet := accept_req (knet cfg) m\<rparr>)"
| KS_reply: "ks_reach cfg \<Longrightarrow> ks_reach (cfg\<lparr>knet := send_reply (knet cfg) r\<rparr>)"
| KS_server: "ks_reach cfg \<Longrightarrow> ks_reach (cfg\<lparr>kserver := kv\<rparr>)"
| KS_begin: "ks_reach cfg \<Longrightarrow> ks_reach (begin_test cfg)"
| KS_op: "ks_reach cfg \<Longrightarrow> ks_reach (op cfg)"

definition clerks_ok :: "config \<Rightarrow> bool" where
  "clerks_ok cfg \<longleftrightarrow> servers (knet cfg) (Num SERVERID) \<noteq> None \<and> (\<forall>k \<ge> nclerks cfg. kclerks cfg k = None) \<and>
     (\<forall>k e. kclerks cfg k = Some e \<longrightarrow>
        Str e \<in> ends (knet cfg) \<and> enabled (knet cfg) (Str e) \<and> connections (knet cfg) (Str e) = Some (Num SERVERID)) \<and>
     (\<forall>k k' e. kclerks cfg k = Some e \<longrightarrow> kclerks cfg k' = Some e \<longrightarrow> k = k')"

lemma clerks_ok_cong:
  assumes "clerks_ok cfg" "kclerks c = kclerks cfg" "nclerks c = nclerks cfg" "servers (knet c) = servers (knet cfg)"
    "ends (knet c) = ends (knet cfg)" "enabled (knet c) = enabled (knet cfg)" "connections (knet c) = connections (knet cfg)"
  shows "clerks_ok c"
  using assms by (simp add: clerks_ok_def)

lemma makeClient_ok: "clerks_ok cfg \<Longrightarrow> makeClient cfg name = Inr c \<Longrightarrow> clerks_ok c"
  by (auto simp: clerks_ok_def makeClient_def ConnectClientUnlocked_def MakeEnd_def Connect_def Enable_def Let_def split: if_splits)

lemma deleteClient_ok:
  assumes "clerks_ok cfg" "k \<in> dom (kclerks cfg)" "deleteClient cfg k = Inr c"
  shows "clerks_ok c"
proof -
  obtain e where e: "kclerks cfg k = Some e" using assms(2) by blast
  have "c = cfg\<lparr>knet := (knet cfg)\<lparr>ends := ends (knet cfg) - {Str e}, enabled := (enabled (knet cfg))(Str e := False),
      connections := (connections (knet cfg))(Str e := None)\<rparr>, kclerks := (kclerks cfg)(k := None)\<rparr>"
    using assms(3) e by (auto simp: deleteClient_def DeleteEnd_def split: if_splits)
  moreover have "e' \<noteq> e" if "kclerks cfg k' = Some e'" "k' \<noteq> k" for k' e'
    using assms(1) e that unfolding clerks_ok_def by blast
  ultimately show ?thesis using assms(1) by (auto simp: clerks_ok_def)
qed

text \<open>
  In every state of every test the end point of each clerk exists, is enabled and leads to the server, and no two clerks share one.
\<close>

lemma ks_reach_ok: "ks_reach cfg \<Longrightarrow> clerks_ok cfg"
proof (induction rule: ks_reach.induct)
  case (KS_make unreliable)
  show ?case
    by (simp add: clerks_ok_def make_config_def StartServer_def MakeNetwork_def AddServer_def Reliable_def Let_def SERVERID_def)
next
  case (KS_client cfg name c)
  from makeClient_ok [OF KS_client(3,2)] show ?case .
next
  case (KS_delete cfg k c)
  from deleteClient_ok [OF KS_delete(4,2,3)] show ?case .
next
  case (KS_connect cfg k)
  then show ?case by (auto simp: clerks_ok_def ConnectClientUnlocked_def Enable_def)
qed (erule clerks_ok_cong, simp_all add: accept_req_def send_reply_def begin_test_def op_def)+

end
