(* ===== verification/Porc_Model.thy ===== *)
theory Porc_Model
  imports Go_Prelude "HOL-Library.List_Lexorder" "HOL-Library.Char_ord" "HOL-Library.AList"
begin

text \<open>
  Histories and models of the linearizability checker: the types of src/porcupine/model.go, the entries of
  src/porcupine/checker.go with their construction from operations (\<^verbatim>\<open>makeEntries\<close>) and from events
  (\<^verbatim>\<open>renumber\<close>, \<^verbatim>\<open>convertEntries\<close>), and the key/value model of src/models/kv.go.

  A Go \<^verbatim>\<open>interface{}\<close> value of an input or output is of type \<open>'v\<close>, a state of type \<open>'s\<close>. A function
  field that may be nil is an option; a step of a model may panic (a failed type assertion).
\<close>

record 'v Operation =
  ClientId :: int
  Input :: 'v
  Call :: int
  Output :: 'v
  Return :: int

datatype EventKind = CallEvent | ReturnEvent

record 'v Event =
  e_ClientId :: int
  Kind :: EventKind
  e_Value :: 'v
  Id :: int

record ('s, 'v) Model =
  Partition :: "('v Operation list \<Rightarrow> 'v Operation list list res) option"
  PartitionEvent :: "('v Event list \<Rightarrow> 'v Event list list res) option"
  Init :: "'s"
  Step :: "'s \<Rightarrow> 'v \<Rightarrow> 'v \<Rightarrow> (bool \<times> 's) res"
  Equal :: "('s \<Rightarrow> 's \<Rightarrow> bool) option"
  DescribeOperation :: "('v \<Rightarrow> 'v \<Rightarrow> string res) option"
  DescribeState :: "('s \<Rightarrow> string) option"

definition NoPartition :: "'v Operation list \<Rightarrow> 'v Operation list list res" where
  "NoPartition history = Inr [history]"

definition NoPartitionEvent :: "'v Event list \<Rightarrow> 'v Event list list res" where
  "NoPartitionEvent history = Inr [history]"

definition ShallowEqual :: "'s \<Rightarrow> 's \<Rightarrow> bool" where
  "ShallowEqual state1 state2 \<longleftrightarrow> state1 = state2"

datatype CheckResult = Unknown | Ok | Illegal

text \<open>\<open>sprintOp\<close> and \<open>sprint\<close> stand for the formatting of \<^verbatim>\<open>fmt.Sprintf\<close> in the default descriptions.\<close>

definition fillDefault ::
  "('v \<Rightarrow> 'v \<Rightarrow> string) \<Rightarrow> ('s \<Rightarrow> string) \<Rightarrow> ('s, 'v) Model \<Rightarrow> ('s, 'v) Model" where
  "fillDefault sprintOp sprint model =
     (let m1 = (if Partition model = None then model\<lparr>Partition := Some NoPartition\<rparr> else model);
          m2 = (if PartitionEvent m1 = None then m1\<lparr>PartitionEvent := Some NoPartitionEvent\<rparr> else m1);
          m3 = (if Equal m2 = None then m2\<lparr>Equal := Some ShallowEqual\<rparr> else m2);
          m4 = (if DescribeOperation m3 = None then m3\<lparr>DescribeOperation := Some (\<lambda>i o'. Inr (sprintOp i o'))\<rparr> else m3)
      in if DescribeState m4 = None then m4\<lparr>DescribeState := Some sprint\<rparr> else m4)"

section \<open>Entries\<close>

datatype entryKind = callEntry | returnEntry

record 'v entry =
  kind :: entryKind
  evalue :: 'v
  eid :: int
  etime :: int
  eclientId :: int

definition byTime_Less :: "'v entry \<Rightarrow> 'v entry \<Rightarrow> bool" where
  "byTime_Less a b =
     (if etime a \<noteq> etime b then etime a < etime b else kind a = callEntry \<and> kind b = returnEntry)"

text \<open>The loop of \<^verbatim>\<open>makeEntries\<close>: two entries per operation, with the operation's index as id.\<close>

fun op_entries :: "int \<Rightarrow> 'v Operation list \<Rightarrow> 'v entry list" where
  "op_entries i [] = []"
| "op_entries i (elem # rest) =
     \<lparr>kind = callEntry, evalue = Input elem, eid = i, etime = Call elem, eclientId = ClientId elem\<rparr> #
     \<lparr>kind = returnEntry, evalue = Output elem, eid = i, etime = Return elem, eclientId = ClientId elem\<rparr> #
     op_entries (i + 1) rest"

text \<open>\<^verbatim>\<open>sort.Sort\<close> is not stable: it is a parameter, which permutes a list into one with no pair in the wrong order.\<close>

definition sorts_byTime :: "('v entry list \<Rightarrow> 'v entry list) \<Rightarrow> bool" where
  "sorts_byTime srt \<longleftrightarrow>
     (\<forall>es. mset (srt es) = mset es \<and> sorted_wrt (\<lambda>a b. \<not> byTime_Less b a) (srt es))"

definition makeEntries :: "('v entry list \<Rightarrow> 'v entry list) \<Rightarrow> 'v Operation list \<Rightarrow> 'v entry list" where
  "makeEntries srt history = srt (op_entries 0 history)"

fun renumber_from :: "(int \<rightharpoonup> int) \<Rightarrow> int \<Rightarrow> 'v Event list \<Rightarrow> 'v Event list" where
  "renumber_from m i [] = []"
| "renumber_from m i (v # vs) =
     (case m (Id v) of
        Some r \<Rightarrow> v\<lparr>Id := r\<rparr> # renumber_from m i vs
      | None \<Rightarrow> v\<lparr>Id := i\<rparr> # renumber_from (m(Id v \<mapsto> i)) (i + 1) vs)"

definition renumber :: "'v Event list \<Rightarrow> 'v Event list" where
  "renumber events = renumber_from Map.empty 0 events"

fun convert_from :: "int \<Rightarrow> 'v Event list \<Rightarrow> 'v entry list" where
  "convert_from i [] = []"
| "convert_from i (elem # rest) =
     \<lparr>kind = (if Kind elem = ReturnEvent then returnEntry else callEntry), evalue = e_Value elem,
      eid = Id elem, etime = i, eclientId = e_ClientId elem\<rparr> # convert_from (i + 1) rest"

definition convertEntries :: "'v Event list \<Rightarrow> 'v entry list" where
  "convertEntries events = convert_from 0 events"

section \<open>The key/value model\<close>

record KvInput =
  Op :: "8 word"
  i_Key :: string
  i_Value :: string

record KvOutput =
  o_Value :: string

datatype kv_value = KvIn KvInput | KvOut KvOutput

text \<open>\<^verbatim>\<open>Partition\<close>: a map from keys to the operations of the key, in the order of the history; the keys are sorted.\<close>

definition kv_add :: "(string \<times> kv_value Operation list) list \<Rightarrow> kv_value Operation \<Rightarrow>
    (string \<times> kv_value Operation list) list res" where
  "kv_add m v =
     (case Input v of
        KvOut _ \<Rightarrow> Inl (ExplicitPanic ''interface conversion'')
      | KvIn inp \<Rightarrow>
          (let ops = (case map_of m (i_Key inp) of None \<Rightarrow> [] | Some os \<Rightarrow> os)
           in Inr (AList.update (i_Key inp) (ops @ [v]) m)))"

definition kv_Partition :: "kv_value Operation list \<Rightarrow> kv_value Operation list list res" where
  "kv_Partition history =
     bindR (foldR kv_add [] history) (\<lambda>m.
       Inr (map (\<lambda>k. case map_of m k of None \<Rightarrow> [] | Some os \<Rightarrow> os) (sort (map fst m))))"

definition kv_Init :: string where
  "kv_Init = []"

definition kv_Step :: "string \<Rightarrow> kv_value \<Rightarrow> kv_value \<Rightarrow> (bool \<times> string) res" where
  "kv_Step st input output =
     (case input of
        KvOut _ \<Rightarrow> Inl (ExplicitPanic ''interface conversion'')
      | KvIn inp \<Rightarrow>
          (case output of
             KvIn _ \<Rightarrow> Inl (ExplicitPanic ''interface conversion'')
           | KvOut out \<Rightarrow>
               Inr (if Op inp = 0 then (o_Value out = st, st)
                    else if Op inp = 1 then (True, i_Value inp)
                    else if Op inp = 2 then (True, st @ i_Value inp)
                    else (o_Value out = st, st @ i_Value inp))))"

definition kv_DescribeOperation :: "kv_value \<Rightarrow> kv_value \<Rightarrow> string res" where
  "kv_DescribeOperation input output =
     (case (input, output) of
        (KvIn inp, KvOut out) \<Rightarrow> Inr
          (if Op inp = 0 then ''get('' @ [CHR 0x27] @ i_Key inp @ [CHR 0x27] @ '') -> '' @ [CHR 0x27] @ o_Value out @ [CHR 0x27]
           else if Op inp = 1 then ''put('' @ [CHR 0x27] @ i_Key inp @ [CHR 0x27] @ '', '' @ [CHR 0x27] @ i_Value inp @ [CHR 0x27] @ '')''
           else if Op inp = 2 then ''append('' @ [CHR 0x27] @ i_Key inp @ [CHR 0x27] @ '', '' @ [CHR 0x27] @ i_Value inp @ [CHR 0x27] @ '')''
           else ''<invalid>'')
      | _ \<Rightarrow> Inl (ExplicitPanic ''interface conversion''))"

definition KvModel :: "(string, kv_value) Model" where
  "KvModel = \<lparr>Partition = Some kv_Partition, PartitionEvent = None, Init = kv_Init, Step = kv_Step, Equal = None,
     DescribeOperation = Some kv_DescribeOperation, DescribeState = None\<rparr>"

end
