(* ===== verification/KVSrv_Linear.thy ===== *)
theory KVSrv_Linear
  imports KVSrv_Harness Porc_Model
begin

text \<open>
  The key/value server under test: any number of clerks of the harness (src/kvsrv/config.go) that call the server over the simulated
  network (src/labrpc/labrpc.go), whose handlers run concurrently, and the log of operations that the tests
  keep (src/kvsrv/test_test.go). The invariant of all executions is that the operations take effect one after the other, each
  between its call and its return.

  A clerk is in one place of its two loops at a time. The steps of its request on the network are those of \<^verbatim>\<open>processReq\<close>
  as in LabRPC; a handler takes two steps, one per critical section. What gob writes for a request and a reply is a
  parameter. \<^verbatim>\<open>nrand\<close> is taken to give a new id in every call.
\<close>

section \<open>The system\<close>

text \<open>
  Where a request of a clerk is: about to be sent, on the network, or at the server, with the flags of \<^verbatim>\<open>readEndnameInfo\<close>
  and the state of the handler, \<open>None\<close> before it has run.
\<close>

datatype place =
    AtClerk
  | InNet
  | AtServer iname nat bool bool "thread option"

text \<open>An operation of a clerk: its current request, the reply variable, and the time at which it was called.\<close>

record op_call =
  c_req :: KVServer.request
  c_var :: string
  c_start :: int

datatype phase =
    Idle
  | Busy op_call place
  | Returned op_call        \<comment> \<open>the operation has returned to the test\<close>
  | Stopped op_call int     \<comment> \<open>the test has taken the time\<close>

record sys =
  scfg :: config
  phases :: "nat \<Rightarrow> phase"
  orphans :: "(KVServer.request \<times> thread option) list"   \<comment> \<open>handlers that nobody waits for any more\<close>
  used :: "int set"
  now :: int
  oplog :: "kv_value Operation list"

fun handler_begin :: "KVServer \<Rightarrow> KVServer.request \<Rightarrow> KVServer \<times> thread" where
  "handler_begin kv (RGet a) = Get_begin kv a"
| "handler_begin kv (RPut a) = Put_begin kv a"
| "handler_begin kv (RAppend a) = Append_begin kv a"

fun set_confirm :: "bool \<Rightarrow> KVServer.request \<Rightarrow> KVServer.request" where
  "set_confirm b (RGet a) = RGet (a\<lparr>ga_Confirm := b\<rparr>)"
| "set_confirm b (RPut a) = RPut (a\<lparr>pa_Confirm := b\<rparr>)"
| "set_confirm b (RAppend a) = RAppend (a\<lparr>pa_Confirm := b\<rparr>)"

fun svc_method :: "KVServer.request \<Rightarrow> string" where
  "svc_method (RGet a) = ''KVServer.Get''"
| "svc_method (RPut a) = ''KVServer.Put''"
| "svc_method (RAppend a) = ''KVServer.Append''"

fun args_type :: "KVServer.request \<Rightarrow> string" where
  "args_type (RGet a) = ''*GetArgs''"
| "args_type (RPut a) = ''*PutAppendArgs''"
| "args_type (RAppend a) = ''*PutAppendArgs''"

definition req_msg :: "(KVServer.request \<Rightarrow> 8 word list) \<Rightarrow> string \<Rightarrow> KVServer.request \<Rightarrow> reqMsg" where
  "req_msg er e r = \<lparr>endname = Str e, svcMeth = svc_method r, argsType = args_type r, args = er r\<rparr>"

text \<open>
  The call of the clerk has returned true: after the operation itself comes its confirmation, then the operation returns.
\<close>

definition call_ok :: "op_call \<Rightarrow> string \<Rightarrow> phase" where
  "call_ok c v =
     (let c' = c\<lparr>c_var := decode_reply (c_var c) v\<rparr> in
      if req_confirm (c_req c) then Returned c' else Busy (c'\<lparr>c_req := set_confirm True (c_req c)\<rparr>) AtClerk)"

text \<open>What \<^verbatim>\<open>Get\<close>, \<^verbatim>\<open>Put\<close> and \<^verbatim>\<open>Append\<close> of the test append to the log.\<close>

fun kv_input :: "KVServer.request \<Rightarrow> KvInput" where
  "kv_input (RGet a) = \<lparr>Op = 0, i_Key = ga_Key a, i_Value = ''''\<rparr>"
| "kv_input (RPut a) = \<lparr>Op = 1, i_Key = pa_Key a, i_Value = pa_Value a\<rparr>"
| "kv_input (RAppend a) = \<lparr>Op = 3, i_Key = pa_Key a, i_Value = pa_Value a\<rparr>"

fun kv_output :: "KVServer.request \<Rightarrow> string \<Rightarrow> KvOutput" where
  "kv_output (RGet a) v = \<lparr>o_Value = v\<rparr>"
| "kv_output (RPut a) v = \<lparr>o_Value = ''''\<rparr>"
| "kv_output (RAppend a) v = \<lparr>o_Value = v\<rparr>"

definition log_op :: "int \<Rightarrow> KVServer.request \<Rightarrow> string \<Rightarrow> int \<Rightarrow> int \<Rightarrow> kv_value Operation" where
  "log_op cli r v start end' = Operation.make cli (KvIn (kv_input r)) start (KvOut (kv_output r v)) end'"

abbreviation set_phase :: "sys \<Rightarrow> nat \<Rightarrow> phase \<Rightarrow> sys" where
  "set_phase s k p \<equiv> s\<lparr>phases := (phases s)(k := p)\<rparr>"

abbreviation set_net :: "sys \<Rightarrow> Network \<Rightarrow> sys" where
  "set_net s n \<equiv> s\<lparr>scfg := (scfg s)\<lparr>knet := n\<rparr>\<rparr>"

abbreviation set_server :: "sys \<Rightarrow> KVServer \<Rightarrow> sys" where
  "set_server s kv \<equiv> s\<lparr>scfg := (scfg s)\<lparr>kserver := kv\<rparr>\<rparr>"

abbreviation snet :: "sys \<Rightarrow> Network" where
  "snet s \<equiv> knet (scfg s)"

abbreviation skv :: "sys \<Rightarrow> KVServer" where
  "skv s \<equiv> kserver (scfg s)"

inductive kv_step :: "(KVServer.request \<Rightarrow> 8 word list) \<Rightarrow> (string \<Rightarrow> 8 word list) \<Rightarrow> sys \<Rightarrow> sys \<Rightarrow> bool" for er ep where
  Tick: "now s \<le> t \<Longrightarrow> kv_step er ep s (s\<lparr>now := t\<rparr>)"
| Client: "makeClient (scfg s) name = Inr c \<Longrightarrow> kv_step er ep s (s\<lparr>scfg := c\<rparr>)"
| Delete: "kclerks (scfg s) k \<noteq> None \<Longrightarrow> phases s k = Idle \<Longrightarrow> deleteClient (scfg s) k = Inr c \<Longrightarrow>
    kv_step er ep s (s\<lparr>scfg := c\<rparr>)"
| Call: "kclerks (scfg s) k \<noteq> None \<Longrightarrow> phases s k = Idle \<Longrightarrow> \<not> req_confirm r \<Longrightarrow> req_id r \<notin> used s \<Longrightarrow>
    kv_step er ep s (set_phase (s\<lparr>used := insert (req_id r) (used s)\<rparr>) k
      (Busy \<lparr>c_req = r, c_var = '''', c_start = now s\<rparr> AtClerk))"
| Send: "phases s k = Busy c AtClerk \<Longrightarrow> kclerks (scfg s) k = Some e \<Longrightarrow>
    kv_step er ep s (set_phase (set_net s (accept_req (snet s) (req_msg er e (c_req c)))) k (Busy c InNet))"
| Lost: "phases s k = Busy c InNet \<Longrightarrow> kclerks (scfg s) k = Some e \<Longrightarrow>
    process_start (snet s) (req_msg er e (c_req c)) lost \<in> {Answered failure, Delayed failure} \<Longrightarrow>
    kv_step er ep s (set_phase s k (Busy c AtClerk))"
| Reach: "phases s k = Busy c InNet \<Longrightarrow> kclerks (scfg s) k = Some e \<Longrightarrow>
    process_start (snet s) (req_msg er e (c_req c)) lost = Waiting sn p rel lr \<Longrightarrow>
    kv_step er ep s (set_phase s k (Busy c (AtServer sn p rel lr None)))"
| Begin: "phases s k = Busy c (AtServer sn p rel lr None) \<Longrightarrow> handler_begin (skv s) (c_req c) = (kv, t) \<Longrightarrow>
    kv_step er ep s (set_phase (set_server s kv) k (Busy c (AtServer sn p rel lr (Some t))))"
| End: "phases s k = Busy c (AtServer sn p rel lr (Some t)) \<Longrightarrow> handler_end (skv s) t = (kv, t') \<Longrightarrow>
    kv_step er ep s (set_phase (set_server s kv) k (Busy c (AtServer sn p rel lr (Some t'))))"
| GiveUp: "phases s k = Busy c (AtServer sn p rel lr t) \<Longrightarrow> kclerks (scfg s) k = Some e \<Longrightarrow>
    isServerDead (snet s) (Str e) sn p \<Longrightarrow>
    kv_step er ep s (set_phase (s\<lparr>orphans := orphans s @ [(c_req c, t)]\<rparr>) k (Busy c AtClerk))"
| Orphan_begin: "j < length (orphans s) \<Longrightarrow> orphans s ! j = (r, None) \<Longrightarrow> handler_begin (skv s) r = (kv, t) \<Longrightarrow>
    kv_step er ep s ((set_server s kv)\<lparr>orphans := (orphans s)[j := (r, Some t)]\<rparr>)"
| Orphan_end: "j < length (orphans s) \<Longrightarrow> orphans s ! j = (r, Some t) \<Longrightarrow> handler_end (skv s) t = (kv, t') \<Longrightarrow>
    kv_step er ep s ((set_server s kv)\<lparr>orphans := (orphans s)[j := (r, Some t')]\<rparr>)"
| Drop: "phases s k = Busy c (AtServer sn p rel lr (Some (Replied v))) \<Longrightarrow> kclerks (scfg s) k = Some e \<Longrightarrow>
    process_end (snet s) (req_msg er e (c_req c)) sn p rel lr (Some \<lparr>ok = True, reply = ep v\<rparr>) lost late = (n, Answered failure) \<Longrightarrow>
    kv_step er ep s (set_phase (set_net s n) k (Busy c AtClerk))"
| Answer: "phases s k = Busy c (AtServer sn p rel lr (Some (Replied v))) \<Longrightarrow> kclerks (scfg s) k = Some e \<Longrightarrow>
    process_end (snet s) (req_msg er e (c_req c)) sn p rel lr (Some \<lparr>ok = True, reply = ep v\<rparr>) lost late = (n, g) \<Longrightarrow>
    deliver n g = (n', \<lparr>ok = True, reply = ep v\<rparr>) \<Longrightarrow>
    kv_step er ep s (set_phase (set_net s n') k (call_ok c v))"
| Stop: "phases s k = Returned c \<Longrightarrow> kv_step er ep s (set_phase s k (Stopped c (now s)))"
| Log: "phases s k = Stopped c t \<Longrightarrow>
    kv_step er ep s (set_phase (s\<lparr>scfg := op (scfg s),
      oplog := oplog s @ [log_op cli (c_req c) (c_var c) (c_start c) t]\<rparr>) k Idle)"

definition kv_start :: "bool \<Rightarrow> sys" where
  "kv_start unreliable = \<lparr>scfg = begin_test (make_config unreliable), phases = (\<lambda>_. Idle), orphans = [], used = {}, now = 0, oplog = []\<rparr>"

inductive kv_reach :: "(KVServer.request \<Rightarrow> 8 word list) \<Rightarrow> (string \<Rightarrow> 8 word list) \<Rightarrow> sys \<Rightarrow> bool" for er ep where
  Start: "kv_reach er ep (kv_start unreliable)"
| Step: "kv_reach er ep s \<Longrightarrow> kv_step er ep s s' \<Longrightarrow> kv_reach er ep s'"

section \<open>Nobody gives up\<close>

text \<open>The end points of the clerks stay enabled and the server stays, so every request that reaches the server is waited for.\<close>

definition waited :: "sys \<Rightarrow> bool" where
  "waited s \<longleftrightarrow> clerks_ok (scfg s) \<and> orphans s = [] \<and> (\<forall>k. phases s k \<noteq> Idle \<longrightarrow> kclerks (scfg s) k \<noteq> None) \<and>
     (\<forall>k c sn p rel lr t. phases s k = Busy c (AtServer sn p rel lr t) \<longrightarrow> servers (snet s) sn = Some p)"

lemma makeClient_frame:
  assumes "makeClient cfg name = Inr c"
  shows "servers (knet c) = servers (knet cfg)" "kserver c = kserver cfg" "kclerks cfg k \<noteq> None \<Longrightarrow> kclerks c k \<noteq> None"
  using assms
  by (auto simp: makeClient_def ConnectClientUnlocked_def MakeEnd_def Connect_def Enable_def Let_def split: if_splits)

lemma deleteClient_frame:
  assumes "deleteClient cfg k = Inr c"
  shows "servers (knet c) = servers (knet cfg)" "kserver c = kserver cfg" "kclerks c = (kclerks cfg)(k := None)"
  using assms by (auto simp: deleteClient_def DeleteEnd_def split: if_splits)

text \<open>The parts of the network that the way of a request does not change.\<close>

definition same_links :: "Network \<Rightarrow> Network \<Rightarrow> bool" where
  "same_links n n' \<longleftrightarrow> servers n' = servers n \<and> ends n' = ends n \<and> enabled n' = enabled n \<and> connections n' = connections n"

lemma same_links_simps [simp]:
  "same_links n n" "same_links n (accept_req n m)" "same_links n (send_reply n r)"
  by (simp_all add: same_links_def accept_req_def send_reply_def)

lemma same_links_process_end:
  assumes "process_end n m sn p rel lr r lost late = (n', g)"
  shows "same_links n n'" "deliver n' g = (n'', rep) \<Longrightarrow> same_links n n''"
  by (cases rule: process_end_cases [OF assms], auto simp: deliver_def same_links_def send_reply_def failure_def)+

lemma waited_net:
  assumes "waited s" "same_links (snet s) n" "k \<in> dom (kclerks (scfg s))"
    "\<And>c sn p rel lr t. ph = Busy c (AtServer sn p rel lr t) \<Longrightarrow> servers (snet s) sn = Some p"
  shows "waited (set_phase (set_net s n) k ph)"
  using assms clerks_ok_cong [of "scfg s" "(scfg s)\<lparr>knet := n\<rparr>"] by (auto simp: waited_def same_links_def)

lemma waited_phase:
  assumes "waited s" "k \<in> dom (kclerks (scfg s))" "\<And>c sn p rel lr t. ph = Busy c (AtServer sn p rel lr t) \<Longrightarrow> servers (snet s) sn = Some p"
  shows "waited (set_phase s k ph)"
  using assms by (auto simp: waited_def)

lemma waited_server:
  assumes "waited s" "phases s k = Busy c (AtServer sn p rel lr t)"
  shows "waited (set_phase (set_server s kv) k (Busy c (AtServer sn p rel lr t')))"
proof -
  have "servers (snet s) sn = Some p" using assms unfolding waited_def by blast
  then show ?thesis using assms clerks_ok_cong [of "scfg s" "(scfg s)\<lparr>kserver := kv\<rparr>"] by (auto simp: waited_def)
qed

lemma waited_alive:
  assumes "waited s" "phases s k = Busy c (AtServer sn p rel lr t)" "kclerks (scfg s) k = Some e"
  shows "\<not> isServerDead (snet s) (Str e) sn p"
  using assms unfolding waited_def clerks_ok_def isServerDead_def by blast

lemma waited_clerk: "waited s \<Longrightarrow> phases s k \<noteq> Idle \<Longrightarrow> k \<in> dom (kclerks (scfg s))"
  by (auto simp: waited_def)

lemma call_ok_not_at_server [simp]: "call_ok c v \<noteq> Busy c' (AtServer sn p rel lr t)"
  by (simp add: call_ok_def Let_def)

lemma waited_step:
  assumes "kv_step er ep s s'" "waited s"
  shows "waited s'"
  using assms(1)
proof cases
  case (Client name c)
  then show ?thesis using assms(2) makeClient_ok [of "scfg s" name c] makeClient_frame [OF Client(2)] by (auto simp: waited_def)
next
  case (Delete k c)
  then show ?thesis
    using assms(2) deleteClient_ok [of "scfg s" k c] deleteClient_frame [OF Delete(4)] by (auto simp: waited_def)
next
  case (Call k r)
  have "waited (s\<lparr>used := insert (req_id r) (used s)\<rparr>)" using assms(2) by (simp add: waited_def)
  then show ?thesis unfolding Call(1) by (rule waited_phase) (use Call in auto)
next
  case (Send k c e)
  show ?thesis unfolding Send(1) by (rule waited_net [OF assms(2)]) (use Send in auto)
next
  case (Reach k c e lost sn p rel lr)
  have "servers (snet s) sn = Some p"
    by (rule process_start_cases [of "snet s" "req_msg er e (c_req c)" lost]) (use Reach(4) in auto)
  then show ?thesis unfolding Reach(1) by (intro waited_phase [OF assms(2)]) (use Reach in auto)
next
  case (Begin k c sn p rel lr kv t)
  then show ?thesis using waited_server [OF assms(2)] by simp
next
  case (End k c sn p rel lr t kv t')
  then show ?thesis using waited_server [OF assms(2)] by simp
next
  case (GiveUp k c sn p rel lr t e)
  then show ?thesis using waited_alive [OF assms(2)] by blast
next
  case (Drop k c sn p rel lr v e lost late n)
  show ?thesis unfolding Drop(1) by (rule waited_net [OF assms(2) same_links_process_end(1) [OF Drop(4)]]) (use Drop in auto)
next
  case (Answer k c sn p rel lr v e lost late n g n')
  show ?thesis
    unfolding Answer(1) by (rule waited_net [OF assms(2) same_links_process_end(2) [OF Answer(4,5)]]) (use Answer in auto)
next
  case (Log k c t cli)
  have "waited (s\<lparr>scfg := op (scfg s), oplog := oplog s @ [log_op cli (c_req c) (c_var c) (c_start c) t]\<rparr>)"
    using assms(2) clerks_ok_cong [of "scfg s" "op (scfg s)"] by (auto simp: waited_def op_def)
  then show ?thesis unfolding Log(1) by (rule waited_phase) (use Log waited_clerk [OF assms(2), of k] in \<open>auto simp: op_def\<close>)
qed (use assms(2) waited_phase [OF assms(2)] waited_clerk [OF assms(2)] in \<open>auto simp: waited_def\<close>)

lemma waited_reach: "kv_reach er ep s \<Longrightarrow> waited s"
proof (induction rule: kv_reach.induct)
  case (Start unreliable)
  have "clerks_ok (make_config unreliable)" by (rule ks_reach_ok [OF KS_make])
  then show ?case
    using clerks_ok_cong [of "make_config unreliable" "begin_test (make_config unreliable)"]
    by (simp add: waited_def kv_start_def begin_test_def)
qed (rule waited_step)

section \<open>The order in which the operations take effect\<close>

text \<open>
  An operation that has taken effect: its request before the confirmation, the value it returns and the moment of the effect. A list of
  them is a run of the store when every value is what the request returns at its position.
\<close>

record effect =
  l_req :: KVServer.request
  l_val :: string
  l_time :: int

abbreviation l_id :: "effect \<Rightarrow> int" where
  "l_id l \<equiv> req_id (l_req l)"

fun lin_ok :: "store \<Rightarrow> effect list \<Rightarrow> bool" where
  "lin_ok m [] = True"
| "lin_ok m (l # L) = (l_val l = result m (l_req l) \<and> lin_ok (apply_op m (l_req l)) L)"

fun lin_end :: "store \<Rightarrow> effect list \<Rightarrow> store" where
  "lin_end m [] = m"
| "lin_end m (l # L) = lin_end (apply_op m (l_req l)) L"

lemma lin_snoc [simp]:
  "lin_ok m (L @ [l]) \<longleftrightarrow> lin_ok m L \<and> l_val l = result (lin_end m L) (l_req l)"
  "lin_end m (L @ [l]) = apply_op (lin_end m L) (l_req l)"
  by (induction L arbitrary: m) auto

text \<open>The operation of a clerk has taken effect as \<open>l\<close>.\<close>

definition took :: "op_call \<Rightarrow> effect \<Rightarrow> bool" where
  "took c l \<longleftrightarrow> l_req l = set_confirm False (c_req c) \<and> c_start c \<le> l_time l"

text \<open>It has taken effect by the time \<open>n\<close> with the value \<open>v\<close>.\<close>

definition effected :: "effect list \<Rightarrow> op_call \<Rightarrow> int \<Rightarrow> string \<Rightarrow> bool" where
  "effected L c n v \<longleftrightarrow> (\<exists>l \<in> set L. took c l \<and> l_val l = v \<and> l_time l \<le> n)"

definition ids :: "effect list \<Rightarrow> int set" where
  "ids L = l_id ` set L"

definition busy_ok :: "int \<Rightarrow> KVServer \<Rightarrow> effect list \<Rightarrow> op_call \<Rightarrow> thread option \<Rightarrow> bool" where
  "busy_ok n kv L c th \<longleftrightarrow>
     (if req_confirm (c_req c) then effected L c n (c_var c) \<and> th \<in> {None, Some (Replied '''')}
      else c_var c = '''' \<and>
        (case th of
           None \<Rightarrow> (case status kv (req_id (c_req c)) of None \<Rightarrow> req_id (c_req c) \<notin> ids L | Some v \<Rightarrow> effected L c n v)
         | Some (Replied v) \<Rightarrow> status kv (req_id (c_req c)) = Some v \<and> effected L c n v
         | Some (GetWait a v) \<Rightarrow> c_req c = RGet a \<and> status kv (req_id (c_req c)) = None \<and> effected L c n v
         | Some (PutWait a) \<Rightarrow> c_req c = RPut a \<and> status kv (req_id (c_req c)) = None \<and> req_id (c_req c) \<notin> ids L
         | Some (AppendWait a) \<Rightarrow> c_req c = RAppend a \<and> status kv (req_id (c_req c)) = None \<and> req_id (c_req c) \<notin> ids L))"

definition thread_of :: "place \<Rightarrow> thread option" where
  "thread_of pl = (case pl of AtServer sn p rel lr t \<Rightarrow> t | _ \<Rightarrow> None)"

definition phase_id :: "phase \<Rightarrow> int option" where
  "phase_id ph = (case ph of Idle \<Rightarrow> None | Busy c pl \<Rightarrow> Some (req_id (c_req c)) | Returned c \<Rightarrow> Some (req_id (c_req c))
     | Stopped c t \<Rightarrow> Some (req_id (c_req c)))"

definition phase_ok :: "int \<Rightarrow> KVServer \<Rightarrow> effect list \<Rightarrow> phase \<Rightarrow> bool" where
  "phase_ok n kv L ph \<longleftrightarrow>
     (case ph of
        Idle \<Rightarrow> True
      | Busy c pl \<Rightarrow> c_start c \<le> n \<and> busy_ok n kv L c (thread_of pl)
      | Returned c \<Rightarrow> effected L c n (c_var c)
      | Stopped c t \<Rightarrow> effected L c t (c_var c))"

text \<open>\<open>fin\<close> gives the client and the times that the log has for the request ids in it.\<close>

definition logged :: "(int \<rightharpoonup> int \<times> int \<times> int) \<Rightarrow> effect \<Rightarrow> kv_value Operation" where
  "logged fin l = (case the (fin (l_id l)) of (cli, st, en) \<Rightarrow> log_op cli (l_req l) (l_val l) st en)"

definition log_ok :: "sys \<Rightarrow> effect list \<Rightarrow> (int \<rightharpoonup> int \<times> int \<times> int) \<Rightarrow> bool" where
  "log_ok s L fin \<longleftrightarrow>
     lin_ok Map.empty L \<and> kvMap (skv s) = lin_end Map.empty L \<and> sorted (map l_time L) \<and> (\<forall>l \<in> set L. l_time l \<le> now s) \<and>
     distinct (map l_id L) \<and> dom (status (skv s)) \<subseteq> used s \<and> ids L \<subseteq> used s \<and> dom fin \<subseteq> used s \<and>
     mset (oplog s) = mset (map (logged fin) (filter (\<lambda>l. fin (l_id l) \<noteq> None) L)) \<and>
     (\<forall>l \<in> set L. \<forall>cli st en. fin (l_id l) = Some (cli, st, en) \<longrightarrow> st \<le> l_time l \<and> l_time l \<le> en)"

definition clerks_at :: "sys \<Rightarrow> effect list \<Rightarrow> (int \<rightharpoonup> int \<times> int \<times> int) \<Rightarrow> bool" where
  "clerks_at s L fin \<longleftrightarrow>
     (\<forall>k i. phase_id (phases s k) = Some i \<longrightarrow> i \<in> used s \<and> fin i = None) \<and>
     (\<forall>k k' i. phase_id (phases s k) = Some i \<longrightarrow> phase_id (phases s k') = Some i \<longrightarrow> k = k') \<and>
     (\<forall>l \<in> set L. fin (l_id l) = None \<longrightarrow> (\<exists>k. phase_id (phases s k) = Some (l_id l))) \<and>
     (\<forall>k. phase_ok (now s) (skv s) L (phases s k))"

lemma set_confirm_simps [simp]:
  "req_id (set_confirm b r) = req_id r" "req_confirm (set_confirm b r) = b" "set_confirm a (set_confirm b r) = set_confirm a r"
  "kv_input (set_confirm b r) = kv_input r" "kv_output (set_confirm b r) = kv_output r"
  "result m (set_confirm b r) = result m r" "apply_op m (set_confirm b r) = apply_op m r"
  by (cases r; simp add: fun_eq_iff)+

lemma set_confirm_same [simp]: "\<not> req_confirm r \<Longrightarrow> set_confirm False r = r"
  by (cases r) simp_all

text \<open>A clerk is not affected by what happens to the requests of others.\<close>

lemma effected_mono: "effected L c n v \<Longrightarrow> set L \<subseteq> set L' \<Longrightarrow> n \<le> n' \<Longrightarrow> effected L' c n' v"
  unfolding effected_def by fastforce

lemma busy_ok_frame:
  assumes "busy_ok n kv L c th" "status kv' (req_id (c_req c)) = status kv (req_id (c_req c))"
    "req_id (c_req c) \<in> ids L' \<Longrightarrow> req_id (c_req c) \<in> ids L" "set L \<subseteq> set L'" "n \<le> n'"
  shows "busy_ok n' kv' L' c th"
proof -
  have "\<And>v. effected L c n v \<Longrightarrow> effected L' c n' v" by (rule effected_mono [OF _ assms(4,5)])
  then show ?thesis using assms(1-3) by (auto simp: busy_ok_def split: option.splits thread.splits if_splits)
qed

lemma phase_ok_frame:
  assumes "phase_ok n kv L ph" "\<And>i. phase_id ph = Some i \<Longrightarrow> status kv' i = status kv i \<and> (i \<in> ids L' \<longrightarrow> i \<in> ids L)"
    "set L \<subseteq> set L'" "n \<le> n'"
  shows "phase_ok n' kv' L' ph"
proof (cases ph)
  case (Busy c pl)
  have i: "status kv' (req_id (c_req c)) = status kv (req_id (c_req c))" "req_id (c_req c) \<in> ids L' \<Longrightarrow> req_id (c_req c) \<in> ids L"
    using assms(2) [of "req_id (c_req c)"] Busy by (simp_all add: phase_id_def)
  have "busy_ok n kv L c (thread_of pl)" "c_start c \<le> n" using assms(1) Busy by (simp_all add: phase_ok_def)
  then show ?thesis using busy_ok_frame [OF _ i assms(3,4)] assms(4) Busy by (simp add: phase_ok_def)
next
  case (Returned c)
  then show ?thesis using assms(1) effected_mono [OF _ assms(3,4)] by (simp add: phase_ok_def)
next
  case (Stopped c t)
  then show ?thesis using assms(1) effected_mono [OF _ assms(3) order_refl] by (simp add: phase_ok_def)
qed (simp add: phase_ok_def)

section \<open>Every step keeps the order\<close>

definition lin_inv :: "sys \<Rightarrow> bool" where
  "lin_inv s \<longleftrightarrow> (\<exists>L fin. log_ok s L fin \<and> clerks_at s L fin)"

lemma log_ok_same:
  assumes "log_ok s L fin" "kvMap (skv s') = kvMap (skv s)" "dom (status (skv s')) \<subseteq> used s'" "now s \<le> now s'" "used s \<subseteq> used s'"
    "oplog s' = oplog s"
  shows "log_ok s' L fin"
proof -
  have "\<forall>l \<in> set L. l_time l \<le> now s'" using assms(1,4) unfolding log_ok_def by (meson order_trans)
  moreover have "ids L \<subseteq> used s'" "dom fin \<subseteq> used s'" using assms(1,5) unfolding log_ok_def by (meson subset_trans)+
  ultimately show ?thesis using assms unfolding log_ok_def by simp
qed

lemma log_ok_take:
  assumes "log_ok s L fin" "l_id l \<notin> ids L" "l_id l \<in> used s" "fin (l_id l) = None"
    "l_val l = result (kvMap (skv s)) (l_req l)" "l_time l = now s" "kvMap (skv s') = apply_op (kvMap (skv s)) (l_req l)"
    "dom (status (skv s')) \<subseteq> used s'" "now s' = now s" "used s' = used s" "oplog s' = oplog s"
  shows "log_ok s' (L @ [l]) fin"
  using assms unfolding log_ok_def by (auto simp: sorted_append ids_def)

lemma clerks_at_move:
  assumes "clerks_at s L fin" "phases s' = (phases s)(k := ph)" "phase_id (phases s k) = Some i" "phase_id ph = Some i"
    "now s' = now s" "used s' = used s" "\<And>j. j \<noteq> i \<Longrightarrow> status (skv s') j = status (skv s) j"
    "L' = L \<or> (\<exists>l. L' = L @ [l] \<and> l_id l = i)" "phase_ok (now s) (skv s') L' ph"
  shows "clerks_at s' L' fin"
  unfolding clerks_at_def
proof (intro conjI)
  have id: "phase_id (phases s' k') = phase_id (phases s k')" for k' using assms(2-4) by simp
  note c = assms(1) [unfolded clerks_at_def]
  show "\<forall>k i. phase_id (phases s' k) = Some i \<longrightarrow> i \<in> used s' \<and> fin i = None"
    "\<forall>k k' i. phase_id (phases s' k) = Some i \<longrightarrow> phase_id (phases s' k') = Some i \<longrightarrow> k = k'"
    unfolding id assms(6) using c by blast+
  show "\<forall>l \<in> set L'. fin (l_id l) = None \<longrightarrow> (\<exists>k. phase_id (phases s' k) = Some (l_id l))"
    unfolding id using c assms(3,8) by auto
  show "\<forall>k. phase_ok (now s') (skv s') L' (phases s' k)"
  proof
    fix k'
    show "phase_ok (now s') (skv s') L' (phases s' k')"
    proof (cases "k' = k")
      case True
      then show ?thesis using assms(2,5,9) by simp
    next
      case False
      have "phase_ok (now s') (skv s') L' (phases s k')"
      proof (rule phase_ok_frame [of "now s" "skv s" L])
        show "phase_ok (now s) (skv s) L (phases s k')" using c by blast
        fix j assume j: "phase_id (phases s k') = Some j"
        have "j \<noteq> i" using c j assms(3) False by blast
        then show "status (skv s') j = status (skv s) j \<and> (j \<in> ids L' \<longrightarrow> j \<in> ids L)" using assms(7,8) by (auto simp: ids_def)
      qed (use assms(5,8) in auto)
      then show ?thesis using False assms(2) by simp
    qed
  qed
qed

text \<open>A step of a clerk that leaves the server alone.\<close>

lemma lin_inv_phase:
  assumes "lin_inv s" "phases s' = (phases s)(k := ph)" "skv s' = skv s" "now s' = now s" "used s' = used s" "oplog s' = oplog s"
    "phase_id ph = phase_id (phases s k)" "ph \<noteq> Idle" "\<And>L. phase_ok (now s) (skv s) L (phases s k) \<Longrightarrow> phase_ok (now s) (skv s) L ph"
  shows "lin_inv s'"
proof -
  obtain L fin where L: "log_ok s L fin" "clerks_at s L fin" using assms(1) by (auto simp: lin_inv_def)
  obtain i where i: "phase_id ph = Some i" using assms(8) by (cases ph) (auto simp: phase_id_def)
  have "phase_ok (now s) (skv s) L (phases s k)" using L(2) by (simp add: clerks_at_def)
  then have "clerks_at s' L fin"
    using assms i by (intro clerks_at_move [OF L(2) assms(2), of i]) auto
  moreover have "log_ok s' L fin" using assms log_ok_same [OF L(1)] L(1) by (simp add: log_ok_def)
  ultimately show ?thesis by (auto simp: lin_inv_def)
qed

text \<open>\<open>c\<close> takes effect now.\<close>

definition effect_now :: "int \<Rightarrow> store \<Rightarrow> op_call \<Rightarrow> effect" where
  "effect_now n m c = \<lparr>l_req = c_req c, l_val = result m (c_req c), l_time = n\<rparr>"

text \<open>What a step of a handler may add to the order: nothing, or the request, which was not effective before.\<close>

definition extends :: "int \<Rightarrow> KVServer \<Rightarrow> op_call \<Rightarrow> effect list \<Rightarrow> KVServer \<Rightarrow> effect list \<Rightarrow> bool" where
  "extends n kv c L kv' L' \<longleftrightarrow>
     (L' = L \<and> kvMap kv' = kvMap kv) \<or>
     (L' = L @ [effect_now n (kvMap kv) c] \<and> req_id (c_req c) \<notin> ids L \<and> kvMap kv' = apply_op (kvMap kv) (c_req c))"

lemma lin_inv_server:
  assumes "lin_inv s" "phases s k = Busy c pl"
    "\<And>L. busy_ok (now s) (skv s) L c (thread_of pl) \<Longrightarrow> c_start c \<le> now s \<Longrightarrow>
       \<exists>L'. busy_ok (now s) kv L' c (thread_of pl') \<and> extends (now s) (skv s) c L kv L'"
    "\<And>L j. busy_ok (now s) (skv s) L c (thread_of pl) \<Longrightarrow> j \<noteq> req_id (c_req c) \<Longrightarrow> status kv j = status (skv s) j"
  shows "lin_inv (set_phase (set_server s kv) k (Busy c pl'))"
proof -
  let ?i = "req_id (c_req c)" and ?s = "set_phase (set_server s kv) k (Busy c pl')"
  obtain L fin where L: "log_ok s L fin" "clerks_at s L fin" using assms(1) by (auto simp: lin_inv_def)
  have i: "phase_id (phases s k) = Some ?i" using assms(2) by (simp add: phase_id_def)
  have u: "?i \<in> used s" "fin ?i = None" using L(2) i unfolding clerks_at_def by blast+
  have "phase_ok (now s) (skv s) L (phases s k)" using L(2) by (simp add: clerks_at_def)
  then have b: "busy_ok (now s) (skv s) L c (thread_of pl)" "c_start c \<le> now s" using assms(2) by (simp_all add: phase_ok_def)
  have st: "dom (status kv) \<subseteq> used s"
  proof
    fix j assume "j \<in> dom (status kv)"
    then have "j = ?i \<or> j \<in> dom (status (skv s))" using assms(4) [OF b(1), of j] by (cases "j = ?i") (simp_all add: domIff)
    then show "j \<in> used s" using u(1) L(1) unfolding log_ok_def by blast
  qed
  obtain L' where L': "busy_ok (now s) kv L' c (thread_of pl')" "extends (now s) (skv s) c L kv L'"
    using assms(3) [OF b] by blast
  have "log_ok ?s L' fin"
    using L'(2) log_ok_same [OF L(1), of ?s] log_ok_take [OF L(1), of "effect_now (now s) (kvMap (skv s)) c" ?s] st u
    by (auto simp: extends_def effect_now_def)
  moreover have "clerks_at ?s L' fin"
    by (rule clerks_at_move [OF L(2), of ?s k "Busy c pl'" ?i])
      (use L' assms(4) [OF b(1)] i b(2) in \<open>auto simp: phase_id_def phase_ok_def extends_def effect_now_def\<close>)
  ultimately show ?thesis by (auto simp: lin_inv_def)
qed

section \<open>The two halves of a handler\<close>

fun waiting :: "KVServer \<Rightarrow> KVServer.request \<Rightarrow> thread" where
  "waiting kv (RGet a) = GetWait a (look (kvMap kv) (ga_Key a))"
| "waiting kv (RPut a) = PutWait a"
| "waiting kv (RAppend a) = AppendWait a"

lemma handler_begin_eq:
  "handler_begin kv r =
     (if req_confirm r then (kv\<lparr>status := (status kv)(req_id r := None)\<rparr>, Replied '''')
      else case status kv (req_id r) of Some v \<Rightarrow> (kv, Replied v) | None \<Rightarrow> (kv, waiting kv r))"
  by (cases r) (auto simp: handler_defs forget_eq split: option.splits)

lemma effected_now [simp]:
  assumes "\<not> req_confirm (c_req c)" "c_start c \<le> n"
  shows "effected (L @ [effect_now n m c]) c n (result m (c_req c))"
  using assms by (auto simp: effected_def took_def effect_now_def)

lemma begin_effect:
  assumes "handler_begin kv (c_req c) = (kv', t)" "busy_ok n kv L c None" "c_start c \<le> n"
  shows "\<exists>L'. busy_ok n kv' L' c (Some t) \<and> extends n kv c L kv' L'"
proof (cases "req_confirm (c_req c) \<or> status kv (req_id (c_req c)) \<noteq> None")
  case True
  then have "busy_ok n kv' L c (Some t) \<and> kvMap kv' = kvMap kv"
    using assms(1,2) by (auto simp: handler_begin_eq busy_ok_def split: option.splits if_splits)
  then show ?thesis by (auto simp: extends_def)
next
  case False
  then have h: "\<not> req_confirm (c_req c)" "status kv (req_id (c_req c)) = None" "kv' = kv" "t = waiting kv (c_req c)"
    "c_var c = ''''" "req_id (c_req c) \<notin> ids L"
    using assms(1,2) by (auto simp: handler_begin_eq busy_ok_def)
  show ?thesis
  proof (cases "c_req c")
    case (RGet a)
    have "busy_ok n kv' (L @ [effect_now n (kvMap kv) c]) c (Some t)"
      using effected_now [OF h(1) assms(3), of L "kvMap kv"] h RGet by (simp add: busy_ok_def)
    then show ?thesis using h RGet by (intro exI [of _ "L @ [effect_now n (kvMap kv) c]"]) (simp add: extends_def)
  qed (use h in \<open>auto simp: busy_ok_def extends_def\<close>)
qed

lemma end_effect:
  assumes "handler_end kv t = (kv', t')" "busy_ok n kv L c (Some t)" "c_start c \<le> n"
  shows "\<exists>L'. busy_ok n kv' L' c (Some t') \<and> extends n kv c L kv' L'"
proof -
  let ?L = "L @ [effect_now n (kvMap kv) c]"
  consider v where "t = Replied v" | a v where "t = GetWait a v" "\<not> req_confirm (c_req c)"
    | "\<not> req_confirm (c_req c)" "c_var c = ''''" "req_id (c_req c) \<notin> ids L"
      "kv' = kv\<lparr>kvMap := apply_op (kvMap kv) (c_req c), status := (status kv)(req_id (c_req c) \<mapsto> result (kvMap kv) (c_req c))\<rparr>"
      "t' = Replied (result (kvMap kv) (c_req c))"
    using assms(1,2) by (cases t) (auto simp: busy_ok_def handler_end_def Let_def read_key_look split: if_splits)
  then show ?thesis
  proof cases
    case 1
    then show ?thesis using assms(1,2) by (auto simp: handler_end_def extends_def)
  next
    case 2
    then show ?thesis using assms(1,2) by (auto simp: handler_end_def extends_def busy_ok_def)
  next
    case 3
    then show ?thesis using effected_now [OF 3(1) assms(3), of L "kvMap kv"]
      by (intro exI [of _ ?L]) (simp add: busy_ok_def extends_def)
  qed
qed

lemma begin_status: "handler_begin kv r = (kv', t) \<Longrightarrow> j \<noteq> req_id r \<Longrightarrow> status kv' j = status kv j"
  by (auto simp: handler_begin_eq split: if_splits option.splits)

lemma end_status:
  assumes "handler_end kv t = (kv', t')" "busy_ok n kv L c (Some t)" "j \<noteq> req_id (c_req c)"
  shows "status kv' j = status kv j"
  using assms by (cases t) (auto simp: handler_end_def busy_ok_def Let_def split: if_splits)

section \<open>The invariant of all executions\<close>

lemma lin_inv_Call:
  assumes "lin_inv s" "phases s k = Idle" "\<not> req_confirm r" "req_id r \<notin> used s"
  shows "lin_inv (set_phase (s\<lparr>used := insert (req_id r) (used s)\<rparr>) k (Busy \<lparr>c_req = r, c_var = '''', c_start = now s\<rparr> AtClerk))"
    (is "lin_inv ?s")
proof -
  obtain L fin where L: "log_ok s L fin" "clerks_at s L fin" using assms(1) by (auto simp: lin_inv_def)
  let ?i = "req_id r"
  have new: "?i \<notin> ids L" "status (skv s) ?i = None" "fin ?i = None" using L(1) assms(4) unfolding log_ok_def by blast+
  have p: "phase_id (phases ?s k') = (if k' = k then Some ?i else phase_id (phases s k'))" for k' by (simp add: phase_id_def)
  have "log_ok ?s L fin"
    by (rule log_ok_same [OF L(1)]) (use L(1) in \<open>auto simp: log_ok_def\<close>)
  moreover have "clerks_at ?s L fin"
    unfolding clerks_at_def p
  proof (intro conjI)
    note c = L(2) [unfolded clerks_at_def]
    show "\<forall>k' i. (if k' = k then Some ?i else phase_id (phases s k')) = Some i \<longrightarrow> i \<in> used ?s \<and> fin i = None"
      using c new(3) by auto
    show "\<forall>k1 k2 i. (if k1 = k then Some ?i else phase_id (phases s k1)) = Some i \<longrightarrow>
        (if k2 = k then Some ?i else phase_id (phases s k2)) = Some i \<longrightarrow> k1 = k2"
      using c assms(4) by auto
    show "\<forall>l \<in> set L. fin (l_id l) = None \<longrightarrow> (\<exists>k'. (if k' = k then Some ?i else phase_id (phases s k')) = Some (l_id l))"
    proof (intro ballI impI)
      fix l assume "l \<in> set L" "fin (l_id l) = None"
      then obtain k' where "phase_id (phases s k') = Some (l_id l)" using c by blast
      moreover have "phase_id (phases s k) = None" using assms(2) by (simp add: phase_id_def)
      ultimately show "\<exists>k'. (if k' = k then Some ?i else phase_id (phases s k')) = Some (l_id l)" by (intro exI [of _ k']) auto
    qed
    show "\<forall>k'. phase_ok (now ?s) (skv ?s) L (phases ?s k')"
      using c new assms(3) by (auto simp: phase_ok_def [of _ _ _ "Busy _ _"] busy_ok_def thread_of_def)
  qed
  ultimately show ?thesis by (auto simp: lin_inv_def)
qed

text \<open>One more element of a list with distinct keys passes the filter.\<close>

lemma mset_map_filter_add:
  assumes "distinct (map f xs)" "x \<in> set xs" "\<not> P x" "Q x" "\<And>y. y \<in> set xs \<Longrightarrow> f y \<noteq> f x \<Longrightarrow> (Q y \<longleftrightarrow> P y) \<and> g y = h y"
  shows "mset (map g (filter Q xs)) = add_mset (g x) (mset (map h (filter P xs)))"
proof -
  obtain ys zs where s: "xs = ys @ x # zs" using assms(2) by (meson split_list)
  have "(Q y \<longleftrightarrow> P y) \<and> g y = h y" if y: "y \<in> set ys \<union> set zs" for y
  proof -
    have "f x \<notin> f ` (set ys \<union> set zs)" using assms(1) unfolding s by auto
    then have "f y \<noteq> f x" using y by (metis imageI)
    then show ?thesis using assms(5) [of y] y s by auto
  qed
  then have "map g (filter Q zs) = map h (filter P zs)" "map g (filter Q ys) = map h (filter P ys)"
    by (auto cong: filter_cong map_cong)
  then show ?thesis using assms(3,4) s by simp
qed

lemma lin_inv_Log:
  assumes "lin_inv s" "phases s k = Stopped c t"
  shows "lin_inv (set_phase (s\<lparr>scfg := op (scfg s), oplog := oplog s @ [log_op cli (c_req c) (c_var c) (c_start c) t]\<rparr>) k Idle)"
    (is "lin_inv ?s")
proof -
  obtain L fin where L: "log_ok s L fin" "clerks_at s L fin" using assms(1) by (auto simp: lin_inv_def)
  note c = L(2) [unfolded clerks_at_def]
  let ?i = "req_id (c_req c)" and ?fin = "fin(req_id (c_req c) \<mapsto> (cli, c_start c, t))"
  have i: "phase_id (phases s k) = Some ?i" using assms(2) by (simp add: phase_id_def)
  have u: "?i \<in> used s" "fin ?i = None" using c i by blast+
  have "phase_ok (now s) (skv s) L (Stopped c t)" using c assms(2) by metis
  then obtain l where l: "l \<in> set L" "l_req l = set_confirm False (c_req c)" "c_start c \<le> l_time l" "l_val l = c_var c" "l_time l \<le> t"
    by (auto simp: phase_ok_def effected_def took_def)
  have d: "distinct (map l_id L)" using L(1) by (simp add: log_ok_def)
  have uniq: "l' = l" if "l' \<in> set L" "l_id l' = ?i" for l'
    using d that l(1,2) by (auto simp: distinct_map inj_on_def)
  have lg: "logged ?fin l = log_op cli (c_req c) (c_var c) (c_start c) t"
    using l by (simp add: logged_def log_op_def)
  have "mset (map (logged ?fin) (filter (\<lambda>x. ?fin (l_id x) \<noteq> None) L)) =
      add_mset (logged ?fin l) (mset (map (logged fin) (filter (\<lambda>x. fin (l_id x) \<noteq> None) L)))"
    by (rule mset_map_filter_add [OF d l(1)]) (use l u in \<open>auto simp: logged_def\<close>)
  then have m: "mset (oplog ?s) = mset (map (logged ?fin) (filter (\<lambda>x. ?fin (l_id x) \<noteq> None) L))"
    using L(1) lg by (simp add: log_ok_def)
  have "log_ok ?s L ?fin"
    unfolding log_ok_def
  proof (intro conjI)
    show "dom ?fin \<subseteq> used ?s" using L(1) u(1) by (auto simp: log_ok_def)
    show "\<forall>x \<in> set L. \<forall>cli' st en. ?fin (l_id x) = Some (cli', st, en) \<longrightarrow> st \<le> l_time x \<and> l_time x \<le> en"
    proof (intro ballI allI impI)
      fix x cli' st en assume x: "x \<in> set L" "?fin (l_id x) = Some (cli', st, en)"
      show "st \<le> l_time x \<and> l_time x \<le> en"
      proof (cases "l_id x = ?i")
        case True
        then show ?thesis using uniq [OF x(1)] x(2) l(3,5) by simp
      next
        case False
        then show ?thesis using L(1) x unfolding log_ok_def by auto
      qed
    qed
  qed (use L(1) m in \<open>simp_all add: log_ok_def op_def\<close>)
  moreover have "clerks_at ?s L ?fin"
    unfolding clerks_at_def
  proof (intro conjI)
    have p: "phase_id (phases ?s k') = (if k' = k then None else phase_id (phases s k'))" for k' by (simp add: phase_id_def)
    show "\<forall>k i. phase_id (phases ?s k) = Some i \<longrightarrow> i \<in> used ?s \<and> ?fin i = None" unfolding p using c i by auto
    show "\<forall>k k' i. phase_id (phases ?s k) = Some i \<longrightarrow> phase_id (phases ?s k') = Some i \<longrightarrow> k = k'" unfolding p using c by auto
    show "\<forall>l \<in> set L. ?fin (l_id l) = None \<longrightarrow> (\<exists>k. phase_id (phases ?s k) = Some (l_id l))"
    proof (intro ballI impI)
      fix l' assume l': "l' \<in> set L" "?fin (l_id l') = None"
      then have "fin (l_id l') = None" "l_id l' \<noteq> ?i" by (auto split: if_splits)
      then obtain k' where "phase_id (phases s k') = Some (l_id l')" using c l'(1) by blast
      with i \<open>l_id l' \<noteq> ?i\<close> show "\<exists>k. phase_id (phases ?s k) = Some (l_id l')" unfolding p by (intro exI [of _ k']) auto
    qed
    show "\<forall>k. phase_ok (now ?s) (skv ?s) L (phases ?s k)" using c by (auto simp: op_def phase_ok_def [of _ _ _ Idle])
  qed
  ultimately show ?thesis by (auto simp: lin_inv_def)
qed

lemma lin_inv_cfg:
  assumes "lin_inv s" "kserver c = skv s"
  shows "lin_inv (s\<lparr>scfg := c\<rparr>)"
  using assms unfolding lin_inv_def log_ok_def clerks_at_def by simp

lemma lin_inv_Tick:
  assumes "lin_inv s" "now s \<le> t"
  shows "lin_inv (s\<lparr>now := t\<rparr>)"
proof -
  obtain L fin where L: "log_ok s L fin" "clerks_at s L fin" using assms(1) by (auto simp: lin_inv_def)
  have "log_ok (s\<lparr>now := t\<rparr>) L fin" by (rule log_ok_same [OF L(1)]) (use L(1) assms(2) in \<open>auto simp: log_ok_def\<close>)
  moreover have "clerks_at (s\<lparr>now := t\<rparr>) L fin"
    using L(2) phase_ok_frame [of "now s" "skv s" L _ "skv s" L t] assms(2) unfolding clerks_at_def by auto
  ultimately show ?thesis by (auto simp: lin_inv_def)
qed

lemma call_ok_phase:
  assumes "phase_ok n kv L (Busy c (AtServer sn p rel lr (Some (Replied v))))"
  shows "phase_ok n kv L (call_ok c v)"
  using assms
  by (auto simp: phase_ok_def busy_ok_def call_ok_def thread_of_def Let_def effected_def took_def)

lemma call_ok_id [simp]: "phase_id (call_ok c v) = Some (req_id (c_req c))" "call_ok c v \<noteq> Idle"
  by (simp_all add: call_ok_def phase_id_def Let_def)

lemma lin_inv_step:
  assumes "kv_step er ep s s'" "lin_inv s" "waited s"
  shows "lin_inv s'"
  using assms(1)
proof cases
  case (Tick t)
  then show ?thesis using lin_inv_Tick [OF assms(2)] by simp
next
  case (Client name c)
  then show ?thesis using lin_inv_cfg [OF assms(2)] makeClient_frame(2) by simp
next
  case (Delete k c)
  then show ?thesis using lin_inv_cfg [OF assms(2)] deleteClient_frame(2) by simp
next
  case (Call k r)
  show ?thesis unfolding Call(1) by (rule lin_inv_Call [OF assms(2) Call(3-5)])
next
  case (Begin k c sn p rel lr kv t)
  show ?thesis
    unfolding Begin(1)
    by (rule lin_inv_server [OF assms(2) Begin(2)]) (use Begin(3) begin_effect begin_status in \<open>simp_all add: thread_of_def\<close>)
next
  case (End k c sn p rel lr t kv t')
  show ?thesis
    unfolding End(1)
    by (rule lin_inv_server [OF assms(2) End(2)]) (use End(3) end_effect end_status in \<open>simp_all add: thread_of_def\<close>)
next
  case (GiveUp k c sn p rel lr t e)
  then show ?thesis using waited_alive [OF assms(3)] by blast
next
  case (Orphan_begin j r kv t)
  then show ?thesis using assms(3) by (simp add: waited_def)
next
  case (Orphan_end j r t kv t')
  then show ?thesis using assms(3) by (simp add: waited_def)
next
  case (Answer k c sn p rel lr v e lost late n g n')
  show ?thesis
    by (rule lin_inv_phase [OF assms(2), of _ k "call_ok c v"])
      (use Answer call_ok_phase [of "now s" "skv s" _ c sn p rel lr v] in \<open>auto simp: phase_id_def [of "Busy _ _"]\<close>)
next
  case (Log k c t cli)
  show ?thesis unfolding Log(1) by (rule lin_inv_Log [OF assms(2) Log(2)])
next
  case (Send k c e)
  show ?thesis
    by (rule lin_inv_phase [OF assms(2), of _ k "Busy c InNet"]) (use Send in \<open>auto simp: phase_id_def phase_ok_def thread_of_def\<close>)
next
  case (Lost k c e lost)
  show ?thesis
    by (rule lin_inv_phase [OF assms(2), of _ k "Busy c AtClerk"]) (use Lost in \<open>auto simp: phase_id_def phase_ok_def thread_of_def\<close>)
next
  case (Reach k c e lost sn p rel lr)
  show ?thesis
    by (rule lin_inv_phase [OF assms(2), of _ k "Busy c (AtServer sn p rel lr None)"])
      (use Reach in \<open>auto simp: phase_id_def phase_ok_def thread_of_def\<close>)
next
  case (Drop k c sn p rel lr v e lost late n)
  show ?thesis
    by (rule lin_inv_phase [OF assms(2), of _ k "Busy c AtClerk"])
      (use Drop in \<open>auto simp: phase_id_def phase_ok_def thread_of_def busy_ok_def split: if_splits\<close>)
next
  case (Stop k c)
  show ?thesis
    by (rule lin_inv_phase [OF assms(2), of _ k "Stopped c (now s)"]) (use Stop in \<open>auto simp: phase_id_def phase_ok_def\<close>)
qed

lemma lin_inv_reach: "kv_reach er ep s \<Longrightarrow> lin_inv s"
proof (induction rule: kv_reach.induct)
  case (Start unreliable)
  have "log_ok (kv_start unreliable) [] Map.empty \<and> clerks_at (kv_start unreliable) [] Map.empty"
    by (simp add: log_ok_def clerks_at_def kv_start_def phase_ok_def phase_id_def begin_test_def make_config_def StartServer_def
        StartKVServer_def ids_def Let_def)
  then show ?case by (auto simp: lin_inv_def)
qed (auto intro: lin_inv_step waited_reach)

end
