(* ===== verification/Porc_Bitset.thy ===== *)
theory Porc_Bitset
  imports Go_Prelude
begin

text \<open>
  The bit sets of the linearizability checker (src/porcupine/bitset.go): slices of 64-bit words, bit \<open>pos\<close>
  in word \<open>pos / 64\<close>. \<^verbatim>\<open>set\<close> and \<^verbatim>\<open>clear\<close> write into the array of their receiver; the model returns
  the updated bit set, and the checker's calls of \<^verbatim>\<open>clone\<close> decide which variable receives it.
\<close>

type_synonym bitset = "64 word list"

definition newBitset :: "nat \<Rightarrow> bitset" where
  "newBitset bits =
     (let extra = (if bits mod 64 \<noteq> 0 then 1 else 0); chunks = bits div 64 + extra in replicate chunks 0)"

definition clone :: "bitset \<Rightarrow> bitset" where
  "clone b = copy_into (replicate (length b) 0) b"

definition bitsetIndex :: "nat \<Rightarrow> nat \<times> nat" where
  "bitsetIndex pos = (pos div 64, pos mod 64)"

definition bs_set :: "bitset \<Rightarrow> nat \<Rightarrow> bitset res" where
  "bs_set b pos =
     (let (major, minor) = bitsetIndex pos
      in bindR (index b (int major)) (\<lambda>w. set_index b (int major) (or w (push_bit minor 1))))"

definition bs_clear :: "bitset \<Rightarrow> nat \<Rightarrow> bitset res" where
  "bs_clear b pos =
     (let (major, minor) = bitsetIndex pos
      in bindR (index b (int major)) (\<lambda>w. set_index b (int major) (and w (not (push_bit minor 1)))))"

definition bs_get :: "bitset \<Rightarrow> nat \<Rightarrow> bool res" where
  "bs_get b pos =
     (let (major, minor) = bitsetIndex pos
      in bindR (index b (int major)) (\<lambda>w. Inr (and w (push_bit minor 1) \<noteq> 0)))"

definition OnesCount64 :: "64 word \<Rightarrow> nat" where
  "OnesCount64 w = length (filter (bit w) [0..<64])"

definition popcnt :: "bitset \<Rightarrow> nat" where
  "popcnt b = foldl (\<lambda>total v. total + OnesCount64 v) 0 b"

definition bs_hash :: "bitset \<Rightarrow> 64 word" where
  "bs_hash b = foldl (\<lambda>h v. xor h v) (word_of_nat (popcnt b)) b"

fun equals_from :: "bitset \<Rightarrow> bitset \<Rightarrow> bool" where
  "equals_from (x # xs) (y # ys) = (if x \<noteq> y then False else equals_from xs ys)"
| "equals_from _ _ = True"

definition bs_equals :: "bitset \<Rightarrow> bitset \<Rightarrow> bool" where
  "bs_equals b b2 = (if length b \<noteq> length b2 then False else equals_from b b2)"

section \<open>Bit sets as sets of numbers\<close>

definition members :: "bitset \<Rightarrow> nat set" where
  "members b = {pos. pos div 64 < length b \<and> bit (b ! (pos div 64)) (pos mod 64)}"

lemma members_bound: "pos \<in> members b \<Longrightarrow> pos < 64 * length b"
  by (auto simp: members_def)

lemma clone_same [simp]: "clone b = b"
  by (simp add: clone_def)

lemma length_newBitset: "n \<le> 64 * length (newBitset n)"
  by (auto simp: newBitset_def Let_def)

lemma members_newBitset: "members (newBitset n) = {}"
  by (auto simp: members_def newBitset_def Let_def)

lemma bs_set_in_range:
  assumes "pos < 64 * length b"
  shows "bs_set b pos = Inr (b[pos div 64 := or (b ! (pos div 64)) (push_bit (pos mod 64) 1)])"
proof -
  have "pos div 64 < length b" using assms by auto
  then show ?thesis by (simp add: bs_set_def bitsetIndex_def set_index_def)
qed

lemma bs_clear_in_range:
  assumes "pos < 64 * length b"
  shows "bs_clear b pos = Inr (b[pos div 64 := and (b ! (pos div 64)) (not (push_bit (pos mod 64) 1))])"
proof -
  have "pos div 64 < length b" using assms by auto
  then show ?thesis by (simp add: bs_clear_def bitsetIndex_def set_index_def)
qed

lemma bit_push_one: "bit (2 ^ i :: 64 word) j \<longleftrightarrow> i = j \<and> j < 64"
  by (auto simp: bit_exp_iff)

lemma members_iff: "j < 64 \<Longrightarrow> 64 * m + j \<in> members b \<longleftrightarrow> m < length b \<and> bit (b ! m) j"
  by (simp add: members_def)

lemma position_cases: obtains m j where "(q :: nat) = 64 * m + j" "j < 64"
proof
  show "q = 64 * (q div 64) + q mod 64" "q mod 64 < 64" by simp_all
qed

lemma position_inject:
  fixes m j m0 i0 :: nat
  assumes "j < 64" "i0 < 64"
  shows "64 * m + j = 64 * m0 + i0 \<longleftrightarrow> m = m0 \<and> j = i0"
proof
  assume h: "64 * m + j = 64 * m0 + i0"
  then have "(64 * m + j) div 64 = (64 * m0 + i0) div 64" by (simp only:)
  then have "m = m0" using assms by simp
  with h show "m = m0 \<and> j = i0" by simp
qed simp

lemma members_update:
  assumes "m0 < length b" "i0 < 64"
    and bits: "\<And>j. j < 64 \<Longrightarrow> bit w j \<longleftrightarrow> (if j = i0 then v else bit (b ! m0) j)"
  shows "members (b[m0 := w]) = (if v then insert (64 * m0 + i0) (members b) else members b - {64 * m0 + i0})"
proof -
  have *: "q \<in> members (b[m0 := w]) \<longleftrightarrow> (if q = 64 * m0 + i0 then v else q \<in> members b)" for q
  proof (rule position_cases [of q])
    fix m j assume q: "q = 64 * m + j" "j < 64"
    have eq: "64 * m + j = 64 * m0 + i0 \<longleftrightarrow> m = m0 \<and> j = i0" by (rule position_inject [OF q(2) assms(2)])
    have "64 * m + j \<in> members (b[m0 := w]) \<longleftrightarrow> m < length b \<and> bit (b[m0 := w] ! m) j"
      by (subst members_iff [OF q(2)]) (simp only: length_list_update)
    also have "\<dots> \<longleftrightarrow> (if m = m0 \<and> j = i0 then v else m < length b \<and> bit (b ! m) j)"
      using assms(1) bits [OF q(2)] by (cases "m = m0") auto
    also have "\<dots> \<longleftrightarrow> (if 64 * m + j = 64 * m0 + i0 then v else 64 * m + j \<in> members b)"
      unfolding eq by (subst members_iff [OF q(2)]) (rule refl)
    finally show ?thesis unfolding q(1) .
  qed
  show ?thesis by (rule set_eqI) (simp add: *)
qed

lemma members_update_at:
  assumes "pos < 64 * length b"
    and "\<And>j. j < 64 \<Longrightarrow> bit w j \<longleftrightarrow> (if j = pos mod 64 then v else bit (b ! (pos div 64)) j)"
  shows "members (b[pos div 64 := w]) = (if v then insert pos (members b) else members b - {pos})"
proof -
  have "pos div 64 < length b" using assms(1) by auto
  from members_update [OF this _ assms(2)] show ?thesis by simp
qed

lemma bs_set_members:
  assumes "pos < 64 * length b"
  shows "\<exists>b'. bs_set b pos = Inr b' \<and> length b' = length b \<and> members b' = insert pos (members b)"
proof -
  have "members (b[pos div 64 := or (b ! (pos div 64)) (push_bit (pos mod 64) 1)]) = insert pos (members b)"
    by (subst members_update_at [OF assms, of _ True]) (auto simp: bit_or_iff bit_push_one)
  then show ?thesis by (simp add: bs_set_in_range [OF assms])
qed

lemma bs_clear_members:
  assumes "pos < 64 * length b"
  shows "\<exists>b'. bs_clear b pos = Inr b' \<and> length b' = length b \<and> members b' = members b - {pos}"
proof -
  have "members (b[pos div 64 := and (b ! (pos div 64)) (not (push_bit (pos mod 64) 1))]) = members b - {pos}"
    by (subst members_update_at [OF assms, of _ False]) (auto simp: bit_and_iff bit_not_iff bit_push_one)
  then show ?thesis by (simp add: bs_clear_in_range [OF assms])
qed

lemma bs_get_members:
  assumes "pos < 64 * length b"
  shows "bs_get b pos = Inr (pos \<in> members b)"
proof -
  have l: "pos div 64 < length b" using assms by auto
  have "and w (push_bit i 1) \<noteq> 0 \<longleftrightarrow> bit w i" if "i < 64" for w :: "64 word" and i
  proof -
    have "and w (push_bit i 1) = (if bit w i then push_bit i 1 else 0)"
      using that by (intro bit_eqI) (auto simp: bit_and_iff bit_push_one)
    moreover have "push_bit i 1 \<noteq> (0 :: 64 word)" using that by (simp add: exp_eq_zero_iff)
    ultimately show ?thesis by simp
  qed
  then show ?thesis using l by (simp add: bs_get_def bitsetIndex_def members_def)
qed

lemma bs_equals_iff: "bs_equals b b2 \<longleftrightarrow> b = b2"
proof -
  have "length b = length b2 \<Longrightarrow> equals_from b b2 \<longleftrightarrow> b = b2"
    by (induction b b2 rule: list_induct2) auto
  then show ?thesis by (auto simp: bs_equals_def)
qed

lemma members_inject:
  assumes "length b = length c" "members b = members c"
  shows "b = c"
proof (rule nth_equalityI [OF assms(1)])
  fix i assume i: "i < length b"
  show "b ! i = c ! i"
  proof (rule bit_eqI)
    fix j assume "possible_bit TYPE(64 word) j"
    then have j: "j < 64" by simp
    have "64 * i + j \<in> members b \<longleftrightarrow> 64 * i + j \<in> members c" using assms(2) by simp
    then show "bit (b ! i) j \<longleftrightarrow> bit (c ! i) j" using i j assms(1) by (simp add: members_def)
  qed
qed

section \<open>The interface of a set of small numbers\<close>

text \<open>
  What the checker relies on: \<open>fits n b\<close> says that \<open>b\<close> has room for the numbers below \<open>n\<close>; within that
  bound no operation panics, and \<open>same\<close> decides equality of the sets.
\<close>

locale bounded_set =
  fixes new :: "nat \<Rightarrow> 'b"
    and ins del :: "'b \<Rightarrow> nat \<Rightarrow> 'b res"
    and mem :: "'b \<Rightarrow> nat \<Rightarrow> bool res"
    and same :: "'b \<Rightarrow> 'b \<Rightarrow> bool"
    and elems :: "'b \<Rightarrow> nat set"
    and fits :: "nat \<Rightarrow> 'b \<Rightarrow> bool"
  assumes new: "fits n (new n)" "elems (new n) = {}"
    and ins: "fits n b \<Longrightarrow> i < n \<Longrightarrow> \<exists>b'. ins b i = Inr b' \<and> fits n b' \<and> elems b' = insert i (elems b)"
    and del: "fits n b \<Longrightarrow> i < n \<Longrightarrow> \<exists>b'. del b i = Inr b' \<and> fits n b' \<and> elems b' = elems b - {i}"
    and mem: "fits n b \<Longrightarrow> i < n \<Longrightarrow> mem b i = Inr (i \<in> elems b)"
    and same: "fits n b \<Longrightarrow> fits n c \<Longrightarrow> same b c \<longleftrightarrow> elems b = elems c"
begin

lemma insE:
  assumes "fits n b" "i < n"
  obtains b' where "ins b i = Inr b'" "fits n b'" "elems b' = insert i (elems b)"
  using ins [OF assms] by blast

lemma delE:
  assumes "fits n b" "i < n"
  obtains b' where "del b i = Inr b'" "fits n b'" "elems b' = elems b - {i}"
  using del [OF assms] by blast

lemma ins_all:
  assumes "fits n b" "\<forall>i \<in> set is. i < n"
  shows "\<exists>b'. foldR ins b is = Inr b' \<and> fits n b' \<and> elems b' = elems b \<union> set is"
  using assms
proof (induction "is" arbitrary: b)
  case (Cons i "is")
  from Cons.prems obtain c where c: "ins b i = Inr c" "fits n c" "elems c = insert i (elems b)"
    by (auto elim: insE)
  with Cons.IH [of c] Cons.prems show ?case by auto
qed simp

lemma ins_del:
  assumes "fits n b" "i < n" "i \<notin> elems b"
  shows "\<exists>b'. bindR (ins b i) (\<lambda>c. del c i) = Inr b' \<and> same b' b"
proof -
  obtain c where c: "ins b i = Inr c" "fits n c" "elems c = insert i (elems b)"
    using assms(1,2) by (rule insE)
  obtain d where d: "del c i = Inr d" "fits n d" "elems d = elems c - {i}"
    using c(2) assms(2) by (rule delE)
  have "same d b" using same [OF d(2) assms(1)] c(3) d(3) assms(3) by simp
  with c d show ?thesis by simp
qed

lemma mem_ins_all:
  assumes "\<forall>i \<in> set is. i < n" "j < n"
  shows "\<exists>b'. foldR ins (new n) is = Inr b' \<and> mem b' j = Inr (j \<in> set is)"
proof -
  obtain b' where b': "foldR ins (new n) is = Inr b'" "fits n b'" "elems b' = elems (new n) \<union> set is"
    using ins_all [OF new(1) assms(1)] by blast
  then show ?thesis using mem [OF b'(2) assms(2)] new(2) by simp
qed

end

definition bs_fits :: "nat \<Rightarrow> bitset \<Rightarrow> bool" where
  "bs_fits n b \<longleftrightarrow> length b = length (newBitset n)"

lemma bs_fits_room: "bs_fits n b \<Longrightarrow> i < n \<Longrightarrow> i < 64 * length b"
  using length_newBitset [of n] by (simp add: bs_fits_def)

interpretation bs: bounded_set newBitset bs_set bs_clear bs_get bs_equals members bs_fits
proof
  fix n i b c
  show "bs_fits n (newBitset n)" "members (newBitset n) = {}"
    by (simp_all add: bs_fits_def members_newBitset)
  assume b: "bs_fits n b"
  { assume "i < n"
    with b have r: "i < 64 * length b" by (rule bs_fits_room)
    show "\<exists>b'. bs_set b i = Inr b' \<and> bs_fits n b' \<and> members b' = insert i (members b)"
      using bs_set_members [OF r] b by (auto simp: bs_fits_def)
    show "\<exists>b'. bs_clear b i = Inr b' \<and> bs_fits n b' \<and> members b' = members b - {i}"
      using bs_clear_members [OF r] b by (auto simp: bs_fits_def)
    show "bs_get b i = Inr (i \<in> members b)" using r by (rule bs_get_members) }
  assume "bs_fits n c"
  with b have "length b = length c" by (simp add: bs_fits_def)
  then show "bs_equals b c \<longleftrightarrow> members b = members c" using members_inject by (auto simp: bs_equals_iff)
qed

lemma members_snoc: "members (b @ [w]) = members b \<union> (\<lambda>j. 64 * length b + j) ` {j. j < 64 \<and> bit w j}"
proof (rule set_eqI)
  fix q
  let ?S = "(\<lambda>j. 64 * length b + j) ` {j. j < 64 \<and> bit w j}"
  show "q \<in> members (b @ [w]) \<longleftrightarrow> q \<in> members b \<union> ?S"
  proof (rule position_cases [of q])
    fix m j assume q: "q = 64 * m + j" "j < 64"
    have "q \<in> ?S \<longleftrightarrow> m = length b \<and> bit w j"
    proof
      assume "q \<in> ?S"
      then obtain i where i: "q = 64 * length b + i" "i < 64" "bit w i" by (elim imageE CollectE conjE)
      have "64 * m + j = 64 * length b + i" by (rule trans [OF q(1) [symmetric] i(1)])
      then have "m = length b \<and> j = i" by (rule iffD1 [OF position_inject [OF q(2) i(2)]])
      with i(3) show "m = length b \<and> bit w j" by simp
    next
      assume "m = length b \<and> bit w j"
      then show "q \<in> ?S" by (intro image_eqI [of _ _ j]) (simp_all add: q)
    qed
    moreover have mem: "q \<in> members c \<longleftrightarrow> m < length c \<and> bit (c ! m) j" for c
      unfolding q(1) by (rule members_iff [OF q(2)])
    moreover have "m < length (b @ [w]) \<and> bit ((b @ [w]) ! m) j \<longleftrightarrow>
        m < length b \<and> bit (b ! m) j \<or> m = length b \<and> bit w j"
      by (cases "m < length b"; cases "m = length b") (simp_all add: nth_append)
    ultimately show ?thesis by (simp only: Un_iff)
  qed
qed

lemma card_members_snoc: "card (members (b @ [w])) = card (members b) + OnesCount64 w"
proof -
  let ?S = "(\<lambda>j. 64 * length b + j) ` {j. j < 64 \<and> bit w j}"
  have below: "q < 64 * length b" if "q \<in> members b" for q using that by (rule members_bound)
  have "64 * length b \<le> q" if "q \<in> ?S" for q using that by (elim imageE) simp
  then have "members b \<inter> ?S = {}" using below leD by blast
  moreover have "finite (members b)"
    by (rule finite_subset [of _ "{..<64 * length b}"]) (use below in blast, simp)
  moreover have "card ?S = OnesCount64 w"
  proof -
    have "card ?S = card {j. j < 64 \<and> bit w j}" by (rule card_image) (simp add: inj_on_def)
    moreover have "{j. j < 64 \<and> bit w j} = set (filter (bit w) [0..<64])" by (simp only: set_filter set_upt) auto
    moreover have "card (set (filter (bit w) [0..<64])) = OnesCount64 w"
      unfolding OnesCount64_def by (rule distinct_card) (simp only: distinct_filter distinct_upt)
    ultimately show ?thesis by (simp only:)
  qed
  moreover have "finite ?S" by (rule finite_imageI) simp
  ultimately show ?thesis unfolding members_snoc by (simp only: card_Un_disjoint)
qed

text \<open>
  C40. Setting bits: starting from a new bit set for \<open>n\<close> bits, setting any positions below \<open>n\<close> never panics, and
  afterwards exactly the set positions read as set and \<^verbatim>\<open>popcnt\<close> is their number (duplicates count once).
\<close>

theorem bitset_correct:
  assumes "\<forall>i \<in> set is. i < n"
  shows "\<exists>b. foldR bs_set (newBitset n) is = Inr b \<and> popcnt b = card (set is) \<and>
    (\<forall>j < n. bs_get b j = Inr (j \<in> set is))"
proof -
  obtain b where b: "foldR bs_set (newBitset n) is = Inr b" "bs_fits n b" "members b = members (newBitset n) \<union> set is"
    using bs.ins_all [OF bs.new(1) assms] by blast
  have "popcnt c = card (members c)" for c
  proof (induction c rule: rev_induct)
    case Nil
    show ?case by (simp add: popcnt_def members_def)
  next
    case (snoc w c)
    then show ?case by (simp add: popcnt_def card_members_snoc)
  qed
  then show ?thesis using b bs.mem [OF b(2)] by (simp add: members_newBitset)
qed

theorem bitset_correct_witness:
  "\<exists>b. foldR bs_set (newBitset 70) [3, 69, 3] = Inr b \<and> popcnt b = 2 \<and> bs_get b 69 = Inr True \<and> bs_get b 68 = Inr False"
proof -
  have "card {3, 69, 3 :: nat} = 2" by (simp add: card_insert_if)
  then show ?thesis using bitset_correct [of "[3, 69, 3]" 70] by auto
qed

text \<open>Setting an unset bit and clearing it again gives back the bit set.\<close>

lemma bitset_set_clear:
  assumes "pos < n" "length b = length (newBitset n)" "bs_get b pos = Inr False"
  shows "bindR (bs_set b pos) (\<lambda>b'. bs_clear b' pos) = Inr b"
proof -
  have f: "bs_fits n b" using assms(2) by (simp add: bs_fits_def)
  have "pos \<notin> members b" using bs.mem [OF f assms(1)] assms(3) by simp
  from bs.ins_del [OF f assms(1) this] show ?thesis by (auto simp: bs_equals_iff)
qed

end
