(* ===== verification/Porc_Links.thy ===== *)
theory Porc_Links
  imports Porc_Model
begin

text \<open>
  The doubly linked list of src/porcupine/checker.go in an explicit store. A node is allocated by appending to the
  store and its address is its index; a pointer is an address or nil. \<^verbatim>\<open>lift\<close> unlinks a call and its return
  and leaves the pointers of the two nodes as they are, and \<^verbatim>\<open>unlift\<close> uses these to link them again.
\<close>

type_synonym ptr = "nat option"

record 'v node =
  nvalue :: "'v option" \<comment> \<open>the head node has the value nil\<close>
  nmatch :: ptr
  nid :: int
  nnext :: ptr
  nprev :: ptr

type_synonym 'v store = "'v node list"

definition alloc :: "'v store \<Rightarrow> 'v node \<Rightarrow> 'v store \<times> nat" where
  "alloc h n = (h @ [n], length h)"

definition deref :: "'v store \<Rightarrow> ptr \<Rightarrow> 'v node res" where
  "deref h p = (case p of None \<Rightarrow> Inl NilDereference | Some a \<Rightarrow> index h (int a))"

definition set_next :: "'v store \<Rightarrow> ptr \<Rightarrow> ptr \<Rightarrow> 'v store res" where
  "set_next h p q =
     (case p of None \<Rightarrow> Inl NilDereference
      | Some a \<Rightarrow> bindR (index h (int a)) (\<lambda>n. set_index h (int a) (n\<lparr>nnext := q\<rparr>)))"

definition set_prev :: "'v store \<Rightarrow> ptr \<Rightarrow> ptr \<Rightarrow> 'v store res" where
  "set_prev h p q =
     (case p of None \<Rightarrow> Inl NilDereference
      | Some a \<Rightarrow> bindR (index h (int a)) (\<lambda>n. set_index h (int a) (n\<lparr>nprev := q\<rparr>)))"

definition insertBefore :: "'v store \<Rightarrow> nat \<Rightarrow> ptr \<Rightarrow> 'v store res" where
  "insertBefore h n mark =
     (if mark \<noteq> None then
        bindR (deref h mark) (\<lambda>mk. let beforeMark = nprev mk in
        bindR (set_prev h mark (Some n)) (\<lambda>h1.
        bindR (set_next h1 (Some n) mark) (\<lambda>h2.
          if beforeMark \<noteq> None then
            bindR (set_prev h2 (Some n) beforeMark) (\<lambda>h3. set_next h3 beforeMark (Some n))
          else Inr h2)))
      else Inr h)"

text \<open>\<^verbatim>\<open>length\<close> follows the links; a cyclic list would not end.\<close>

partial_function (option) length_from :: "'v store \<Rightarrow> nat \<Rightarrow> ptr \<Rightarrow> nat res option" where
  "length_from h l n =
     (case n of
        None \<Rightarrow> Some (Inr l)
      | Some a \<Rightarrow> (case index h (int a) of Inl p \<Rightarrow> Some (Inl p) | Inr nd \<Rightarrow> length_from h (l + 1) (nnext nd)))"

declare length_from.simps [code]

definition node_length :: "'v store \<Rightarrow> ptr \<Rightarrow> nat res option" where
  "node_length h n = length_from h 0 n"

text \<open>One round of the loop of \<^verbatim>\<open>makeLinkedEntries\<close>, which goes over the entries from the last to the first.\<close>

definition link_entry ::
  "'v store \<times> ptr \<times> (int \<rightharpoonup> nat) \<Rightarrow> 'v entry \<Rightarrow> ('v store \<times> ptr \<times> (int \<rightharpoonup> nat)) res" where
  "link_entry s elem =
     (case s of (h, root, match) \<Rightarrow>
        if kind elem = returnEntry then
          (let (h1, entry) = alloc h \<lparr>nvalue = Some (evalue elem), nmatch = None, nid = eid elem, nnext = None, nprev = None\<rparr>;
               match1 = match(eid elem \<mapsto> entry)
           in bindR (insertBefore h1 entry root) (\<lambda>h2. Inr (h2, Some entry, match1)))
        else
          (let (h1, entry) = alloc h \<lparr>nvalue = Some (evalue elem), nmatch = match (eid elem), nid = eid elem, nnext = None, nprev = None\<rparr>
           in bindR (insertBefore h1 entry root) (\<lambda>h2. Inr (h2, Some entry, match))))"

definition makeLinkedEntries :: "'v entry list \<Rightarrow> ('v store \<times> ptr) res" where
  "makeLinkedEntries entries =
     bindR (foldR link_entry ([], None, Map.empty) (rev entries)) (\<lambda>(h, root, match). Inr (h, root))"

definition lift :: "'v store \<Rightarrow> nat \<Rightarrow> 'v store res" where
  "lift h entry =
     bindR (index h (int entry)) (\<lambda>e.
     bindR (set_next h (nprev e) (nnext e)) (\<lambda>h1.
     bindR (index h1 (int entry)) (\<lambda>e1.
     bindR (set_prev h1 (nnext e1) (nprev e1)) (\<lambda>h2.
     bindR (deref h2 (nmatch e1)) (\<lambda>m.
     bindR (set_next h2 (nprev m) (nnext m)) (\<lambda>h3.
     bindR (deref h3 (nmatch e1)) (\<lambda>m1.
       if nnext m1 \<noteq> None then set_prev h3 (nnext m1) (nprev m1) else Inr h3)))))))"

definition unlift :: "'v store \<Rightarrow> nat \<Rightarrow> 'v store res" where
  "unlift h entry =
     bindR (index h (int entry)) (\<lambda>e. let match = nmatch e in
     bindR (deref h match) (\<lambda>m.
     bindR (set_next h (nprev m) match) (\<lambda>h1.
     bindR (deref h1 match) (\<lambda>m1.
     bindR (if nnext m1 \<noteq> None then set_prev h1 (nnext m1) match else Inr h1) (\<lambda>h2.
     bindR (index h2 (int entry)) (\<lambda>e2.
     bindR (set_next h2 (nprev e2) (Some entry)) (\<lambda>h3.
     bindR (index h3 (int entry)) (\<lambda>e3. set_prev h3 (nnext e3) (Some entry)))))))))"

section \<open>Lists in the store\<close>

definition upd_next :: "'v store \<Rightarrow> nat \<Rightarrow> ptr \<Rightarrow> 'v store" where
  "upd_next h a q = h[a := (h ! a)\<lparr>nnext := q\<rparr>]"

definition upd_prev :: "'v store \<Rightarrow> nat \<Rightarrow> ptr \<Rightarrow> 'v store" where
  "upd_prev h a q = h[a := (h ! a)\<lparr>nprev := q\<rparr>]"

lemma set_next_ok [simp]: "a < length h \<Longrightarrow> set_next h (Some a) q = Inr (upd_next h a q)"
  by (simp add: set_next_def set_index_def upd_next_def)

lemma set_prev_ok [simp]: "a < length h \<Longrightarrow> set_prev h (Some a) q = Inr (upd_prev h a q)"
  by (simp add: set_prev_def set_index_def upd_prev_def)

lemma deref_ok [simp]: "a < length h \<Longrightarrow> deref h (Some a) = Inr (h ! a)"
  by (simp add: deref_def)

lemma length_upd [simp]: "length (upd_next h a q) = length h" "length (upd_prev h a q) = length h"
  by (simp_all add: upd_next_def upd_prev_def)

lemma nth_upd:
  "b < length h \<Longrightarrow> upd_next h a q ! b = (if a = b then (h ! b)\<lparr>nnext := q\<rparr> else h ! b)"
  "b < length h \<Longrightarrow> upd_prev h a q ! b = (if a = b then (h ! b)\<lparr>nprev := q\<rparr> else h ! b)"
  by (auto simp: upd_next_def upd_prev_def nth_list_update)

text \<open>\<open>seg h p xs\<close>: the links lead from \<open>p\<close> through \<open>xs\<close>; \<open>dll\<close>: and the last one is the end of the list.\<close>

fun seg :: "'v store \<Rightarrow> nat \<Rightarrow> nat list \<Rightarrow> bool" where
  "seg h p [] = True"
| "seg h p (a # as) = (nnext (h ! p) = Some a \<and> nprev (h ! a) = Some p \<and> seg h a as)"

definition dll :: "'v store \<Rightarrow> nat \<Rightarrow> nat list \<Rightarrow> bool" where
  "dll h p xs \<longleftrightarrow> seg h p xs \<and> nnext (h ! last (p # xs)) = None"

definition linked :: "'v store \<Rightarrow> nat \<Rightarrow> nat list \<Rightarrow> bool" where
  "linked h p xs \<longleftrightarrow> distinct (p # xs) \<and> set (p # xs) \<subseteq> {..<length h} \<and> dll h p xs"

lemma seg_append: "seg h p (xs @ ys) \<longleftrightarrow> seg h p xs \<and> seg h (last (p # xs)) ys"
  by (induction xs arbitrary: p) auto

lemma seg_cong:
  assumes "\<And>c. c \<in> set (butlast (p # xs)) \<Longrightarrow> nnext (h ! c) = nnext (h' ! c)"
    "\<And>c. c \<in> set xs \<Longrightarrow> nprev (h ! c) = nprev (h' ! c)"
  shows "seg h p xs = seg h' p xs"
  using assms by (induction xs arbitrary: p) auto

definition unlink :: "'v store \<Rightarrow> nat \<Rightarrow> 'v store" where
  "unlink h a =
     (let h1 = upd_next h (the (nprev (h ! a))) (nnext (h ! a))
      in case nnext (h ! a) of None \<Rightarrow> h1 | Some b \<Rightarrow> upd_prev h1 b (nprev (h ! a)))"

definition relink :: "'v store \<Rightarrow> nat \<Rightarrow> 'v store" where
  "relink h a =
     (let h1 = upd_next h (the (nprev (h ! a))) (Some a)
      in case nnext (h ! a) of None \<Rightarrow> h1 | Some b \<Rightarrow> upd_prev h1 b (Some a))"

lemma length_unlink [simp]: "length (unlink h a) = length h"
  by (simp add: unlink_def Let_def split: option.split)

lemma linked_split:
  assumes "linked h p (xs @ a # ys)"
  shows "nprev (h ! a) = Some (last (p # xs))" "nnext (h ! last (p # xs)) = Some a"
    "nnext (h ! a) = (case ys of [] \<Rightarrow> None | b # _ \<Rightarrow> Some b)"
    "seg h p xs" "\<And>b bs. ys = b # bs \<Longrightarrow> nprev (h ! b) = Some a \<and> seg h b bs"
    "nnext (h ! last (a # ys)) = None"
    "last (p # xs) < length h" "a < length h" "last (p # xs) \<noteq> a" "a \<notin> set (xs @ ys)" "a \<noteq> p"
    "last (p # xs) \<notin> set ys" "last (p # xs) \<in> set (p # xs)"
proof -
  let ?P = "last (p # xs)"
  have P: "?P \<in> set (p # xs)" by (rule last_in_set) simp
  then show "?P \<in> set (p # xs)" .
  from assms have "seg h ?P (a # ys)" "seg h p xs" "nnext (h ! last (p # xs @ a # ys)) = None"
    by (auto simp: linked_def dll_def seg_append simp del: last.simps)
  then show "nprev (h ! a) = Some ?P" "nnext (h ! ?P) = Some a" "seg h p xs"
    "\<And>b bs. ys = b # bs \<Longrightarrow> nprev (h ! b) = Some a \<and> seg h b bs" "nnext (h ! last (a # ys)) = None"
    "nnext (h ! a) = (case ys of [] \<Rightarrow> None | b # _ \<Rightarrow> Some b)"
    by (auto split: list.splits)
  from assms P show "?P < length h" "a < length h" "?P \<noteq> a" "a \<notin> set (xs @ ys)" "a \<noteq> p" "?P \<notin> set ys"
    by (auto simp: linked_def simp del: last.simps)
qed

lemma linked_unlink:
  assumes "linked h p (xs @ a # ys)"
  shows "linked (unlink h a) p (xs @ ys)"
proof -
  let ?P = "last (p # xs)"
  note l = linked_split [OF assms]
  from assms have d: "distinct (p # xs @ ys)" and b: "set (p # xs @ ys) \<subseteq> {..<length h}"
    by (auto simp: linked_def)
  have "distinct (butlast (p # xs) @ [?P])" unfolding append_butlast_last_id [OF list.distinct(2)] using d by simp
  then have nb: "?P \<notin> set (butlast (p # xs))" by (simp only: distinct_append) simp
  have bl: "c \<in> set (p # xs)" "c < length h" "?P \<noteq> c" if "c \<in> set (butlast (p # xs))" for c
  proof -
    show "c \<in> set (p # xs)" using that by (rule in_set_butlastD)
    then show "c < length h" using b by auto
    show "?P \<noteq> c" using that nb by blast
  qed
  have xl: "c < length h" if "c \<in> set xs \<or> c \<in> set ys" for c using that b by auto
  show ?thesis
  proof (cases ys)
    case Nil
    then have u: "unlink h a = upd_next h ?P None" using l(1,3) by (simp add: unlink_def)
    have "seg (unlink h a) p xs = seg h p xs"
      unfolding u by (rule seg_cong) (use bl xl in \<open>simp_all add: nth_upd del: last.simps butlast.simps\<close>)
    then show ?thesis
      using d b l(4,7) Nil by (simp add: linked_def dll_def u nth_upd del: last.simps)
  next
    case (Cons b' bs)
    then have u: "unlink h a = upd_prev (upd_next h ?P (Some b')) b' (Some ?P)" using l(1,3) by (simp add: unlink_def)
    have b': "b' < length h" "b' \<notin> set (p # xs)" "b' \<notin> set bs" "b' \<noteq> ?P" using b d Cons l(12) by (auto simp del: last.simps)
    have "seg (unlink h a) p xs = seg h p xs"
      unfolding u using b'
      by (intro seg_cong) (use bl xl in \<open>auto simp: nth_upd simp del: last.simps butlast.simps\<close>)
    moreover have "seg (unlink h a) b' bs = seg h b' bs"
    proof (rule seg_cong)
      fix c assume "c \<in> set (butlast (b' # bs))"
      then have "c \<in> set ys" unfolding Cons by (rule in_set_butlastD)
      then have "c < length h" "c \<noteq> ?P" using xl l(12) by auto
      then show "nnext (unlink h a ! c) = nnext (h ! c)" unfolding u by (simp add: nth_upd del: last.simps)
    next
      fix c assume "c \<in> set bs"
      then show "nprev (unlink h a ! c) = nprev (h ! c)"
        unfolding u using b' xl Cons by (auto simp: nth_upd simp del: last.simps)
    qed
    moreover have "nnext (unlink h a ! ?P) = Some b'" "nprev (unlink h a ! b') = Some ?P"
      using l(7) b' by (auto simp: u nth_upd simp del: last.simps)
    moreover have "nnext (unlink h a ! last (b' # bs)) = None"
    proof -
      have "last (b' # bs) \<in> set ys" unfolding Cons by (rule last_in_set) simp
      moreover have "last (b' # bs) < length h" using calculation b by auto
      ultimately show ?thesis using l(6,12) Cons b' by (auto simp: u nth_upd simp del: last.simps) (auto split: if_splits)
    qed
    ultimately have "dll (unlink h a) p (xs @ b' # bs)"
      using l(4,5) Cons by (simp add: dll_def seg_append)
    then show ?thesis using d b Cons by (simp add: linked_def)
  qed
qed

lemma nth_unlink:
  assumes "linked h p (xs @ a # ys)" "c < length h"
  shows "nvalue (unlink h a ! c) = nvalue (h ! c)" "nmatch (unlink h a ! c) = nmatch (h ! c)"
    "nid (unlink h a ! c) = nid (h ! c)" "c = a \<Longrightarrow> unlink h a ! c = h ! c"
  using linked_split(1,3,9,10) [OF assms(1)] assms(2)
  by (auto simp: unlink_def Let_def nth_upd split: list.splits)

lemma relink_unlink:
  assumes "linked h p (xs @ a # ys)"
  shows "relink (unlink h a) a = h"
proof -
  note l = linked_split [OF assms]
  let ?P = "last (p # xs)"
  have a: "unlink h a ! a = h ! a" using nth_unlink(4) [OF assms l(8)] by simp
  show ?thesis
  proof (cases ys)
    case Nil
    then have "unlink h a = upd_next h ?P None" using l(1,3) by (simp add: unlink_def)
    moreover have "relink (unlink h a) a = upd_next (unlink h a) ?P (Some a)"
      using Nil l(1,3) by (simp add: relink_def a)
    ultimately show ?thesis using l(2) by (intro nth_equalityI) (auto simp: nth_upd simp del: last.simps)
  next
    case (Cons b bs)
    then have "unlink h a = upd_prev (upd_next h ?P (Some b)) b (Some ?P)" using l(1,3) by (simp add: unlink_def)
    moreover have "relink (unlink h a) a = upd_prev (upd_next (unlink h a) ?P (Some a)) b (Some a)"
      using Cons l(1,3) by (simp add: relink_def a)
    moreover have "nprev (h ! b) = Some a" "b \<noteq> ?P" using l(5,12) Cons by auto
    ultimately show ?thesis using l(2) by (intro nth_equalityI) (auto simp: nth_upd simp del: last.simps)
  qed
qed

lemma unlink_bounds:
  assumes "linked h p (xs @ a # ys)"
  shows "\<exists>P. nprev (h ! a) = Some P \<and> P < length h \<and> P \<noteq> a"
    "nnext (h ! a) = Some b \<Longrightarrow> b < length h \<and> b \<noteq> a"
proof -
  note l = linked_split [OF assms]
  show "\<exists>P. nprev (h ! a) = Some P \<and> P < length h \<and> P \<noteq> a" using l(1,7,9) by blast
  show "b < length h \<and> b \<noteq> a" if "nnext (h ! a) = Some b"
    using that l(3,10) assms by (auto simp: linked_def split: list.splits)
qed

text \<open>\<^verbatim>\<open>lift\<close> unlinks both nodes of an operation, and \<^verbatim>\<open>unlift\<close> is its inverse.\<close>

lemma lift_ok:
  assumes "linked h p (xs @ e # ys @ m # zs)" "nmatch (h ! e) = Some m"
  shows "lift h e = Inr (unlink (unlink h e) m)" "linked (unlink (unlink h e) m) p (xs @ ys @ zs)"
    "unlift (unlink (unlink h e) m) e = Inr h"
proof -
  let ?h1 = "unlink h e" and ?h2 = "unlink (unlink h e) m"
  have l1: "linked ?h1 p ((xs @ ys) @ m # zs)" using linked_unlink [OF assms(1)] by simp
  then show "linked ?h2 p (xs @ ys @ zs)" using linked_unlink [OF l1] by simp
  have em: "e < length h" "m < length h" "e \<noteq> m" using assms(1) by (auto simp: linked_def)
  obtain N where N: "nnext (h ! e) = Some N" using linked_split(3) [OF assms(1)] by (cases ys) auto
  obtain P where P: "nprev (h ! e) = Some P" "P < length h" "P \<noteq> e" using unlink_bounds(1) [OF assms(1)] by blast
  have N': "N < length h" "N \<noteq> e" using unlink_bounds(2) [OF assms(1) N] by auto
  obtain Q where Q: "nprev (?h1 ! m) = Some Q" "Q < length h" "Q \<noteq> m" using unlink_bounds(1) [OF l1] by auto
  have R: "b < length h \<and> b \<noteq> m" if "nnext (?h1 ! m) = Some b" for b using unlink_bounds(2) [OF l1 that] by simp
  have h1: "?h1 = upd_prev (upd_next h P (Some N)) N (Some P)" by (simp add: unlink_def N P)
  have e1: "?h1 ! e = h ! e" using nth_unlink(4) [OF assms(1) em(1)] by simp
  have m2: "?h2 ! m = ?h1 ! m" using nth_unlink(4) [OF l1] em by simp
  have mm: "nmatch (?h2 ! e) = Some m" using nth_unlink(2) [OF l1] em assms(2) e1 by simp
  have "lift h e = bindR (set_next ?h1 (Some Q) (nnext (?h1 ! m))) (\<lambda>h3.
      bindR (deref h3 (Some m)) (\<lambda>m1. if nnext m1 \<noteq> None then set_prev h3 (nnext m1) (nprev m1) else Inr h3))"
    using em P N N' by (simp add: lift_def nth_upd assms(2) Q(1) flip: h1)
  also have "\<dots> = Inr ?h2"
    using em Q R by (auto simp: nth_upd unlink_def [of ?h1 m] split: option.split)
  finally show "lift h e = Inr ?h2" .
  have "unlift ?h2 e = bindR (Inr (relink ?h2 m)) (\<lambda>h2. bindR (index h2 (int e)) (\<lambda>e2.
      bindR (set_next h2 (nprev e2) (Some e)) (\<lambda>h3.
      bindR (index h3 (int e)) (\<lambda>e3. set_prev h3 (nnext e3) (Some e)))))"
    using em Q R by (cases "nnext (?h1 ! m)") (simp_all add: unlift_def mm m2 nth_upd relink_def Let_def)
  also have "relink ?h2 m = ?h1" by (rule relink_unlink [OF l1])
  also have "bindR (Inr ?h1) (\<lambda>h2. bindR (index h2 (int e)) (\<lambda>e2. bindR (set_next h2 (nprev e2) (Some e)) (\<lambda>h3.
      bindR (index h3 (int e)) (\<lambda>e3. set_prev h3 (nnext e3) (Some e))))) = Inr (relink ?h1 e)"
    using em P N N' by (simp add: e1 nth_upd relink_def)
  also have "relink ?h1 e = h" by (rule relink_unlink [OF assms(1)])
  finally show "unlift ?h2 e = Inr h" .
qed

section \<open>The list that \<^verbatim>\<open>makeLinkedEntries\<close> builds\<close>

text \<open>
  \<open>ret_map es k\<close>: the map \<^verbatim>\<open>match\<close> after \<open>k\<close> entries of the reversed history \<open>es\<close>. The node of the \<open>k\<close>-th
  of these has the address \<open>k\<close>.
\<close>

fun ret_map :: "'v entry list \<Rightarrow> nat \<Rightarrow> int \<rightharpoonup> nat" where
  "ret_map es 0 = Map.empty"
| "ret_map es (Suc k) =
     (if kind (es ! k) = returnEntry then (ret_map es k)(eid (es ! k) \<mapsto> k) else ret_map es k)"

definition entry_node :: "'v entry list \<Rightarrow> nat \<Rightarrow> nat \<Rightarrow> 'v node" where
  "entry_node es len k =
     \<lparr>nvalue = Some (evalue (es ! k)), nmatch = (if kind (es ! k) = returnEntry then None else ret_map es k (eid (es ! k))),
      nid = eid (es ! k), nnext = (if k = 0 then None else Some (k - 1)),
      nprev = (if k + 1 < len then Some (k + 1) else None)\<rparr>"

definition entry_nodes :: "'v entry list \<Rightarrow> nat \<Rightarrow> 'v store" where
  "entry_nodes es len = map (entry_node es len) [0..<len]"

definition root_ptr :: "nat \<Rightarrow> ptr" where
  "root_ptr len = (if len = 0 then None else Some (len - 1))"

text \<open>Putting a new node in front of the list whose nodes are \<open>entry_nodes es len\<close>.\<close>

lemma insertBefore_front:
  assumes "nnext nd = None" "nprev nd = None"
  shows "insertBefore (entry_nodes es len @ [nd]) len (root_ptr len) =
    Inr (map (entry_node es (Suc len)) [0..<len] @ [nd\<lparr>nnext := root_ptr len\<rparr>])"
proof (cases len)
  case 0
  with assms show ?thesis by (simp add: insertBefore_def root_ptr_def entry_nodes_def)
next
  case (Suc m)
  let ?h = "entry_nodes es len @ [nd]"
  have l: "length (entry_nodes es len) = len" by (simp add: entry_nodes_def)
  have m: "?h ! m = entry_node es len m" "nprev (?h ! m) = None"
    using Suc by (simp_all add: entry_nodes_def nth_append entry_node_def)
  have "insertBefore ?h len (Some m) = Inr (upd_next (upd_prev ?h m (Some len)) len (Some m))"
    using Suc l m by (simp add: insertBefore_def Let_def)
  moreover have "upd_next (upd_prev ?h m (Some len)) len (Some m) =
      map (entry_node es (Suc len)) [0..<len] @ [nd\<lparr>nnext := Some m\<rparr>]" (is "?a = ?b")
  proof (rule nth_equalityI)
    show "length ?a = length ?b" by (simp add: l)
    fix k assume "k < length ?a"
    then have "k < len \<or> k = len" using l by auto
    then show "?a ! k = ?b ! k"
      using l Suc by (auto simp: nth_upd nth_append entry_nodes_def entry_node_def)
  qed
  ultimately show ?thesis using Suc by (simp add: root_ptr_def)
qed

lemma link_entries:
  assumes "len \<le> length es"
  shows "foldR link_entry ([], None, Map.empty) (take len es) =
    Inr (entry_nodes es len, root_ptr len, ret_map es len)"
  using assms
proof (induction len)
  case 0
  then show ?case by (simp add: entry_nodes_def root_ptr_def)
next
  case (Suc len)
  have l: "length (entry_nodes es len) = len" by (simp add: entry_nodes_def)
  have rt: "root_ptr (Suc len) = Some len" by (simp add: root_ptr_def)
  have ins: "insertBefore (entry_nodes es len @ [nd]) len (root_ptr len) = Inr (entry_nodes es (Suc len))"
    if "nnext nd = None" "nprev nd = None" "nd\<lparr>nnext := root_ptr len\<rparr> = entry_node es (Suc len) len" for nd
    using insertBefore_front [OF that(1,2)] that(3) by (simp add: entry_nodes_def [of es "Suc len"])
  have en: "entry_node es (Suc len) len =
      \<lparr>nvalue = Some (evalue (es ! len)), nmatch = (if kind (es ! len) = returnEntry then None else ret_map es len (eid (es ! len))),
       nid = eid (es ! len), nnext = root_ptr len, nprev = None\<rparr>"
    by (simp add: entry_node_def root_ptr_def)
  have "link_entry (entry_nodes es len, root_ptr len, ret_map es len) (es ! len) =
      Inr (entry_nodes es (Suc len), root_ptr (Suc len), ret_map es (Suc len))"
    by (cases "kind (es ! len) = returnEntry")
      (simp_all add: link_entry_def alloc_def l rt ins en)
  with Suc show ?case by (simp add: take_Suc_conv_app_nth foldR_append)
qed

lemma makeLinkedEntries_ok:
  "makeLinkedEntries H = Inr (entry_nodes (rev H) (length H), root_ptr (length H))"
  using link_entries [of "length H" "rev H"] by (simp add: makeLinkedEntries_def)

lemma length_from_entries:
  "k < len \<Longrightarrow> length_from (entry_nodes es len) l (Some k) = Some (Inr (l + k + 1))"
proof (induction k arbitrary: l)
  case 0
  then have "index (entry_nodes es len) (int 0) = Inr (entry_node es len 0)"
    by (subst index_of_nat) (simp_all add: entry_nodes_def)
  then show ?case
    by (subst length_from.simps) (simp add: entry_node_def length_from.simps)
next
  case (Suc k)
  then have "index (entry_nodes es len) (int (Suc k)) = Inr (entry_node es len (Suc k))"
    by (subst index_of_nat) (simp_all add: entry_nodes_def)
  with Suc show ?case by (subst length_from.simps) (simp add: entry_node_def)
qed

lemma node_length_entries: "node_length (entry_nodes es len) (root_ptr len) = Some (Inr len)"
  using length_from_entries [of "len - 1" len es 0]
  by (cases len) (simp_all add: node_length_def root_ptr_def length_from.simps)

text \<open>The store of \<^verbatim>\<open>checkSingle\<close> before the loop; the entry at position \<open>j\<close> has the address \<open>addr H j\<close>.\<close>

definition head_node :: "'v node" where
  "head_node = \<lparr>nvalue = None, nmatch = None, nid = -1, nnext = None, nprev = None\<rparr>"

definition start_heap :: "'v entry list \<Rightarrow> 'v store" where
  "start_heap H = map (entry_node (rev H) (Suc (length H))) [0..<length H] @ [head_node\<lparr>nnext := root_ptr (length H)\<rparr>]"

definition addr :: "'v entry list \<Rightarrow> nat \<Rightarrow> nat" where
  "addr H j = length H - 1 - j"

lemma insertBefore_head:
  "insertBefore (entry_nodes (rev H) (length H) @ [head_node]) (length H) (root_ptr (length H)) = Inr (start_heap H)"
  by (simp add: insertBefore_front head_node_def start_heap_def)

lemma length_start_heap [simp]: "length (start_heap H) = Suc (length H)"
  by (simp add: start_heap_def)

lemma addr_less [simp]: "j < length H \<Longrightarrow> addr H j < length H"
  by (simp add: addr_def)

lemma addr_inject: "i < length H \<Longrightarrow> j < length H \<Longrightarrow> addr H i = addr H j \<longleftrightarrow> i = j"
  by (auto simp: addr_def)

lemma start_heap_nth:
  assumes "j < length H"
  shows "start_heap H ! addr H j = entry_node (rev H) (Suc (length H)) (addr H j)" "rev H ! addr H j = H ! j"
  using assms by (simp_all add: start_heap_def nth_append addr_def rev_nth)

lemma linked_start_heap: "linked (start_heap H) (length H) (map (addr H) [0..<length H])"
proof -
  let ?K = "length H" and ?h = "start_heap H"
  have nx: "nnext (?h ! k) = (if k = 0 then None else Some (k - 1))" if "k \<le> ?K" for k
    using that by (cases "k = ?K") (simp_all add: start_heap_def nth_append entry_node_def head_node_def root_ptr_def)
  have pv: "nprev (?h ! k) = Some (k + 1)" if "k < ?K" for k
    using that by (simp add: start_heap_def nth_append entry_node_def)
  have s: "seg ?h k (rev [0..<k])" if "k \<le> ?K" for k
    using that by (induction k) (simp_all add: nx pv)
  have r: "map (addr H) [0..<?K] = rev [0..<?K]"
    by (rule nth_equalityI) (simp_all add: addr_def rev_nth)
  have "nnext (?h ! last (?K # rev [0..<?K])) = None"
    using nx [of 0] by (cases "?K = 0") (simp_all add: last_rev)
  then show ?thesis
    unfolding linked_def dll_def r using s [of ?K] by auto
qed

lemma ret_map_unique:
  "r < k \<Longrightarrow> kind (es ! r) = returnEntry \<Longrightarrow> eid (es ! r) = x \<Longrightarrow>
    (\<forall>r' < k. kind (es ! r') = returnEntry \<and> eid (es ! r') = x \<longrightarrow> r' = r) \<Longrightarrow> ret_map es k x = Some r"
proof (induction k)
  case (Suc k)
  show ?case
  proof (cases "r = k")
    case False
    then have "r < k" using Suc.prems(1) by simp
    then have ih: "ret_map es k x = Some r" using Suc.IH Suc.prems(2,3,4) less_SucI by blast
    have "\<not> (kind (es ! k) = returnEntry \<and> eid (es ! k) = x)"
      using Suc.prems(4) [rule_format, of k] False by blast
    then show ?thesis using ih by (cases "kind (es ! k) = returnEntry") simp_all
  next
    case True
    with Suc.prems(2,3) show ?thesis by simp
  qed
qed simp

end
