(* ===== verification/Porc_Check.thy ===== *)
theory Porc_Check
  imports Porc_Bitset Porc_Links
begin

text \<open>
  The search of the linearizability checker, \<^verbatim>\<open>checkSingle\<close> of src/porcupine/checker.go: a depth-first search
  over the linear orders of the operations, on the linked list of \<open>Porc_Links\<close>, with a cache of the pairs of
  linearized set and state that were seen before.

  The variables of the function are the fields of \<open>search\<close>. A pointer to a slice of ids in \<^verbatim>\<open>longest\<close> is the
  number of its allocation together with the ids. The \<^verbatim>\<open>kill\<close> flag is a function that gives the value that is
  read in each round of the loop.
\<close>

section \<open>The code\<close>

record 's cacheEntry =
  c_linearized :: bitset
  c_state :: 's

type_synonym 's cache = "64 word \<Rightarrow> 's cacheEntry list"

definition call_Equal :: "('s, 'v) Model \<Rightarrow> 's \<Rightarrow> 's \<Rightarrow> bool res" where
  "call_Equal model s t = (case Equal model of None \<Rightarrow> Inl NilDereference | Some f \<Rightarrow> Inr (f s t))"

fun scan_cache :: "('s, 'v) Model \<Rightarrow> 's cacheEntry list \<Rightarrow> 's cacheEntry \<Rightarrow> bool res" where
  "scan_cache model [] entry = Inr False"
| "scan_cache model (elem # rest) entry =
     (if bs_equals (c_linearized entry) (c_linearized elem) then
        bindR (call_Equal model (c_state entry) (c_state elem)) (\<lambda>eq.
          if eq then Inr True else scan_cache model rest entry)
      else scan_cache model rest entry)"

definition cacheContains :: "('s, 'v) Model \<Rightarrow> 's cache \<Rightarrow> 's cacheEntry \<Rightarrow> bool res" where
  "cacheContains model cache entry = scan_cache model (cache (bs_hash (c_linearized entry))) entry"

type_synonym partials = "(nat \<times> int list) option list"

record ('s, 'v) search =
  heap :: "'v store"
  entry :: ptr
  state :: 's
  linearized :: bitset
  cache :: "'s cache"
  calls :: "(nat \<times> 's) list"
  longest :: partials
  seqs :: nat

text \<open>The conversion of an id to \<^verbatim>\<open>uint\<close> wraps around for a negative one.\<close>

definition uint_of :: "int \<Rightarrow> nat" where
  "uint_of i = (if i < 0 then nat (i + 2 ^ 64) else nat i)"

definition value_of :: "'v node \<Rightarrow> 'v res" where
  "value_of n = (case nvalue n of None \<Rightarrow> Inl NilDereference | Some v \<Rightarrow> Inr v)"

definition call_ids :: "'v store \<Rightarrow> (nat \<times> 's) list \<Rightarrow> int list res" where
  "call_ids h cs = mapR (\<lambda>(a, _). bindR (index h (int a)) (\<lambda>n. Inr (nid n))) cs"

definition better :: "nat \<Rightarrow> (nat \<times> int list) option \<Rightarrow> bool" where
  "better callsLen l = (case l of None \<Rightarrow> True | Some (_, ids) \<Rightarrow> length ids < callsLen)"

text \<open>The part of the loop under \<^verbatim>\<open>if computePartial\<close>; the slice \<^verbatim>\<open>seq\<close> is made when it is first stored.\<close>

definition update_longest :: "('s, 'v) search \<Rightarrow> ('s, 'v) search res" where
  "update_longest s =
     bindR (call_ids (heap s) (calls s)) (\<lambda>seq.
     bindR (foldR (\<lambda>(l, made) i.
         bindR (index l i) (\<lambda>old.
           if better (length (calls s)) old
           then bindR (set_index l i (Some (seqs s, seq))) (\<lambda>l'. Inr (l', True))
           else Inr (l, made))) (longest s, False) seq) (\<lambda>(l, made).
       Inr (s\<lparr>longest := l, seqs := (if made then seqs s + 1 else seqs s)\<rparr>)))"

text \<open>The branch on a call entry \<open>e\<close> at address \<open>a\<close>.\<close>

definition try_call :: "('s, 'v) Model \<Rightarrow> nat \<Rightarrow> ('s, 'v) search \<Rightarrow> nat \<Rightarrow> 'v node \<Rightarrow> ('s, 'v) search res" where
  "try_call model headEntry s a e =
     bindR (deref (heap s) (nmatch e)) (\<lambda>matching.
     bindR (value_of e) (\<lambda>v. bindR (value_of matching) (\<lambda>w.
     bindR (Step model (state s) v w) (\<lambda>(ok, newState).
       if ok then
         bindR (bs_set (clone (linearized s)) (uint_of (nid e))) (\<lambda>newLinearized.
         let newCacheEntry = \<lparr>c_linearized = newLinearized, c_state = newState\<rparr> in
         bindR (cacheContains model (cache s) newCacheEntry) (\<lambda>seen.
           if \<not> seen then
             let hash = bs_hash newLinearized in
             bindR (bs_set (linearized s) (uint_of (nid e))) (\<lambda>lin.
             bindR (lift (heap s) a) (\<lambda>h.
             bindR (index h (int headEntry)) (\<lambda>hn.
               Inr (s\<lparr>cache := (cache s)(hash := cache s hash @ [newCacheEntry]),
                      calls := calls s @ [(a, state s)], state := newState, linearized := lin,
                      heap := h, entry := nnext hn\<rparr>))))
           else Inr (s\<lparr>entry := nnext e\<rparr>)))
       else Inr (s\<lparr>entry := nnext e\<rparr>)))))"

text \<open>The branch on a return entry, when \<^verbatim>\<open>calls\<close> is not empty.\<close>

definition backtrack :: "bool \<Rightarrow> ('s, 'v) search \<Rightarrow> ('s, 'v) search res" where
  "backtrack computePartial s =
     bindR (if computePartial then update_longest s else Inr s) (\<lambda>s1.
     bindR (index (calls s1) (int (length (calls s1)) - 1)) (\<lambda>(a, st).
     bindR (index (heap s1) (int a)) (\<lambda>e.
     bindR (bs_clear (linearized s1) (uint_of (nid e))) (\<lambda>lin.
     bindR (slice_to (calls s1) (int (length (calls s1)) - 1)) (\<lambda>cs.
     bindR (unlift (heap s1) a) (\<lambda>h.
     bindR (index h (int a)) (\<lambda>e1.
       Inr (s1\<lparr>state := st, linearized := lin, calls := cs, heap := h, entry := nnext e1\<rparr>))))))))"

text \<open>One round of the loop: a result, or the next state.\<close>

definition check_step ::
  "('s, 'v) Model \<Rightarrow> bool \<Rightarrow> nat \<Rightarrow> ('s, 'v) search \<Rightarrow> ((bool \<times> partials) + ('s, 'v) search) res" where
  "check_step model computePartial headEntry s =
     (case entry s of
        None \<Rightarrow> Inl NilDereference
      | Some a \<Rightarrow>
          bindR (index (heap s) (int a)) (\<lambda>e.
            if nmatch e \<noteq> None then bindR (try_call model headEntry s a e) (\<lambda>s'. Inr (Inr s'))
            else if length (calls s) = 0 then Inr (Inl (False, longest s))
            else bindR (backtrack computePartial s) (\<lambda>s'. Inr (Inr s'))))"

text \<open>After the loop, every operation's longest linearization is the complete one.\<close>

definition complete :: "nat \<Rightarrow> ('s, 'v) search \<Rightarrow> (bool \<times> partials) res" where
  "complete n s = bindR (call_ids (heap s) (calls s)) (\<lambda>seq.
     bindR (foldR (\<lambda>l i. set_index l (int i) (Some (seqs s, seq))) (longest s) [0..<n]) (\<lambda>l. Inr (True, l)))"

partial_function (option) check_loop ::
  "('s, 'v) Model \<Rightarrow> bool \<Rightarrow> (nat \<Rightarrow> bool) \<Rightarrow> nat \<Rightarrow> nat \<Rightarrow> nat \<Rightarrow> ('s, 'v) search \<Rightarrow> (bool \<times> partials) res option" where
  "check_loop model computePartial kill n headEntry round s =
     (case index (heap s) (int headEntry) of
        Inl p \<Rightarrow> Some (Inl p)
      | Inr hn \<Rightarrow>
          if nnext hn = None then Some (complete n s)
          else if kill round then Some (Inr (False, longest s))
          else (case check_step model computePartial headEntry s of
                  Inl p \<Rightarrow> Some (Inl p)
                | Inr (Inl r) \<Rightarrow> Some (Inr r)
                | Inr (Inr s') \<Rightarrow> check_loop model computePartial kill n headEntry (round + 1) s'))"

declare check_loop.simps [code]

text \<open>The variables before the loop.\<close>

definition init_search :: "('s, 'v) Model \<Rightarrow> 'v store \<Rightarrow> ptr \<Rightarrow> nat \<Rightarrow> (('s, 'v) search \<times> nat) res" where
  "init_search model h root n =
     (let (h1, hn) = alloc h \<lparr>nvalue = None, nmatch = None, nid = -1, nnext = None, nprev = None\<rparr>
      in bindR (insertBefore h1 hn root) (\<lambda>h2.
           Inr (\<lparr>heap = h2, entry = root, state = Init model, linearized = newBitset n, cache = (\<lambda>_. []),
                 calls = [], longest = replicate n None, seqs = 0\<rparr>, hn)))"

definition checkSingle ::
  "('s, 'v) Model \<Rightarrow> 'v entry list \<Rightarrow> bool \<Rightarrow> (nat \<Rightarrow> bool) \<Rightarrow> (bool \<times> partials) res option" where
  "checkSingle model history computePartial kill =
     (case makeLinkedEntries history of
        Inl p \<Rightarrow> Some (Inl p)
      | Inr (h, root) \<Rightarrow>
          (case node_length h root of
             None \<Rightarrow> None
           | Some (Inl p) \<Rightarrow> Some (Inl p)
           | Some (Inr l) \<Rightarrow>
               (let n = l div 2 in
                case init_search model h root n of
                  Inl p \<Rightarrow> Some (Inl p)
                | Inr (s, headEntry) \<Rightarrow> check_loop model computePartial kill n headEntry 0 s)))"

end
