(* ===== verification/Porc_Linear.thy ===== *)
theory Porc_Linear
  imports Porc_Check
begin

text \<open>
  Linearizability, the property that \<^verbatim>\<open>checkSingle\<close> decides: well-formed histories, the linear orders that respect
  the order of a history and that the model allows, and how the search can be split by the first operation.
\<close>

section \<open>Well-formed histories\<close>

text \<open>
  The ids are \<open>0, \<dots>, n - 1\<close>, every id has one call and one return, and the call comes first. \<open>makeEntries\<close> gives
  such a history when no operation returns before its call.
\<close>

definition num_ops :: "'v entry list \<Rightarrow> nat" where
  "num_ops H = length H div 2"

definition wf_history :: "'v entry list \<Rightarrow> bool" where
  "wf_history H \<longleftrightarrow>
     distinct (map (\<lambda>e. (kind e, eid e)) H) \<and>
     set (map (\<lambda>e. (kind e, eid e)) H) = {callEntry, returnEntry} \<times> (int ` {..<num_ops H}) \<and>
     (\<forall>i < length H. \<forall>j < length H. kind (H ! i) = callEntry \<and> kind (H ! j) = returnEntry \<and>
        eid (H ! i) = eid (H ! j) \<longrightarrow> i < j)"

definition pos :: "'v entry list \<Rightarrow> entryKind \<Rightarrow> nat \<Rightarrow> nat" where
  "pos H k i = length (takeWhile (\<lambda>e. \<not> (kind e = k \<and> eid e = int i)) H)"

abbreviation cpos :: "'v entry list \<Rightarrow> nat \<Rightarrow> nat" where
  "cpos H i \<equiv> pos H callEntry i"

abbreviation rpos :: "'v entry list \<Rightarrow> nat \<Rightarrow> nat" where
  "rpos H i \<equiv> pos H returnEntry i"

definition op_id :: "'v entry list \<Rightarrow> nat \<Rightarrow> nat" where
  "op_id H j = nat (eid (H ! j))"

lemma wf_pos:
  assumes "wf_history H" "i < num_ops H"
  shows "pos H k i < length H" "kind (H ! pos H k i) = k" "eid (H ! pos H k i) = int i"
proof -
  have "(k, int i) \<in> set (map (\<lambda>e. (kind e, eid e)) H)"
    using assms by (cases k) (auto simp: wf_history_def)
  then obtain e where e: "e \<in> set H" "kind e = k \<and> eid e = int i" by auto
  then have "takeWhile (\<lambda>e. \<not> (kind e = k \<and> eid e = int i)) H \<noteq> H" by (metis (mono_tags, lifting) takeWhile_eq_all_conv)
  then show l: "pos H k i < length H"
    unfolding pos_def by (metis (no_types, lifting) length_takeWhile_le le_neq_implies_less takeWhile_eq_take take_all order_refl)
  from nth_length_takeWhile [OF l [unfolded pos_def]]
  show "kind (H ! pos H k i) = k" "eid (H ! pos H k i) = int i" by (auto simp: pos_def)
qed

lemma wf_unique:
  assumes "wf_history H" "j < length H" "eid (H ! j) = int i" "i < num_ops H"
  shows "j = pos H (kind (H ! j)) i"
proof -
  note p = wf_pos [OF assms(1,4), of "kind (H ! j)"]
  have "map (\<lambda>e. (kind e, eid e)) H ! j = map (\<lambda>e. (kind e, eid e)) H ! pos H (kind (H ! j)) i"
    using assms p by simp
  then show ?thesis
    using assms(1,2) p(1) nth_eq_iff_index_eq [of "map (\<lambda>e. (kind e, eid e)) H"] by (simp add: wf_history_def)
qed

lemma wf_op_id:
  assumes "wf_history H" "j < length H"
  shows "op_id H j < num_ops H" "eid (H ! j) = int (op_id H j)" "j = pos H (kind (H ! j)) (op_id H j)"
proof -
  have "(kind (H ! j), eid (H ! j)) \<in> set (map (\<lambda>e. (kind e, eid e)) H)" using assms(2) by auto
  then have "eid (H ! j) \<in> int ` {..<num_ops H}" using assms(1) unfolding wf_history_def by auto
  then show a: "op_id H j < num_ops H" "eid (H ! j) = int (op_id H j)" by (auto simp: op_id_def)
  from wf_unique [OF assms this(2,1)] show "j = pos H (kind (H ! j)) (op_id H j)" .
qed

lemma op_id_pos [simp]: "wf_history H \<Longrightarrow> i < num_ops H \<Longrightarrow> op_id H (pos H k i) = i"
  by (simp add: op_id_def wf_pos)

lemma wf_call_before_return: "wf_history H \<Longrightarrow> i < num_ops H \<Longrightarrow> cpos H i < rpos H i"
proof -
  assume h: "wf_history H" "i < num_ops H"
  have "cpos H i < rpos H i"
    if "\<forall>i < length H. \<forall>j < length H. kind (H ! i) = callEntry \<and> kind (H ! j) = returnEntry \<and>
        eid (H ! i) = eid (H ! j) \<longrightarrow> i < j"
    using wf_pos [OF h, of callEntry] wf_pos [OF h, of returnEntry] that by simp
  then show ?thesis using h(1) unfolding wf_history_def by blast
qed

section \<open>Linearizability\<close>

definition stepf :: "('s, 'v) Model \<Rightarrow> 'v entry list \<Rightarrow> 's \<Rightarrow> nat \<Rightarrow> bool \<times> 's" where
  "stepf M H s i =
     (case Step M s (evalue (H ! cpos H i)) (evalue (H ! rpos H i)) of Inl _ \<Rightarrow> (False, s) | Inr r \<Rightarrow> r)"

fun legal :: "('s, 'v) Model \<Rightarrow> 'v entry list \<Rightarrow> 's \<Rightarrow> nat list \<Rightarrow> bool" where
  "legal M H s [] = True"
| "legal M H s (i # sq) = (fst (stepf M H s i) \<and> legal M H (snd (stepf M H s i)) sq)"

definition final :: "('s, 'v) Model \<Rightarrow> 'v entry list \<Rightarrow> 's \<Rightarrow> nat list \<Rightarrow> 's" where
  "final M H s sq = foldl (\<lambda>s i. snd (stepf M H s i)) s sq"

text \<open>An operation that returned before another one was called comes before it.\<close>

definition rt_order :: "'v entry list \<Rightarrow> nat list \<Rightarrow> bool" where
  "rt_order H sq \<longleftrightarrow> sorted_wrt (\<lambda>i j. \<not> rpos H j < cpos H i) sq"

definition completion :: "('s, 'v) Model \<Rightarrow> 'v entry list \<Rightarrow> nat set \<Rightarrow> 's \<Rightarrow> nat list \<Rightarrow> bool" where
  "completion M H B s sq \<longleftrightarrow>
     distinct sq \<and> set sq = {..<num_ops H} - B \<and> rt_order H sq \<and> legal M H s sq"

definition completable :: "('s, 'v) Model \<Rightarrow> 'v entry list \<Rightarrow> nat set \<Rightarrow> 's \<Rightarrow> bool" where
  "completable M H B s \<longleftrightarrow> (\<exists>sq. completion M H B s sq)"

definition linearizable :: "('s, 'v) Model \<Rightarrow> 'v entry list \<Rightarrow> bool" where
  "linearizable M H \<longleftrightarrow>
     (\<exists>sq. distinct sq \<and> set sq = {..<num_ops H} \<and> rt_order H sq \<and> legal M H (Init M) sq)"

lemma linearizable_completable: "linearizable M H \<longleftrightarrow> completable M H {} (Init M)"
  by (simp add: linearizable_def completable_def completion_def)

text \<open>The operations that may come next when the operations of \<open>B\<close> are done.\<close>

definition minimal :: "'v entry list \<Rightarrow> nat set \<Rightarrow> nat \<Rightarrow> bool" where
  "minimal H B i \<longleftrightarrow> i < num_ops H \<and> i \<notin> B \<and> (\<forall>j. j < num_ops H \<and> j \<notin> B \<longrightarrow> \<not> rpos H j < cpos H i)"

lemma legal_append: "legal M H s (sq @ js) \<longleftrightarrow> legal M H s sq \<and> legal M H (final M H s sq) js"
  by (induction sq arbitrary: s) (auto simp: final_def)

lemma final_snoc [simp]: "final M H s (sq @ [i]) = snd (stepf M H (final M H s sq) i)"
  by (simp add: final_def)

lemma final_Nil [simp]: "final M H s [] = s"
  by (simp add: final_def)

text \<open>A completion starts with a minimal operation.\<close>

lemma completion_Cons:
  assumes "wf_history H" "completion M H B s (i # sq)"
  shows "minimal H B i" "fst (stepf M H s i)" "completion M H (insert i B) (snd (stepf M H s i)) sq"
proof -
  let ?U = "{..<num_ops H}"
  from assms(2) have i: "i \<notin> set sq" "distinct sq" "insert i (set sq) = ?U - B" "rt_order H (i # sq)"
    "fst (stepf M H s i)" "legal M H (snd (stepf M H s i)) sq"
    by (simp_all add: completion_def)
  show "fst (stepf M H s i)" by (rule i(5))
  have "i \<in> ?U - B" unfolding i(3) [symmetric] by (rule insertI1)
  then have ib: "i < num_ops H" "i \<notin> B" by simp_all
  have "\<not> rpos H j < cpos H i" if "j < num_ops H" "j \<notin> B" for j
  proof (cases "j = i")
    case True
    show ?thesis unfolding True using wf_call_before_return [OF assms(1) ib(1)] by (rule order_less_not_sym)
  next
    case False
    have "j \<in> insert i (set sq)" unfolding i(3) using that by simp
    with False have "j \<in> set sq" by simp
    then show ?thesis using i(4) unfolding rt_order_def sorted_wrt.simps by blast
  qed
  then show "minimal H B i" using ib unfolding minimal_def by blast
  have "?U - insert i B = (?U - B) - {i}" by blast
  also have "\<dots> = set sq" unfolding i(3) [symmetric] using i(1) by simp
  finally show "completion M H (insert i B) (snd (stepf M H s i)) sq"
    using i(2,4,6) unfolding completion_def rt_order_def by simp
qed

lemma completable_first:
  assumes "wf_history H" "completable M H B s" "\<not> {..<num_ops H} \<subseteq> B"
  shows "\<exists>i. minimal H B i \<and> fst (stepf M H s i) \<and> completable M H (insert i B) (snd (stepf M H s i))"
proof -
  obtain sq2 where c: "completion M H B s sq2" using assms(2) unfolding completable_def by blast
  have "sq2 \<noteq> []"
  proof
    assume "sq2 = []"
    then have "{..<num_ops H} - B = {}" using c by (simp add: completion_def)
    then show False using assms(3) by blast
  qed
  then obtain i sq where "sq2 = i # sq" by (cases sq2) simp_all
  from completion_Cons [OF assms(1) c [unfolded this]] show ?thesis unfolding completable_def by blast
qed

text \<open>Equality of states that the model's steps respect.\<close>

definition respects_equal :: "('s, 'v) Model \<Rightarrow> ('s \<Rightarrow> 's \<Rightarrow> bool) \<Rightarrow> bool" where
  "respects_equal M eq \<longleftrightarrow>
     (\<forall>s t v w. eq s t \<longrightarrow>
        (case (Step M s v w, Step M t v w) of
           (Inr (a, s'), Inr (b, t')) \<Rightarrow> a = b \<and> (a \<longrightarrow> eq s' t')
         | (Inl p, Inl q) \<Rightarrow> True
         | _ \<Rightarrow> False))"

lemma stepf_equal:
  assumes "respects_equal M eq" "eq s t"
  shows "fst (stepf M H s i) = fst (stepf M H t i)"
    "fst (stepf M H s i) \<Longrightarrow> eq (snd (stepf M H s i)) (snd (stepf M H t i))"
  using assms(1) [unfolded respects_equal_def, rule_format, OF assms(2), of "evalue (H ! cpos H i)" "evalue (H ! rpos H i)"]
  by (auto simp: stepf_def split: sum.splits prod.splits)

lemma legal_equal: "respects_equal M eq \<Longrightarrow> eq s t \<Longrightarrow> legal M H s sq \<Longrightarrow> legal M H t sq"
proof (induction sq arbitrary: s t)
  case (Cons i sq)
  note e = stepf_equal [OF Cons.prems(1,2), of H i]
  from Cons.prems(3) have s: "fst (stepf M H s i)" "legal M H (snd (stepf M H s i)) sq" by simp_all
  have "legal M H (snd (stepf M H t i)) sq" by (rule Cons.IH [OF Cons.prems(1) e(2) [OF s(1)] s(2)])
  then show ?case using s(1) unfolding e(1) legal.simps by blast
qed simp

lemma completable_equal: "respects_equal M eq \<Longrightarrow> eq s t \<Longrightarrow> completable M H B s \<Longrightarrow> completable M H B t"
  unfolding completable_def completion_def using legal_equal [of M eq s t H] by blast

lemma respects_equal_eq: "respects_equal M (=)"
  by (auto simp: respects_equal_def split: sum.splits prod.splits)

end
