(* ===== verification/Porc_Search.thy ===== *)
theory Porc_Search
  imports Porc_Linear
begin

text \<open>
  Correctness of \<^verbatim>\<open>checkSingle\<close>: the invariant of its loop, which relates the linked list, the bit set, the stack of
  calls and the cache to the sequence \<open>S\<close> of the operations that are linearized, that every round keeps it and
  decreases a measure, and the result at the end.
\<close>

section \<open>The remaining entries\<close>

definition rem :: "'v entry list \<Rightarrow> nat set \<Rightarrow> nat list" where
  "rem H B = filter (\<lambda>j. op_id H j \<notin> B) [0..<length H]"

lemma set_rem: "j \<in> set (rem H B) \<longleftrightarrow> j < length H \<and> op_id H j \<notin> B"
  by (auto simp: rem_def)

lemma sorted_rem: "sorted_wrt (<) (rem H B)"
  unfolding rem_def by (rule sorted_wrt_filter) simp

lemma rem_next:
  assumes "rem H B = xs @ j # j' # ys"
  shows "j < j'" "\<And>k. k \<in> set (rem H B) \<Longrightarrow> k < j' \<Longrightarrow> k \<noteq> j \<Longrightarrow> k < j" "j' \<in> set (rem H B)"
proof -
  have s: "sorted_wrt (<) (xs @ j # j' # ys)" using sorted_rem [of H B] by (simp only: assms)
  then show "j < j'" by (simp add: sorted_wrt_append)
  show "j' \<in> set (rem H B)" by (simp add: assms)
  fix k assume "k \<in> set (rem H B)" "k < j'" "k \<noteq> j"
  then have k: "k \<in> set xs \<or> k = j' \<or> k \<in> set ys" unfolding assms by auto
  moreover have "k \<notin> set ys" using s \<open>k < j'\<close> by (auto simp: sorted_wrt_append)
  moreover have "k \<noteq> j'" using \<open>k < j'\<close> by simp
  ultimately have "k \<in> set xs" by blast
  then show "k < j" using s by (simp add: sorted_wrt_append)
qed

lemma upt_split: "a \<le> b \<Longrightarrow> b \<le> c \<Longrightarrow> [a..<c] = [a..<b] @ [b..<c]"
  using upt_add_eq_append [of a b "c - b"] by simp

lemma rem_split:
  assumes "wf_history H" "i < num_ops H" "i \<notin> B"
  shows "\<exists>xs ys zs. rem H B = xs @ cpos H i # ys @ rpos H i # zs \<and> rem H (insert i B) = xs @ ys @ zs"
proof -
  let ?c = "cpos H i" and ?r = "rpos H i" and ?K = "length H"
  have cr: "?c < ?r" "?r < ?K" using wf_call_before_return [OF assms(1,2)] wf_pos(1) [OF assms(1,2)] by auto
  have "[0..<?K] = [0..<?c] @ [?c..<?r] @ [?r..<?K]"
    using cr upt_split [of 0 ?c ?K] upt_split [of ?c ?r ?K] by simp
  then have u: "[0..<?K] = [0..<?c] @ ?c # [Suc ?c..<?r] @ ?r # [Suc ?r..<?K]"
    using cr by (simp add: upt_conv_Cons)
  have other: "op_id H j \<notin> insert i B \<longleftrightarrow> op_id H j \<notin> B" if "j < ?K" "j \<noteq> ?c" "j \<noteq> ?r" for j
  proof -
    have "op_id H j \<noteq> i"
    proof
      assume "op_id H j = i"
      then have "j = pos H (kind (H ! j)) i" using wf_op_id(3) [OF assms(1) that(1)] by simp
      then show False using that(2,3) by (cases "kind (H ! j)") auto
    qed
    then show ?thesis by blast
  qed
  let ?f = "filter (\<lambda>j. op_id H j \<notin> B)" and ?g = "filter (\<lambda>j. op_id H j \<notin> insert i B)"
  have same: "?g [0..<?c] = ?f [0..<?c]" "?g [Suc ?c..<?r] = ?f [Suc ?c..<?r]" "?g [Suc ?r..<?K] = ?f [Suc ?r..<?K]"
    using other cr by (intro filter_cong refl; force)+
  have id: "op_id H ?c = i" "op_id H ?r = i" using assms(1,2) by simp_all
  have "rem H B = ?f [0..<?c] @ ?c # ?f [Suc ?c..<?r] @ ?r # ?f [Suc ?r..<?K]"
    unfolding rem_def by (subst u) (simp add: id assms(3))
  moreover have "rem H (insert i B) = ?g [0..<?c] @ ?g [Suc ?c..<?r] @ ?g [Suc ?r..<?K]"
    unfolding rem_def by (subst u) (simp add: id)
  ultimately show ?thesis unfolding same by blast
qed

section \<open>The linked list\<close>

definition lift_op :: "'v entry list \<Rightarrow> 'v store \<Rightarrow> nat \<Rightarrow> 'v store" where
  "lift_op H h i = unlink (unlink h (addr H (cpos H i))) (addr H (rpos H i))"

definition heap_of :: "'v entry list \<Rightarrow> nat list \<Rightarrow> 'v store" where
  "heap_of H S = foldl (lift_op H) (start_heap H) S"

definition data_ok :: "'v entry list \<Rightarrow> 'v store \<Rightarrow> bool" where
  "data_ok H h \<longleftrightarrow> length h = Suc (length H) \<and>
     (\<forall>j < length H. nvalue (h ! addr H j) = Some (evalue (H ! j)) \<and> nid (h ! addr H j) = eid (H ! j) \<and>
        nmatch (h ! addr H j) = (if kind (H ! j) = returnEntry then None else Some (addr H (rpos H (op_id H j)))))"

lemma data_ok_start:
  assumes "wf_history H"
  shows "data_ok H (start_heap H)"
proof -
  have "ret_map (rev H) (addr H j) (eid (H ! j)) = Some (addr H (rpos H (op_id H j)))"
    if j: "j < length H" "kind (H ! j) \<noteq> returnEntry" for j
  proof (rule ret_map_unique)
    let ?i = "op_id H j"
    note d = wf_op_id [OF assms j(1)]
    note r = wf_pos [OF assms d(1), of returnEntry]
    have "kind (H ! j) = callEntry" using j(2) by (cases "kind (H ! j)") auto
    with d(3) have "j < rpos H ?i" using wf_call_before_return [OF assms d(1)] by simp
    with r(1) show "addr H (rpos H ?i) < addr H j" by (simp add: addr_def)
    show "kind (rev H ! addr H (rpos H ?i)) = returnEntry" "eid (rev H ! addr H (rpos H ?i)) = eid (H ! j)"
      using r d(2) start_heap_nth(2) [OF r(1)] by simp_all
    show "\<forall>r' < addr H j. kind (rev H ! r') = returnEntry \<and> eid (rev H ! r') = eid (H ! j) \<longrightarrow> r' = addr H (rpos H ?i)"
    proof (intro allI impI)
      fix r' assume r': "r' < addr H j" "kind (rev H ! r') = returnEntry \<and> eid (rev H ! r') = eid (H ! j)"
      then have l: "r' < length H" using addr_less [OF j(1)] by simp
      define q where "q = length H - 1 - r'"
      have q: "q < length H" "r' = addr H q" "rev H ! r' = H ! q" using l by (auto simp: q_def addr_def rev_nth)
      with r'(2) d(2) have "q = rpos H ?i" using wf_unique [OF assms q(1) _ d(1)] by simp
      with q(2) show "r' = addr H (rpos H ?i)" by simp
    qed
  qed
  then show ?thesis
    unfolding data_ok_def by (auto simp: start_heap_nth entry_node_def)
qed

lemma heap_of_ok:
  assumes "wf_history H"
  shows "distinct S \<Longrightarrow> set S \<subseteq> {..<num_ops H} \<Longrightarrow>
    linked (heap_of H S) (length H) (map (addr H) (rem H (set S))) \<and> data_ok H (heap_of H S)"
proof (induction S rule: rev_induct)
  case Nil
  show ?case using linked_start_heap [of H] data_ok_start [OF assms] by (simp add: heap_of_def rem_def)
next
  case (snoc i S)
  then have i: "i < num_ops H" "i \<notin> set S" and l: "linked (heap_of H S) (length H) (map (addr H) (rem H (set S)))"
    and d: "data_ok H (heap_of H S)" by simp_all
  obtain xs ys zs where r: "rem H (set S) = xs @ cpos H i # ys @ rpos H i # zs" "rem H (insert i (set S)) = xs @ ys @ zs"
    using rem_split [OF assms i] by blast
  let ?h = "heap_of H S" and ?a = "addr H (cpos H i)" and ?b = "addr H (rpos H i)"
  have l0: "linked ?h (length H) (map (addr H) xs @ ?a # map (addr H) ys @ ?b # map (addr H) zs)" using l r(1) by simp
  have l1: "linked (unlink ?h ?a) (length H) ((map (addr H) xs @ map (addr H) ys) @ ?b # map (addr H) zs)"
    using linked_unlink [OF l0] by simp
  have h: "heap_of H (S @ [i]) = unlink (unlink ?h ?a) ?b" by (simp add: heap_of_def lift_op_def)
  have "linked (heap_of H (S @ [i])) (length H) (map (addr H) (rem H (set (S @ [i]))))"
    using linked_unlink [OF l1] r(2) by (simp add: h)
  moreover have "data_ok H (heap_of H (S @ [i]))"
    using d nth_unlink [OF l0] nth_unlink [OF l1] by (simp add: data_ok_def h less_SucI)
  ultimately show ?case ..
qed

section \<open>Sequences of linearized operations\<close>

text \<open>The sequences that the search builds: every operation is minimal among the remaining ones and its step succeeds.\<close>

inductive plin :: "('s, 'v) Model \<Rightarrow> 'v entry list \<Rightarrow> nat list \<Rightarrow> bool" for M H where
  plin_Nil: "plin M H []"
| plin_snoc: "plin M H T \<Longrightarrow> minimal H (set T) i \<Longrightarrow> fst (stepf M H (final M H (Init M) T) i) \<Longrightarrow> plin M H (T @ [i])"

inductive_cases plin_snocE: "plin M H (T @ [i])"

lemma plin_facts:
  assumes "plin M H S"
  shows "distinct S" "set S \<subseteq> {..<num_ops H}" "legal M H (Init M) S"
    "\<And>i j. i \<in> set S \<Longrightarrow> j < num_ops H \<Longrightarrow> j \<notin> set S \<Longrightarrow> \<not> rpos H j < cpos H i"
  using assms by (induction) (auto simp: minimal_def legal_append)

lemma plin_rt_order: "plin M H S \<Longrightarrow> rt_order H S"
proof (induction rule: plin.induct)
  case (plin_snoc T i)
  then have "\<forall>j \<in> set T. \<not> rpos H i < cpos H j" using plin_facts(4) [of M H T] unfolding minimal_def by blast
  with plin_snoc show ?case by (simp add: rt_order_def sorted_wrt_append)
qed (simp add: rt_order_def)

lemma plin_linearizable:
  assumes "plin M H S" "rem H (set S) = []" "wf_history H"
  shows "linearizable M H"
proof -
  have "i \<in> set S" if i: "i < num_ops H" for i
  proof -
    have "cpos H i \<notin> set (rem H (set S))" by (simp add: assms(2))
    then show ?thesis using i assms(3) wf_pos(1) [OF assms(3) i, of callEntry] by (simp add: set_rem)
  qed
  then have "set S = {..<num_ops H}" using plin_facts(2) [OF assms(1)] by auto
  then show ?thesis
    unfolding linearizable_def using plin_facts [OF assms(1)] plin_rt_order [OF assms(1)] by blast
qed

text \<open>What the search knows of the operations that it has tried after the sequence \<open>T\<close>.\<close>

definition failed :: "('s, 'v) Model \<Rightarrow> 'v entry list \<Rightarrow> nat list \<Rightarrow> nat \<Rightarrow> bool" where
  "failed M H T i \<longleftrightarrow>
     \<not> (fst (stepf M H (final M H (Init M) T) i) \<and>
        completable M H (insert i (set T)) (snd (stepf M H (final M H (Init M) T) i)))"

definition tried :: "('s, 'v) Model \<Rightarrow> 'v entry list \<Rightarrow> nat list \<Rightarrow> nat \<Rightarrow> bool" where
  "tried M H T j \<longleftrightarrow> (\<forall>i < num_ops H. i \<notin> set T \<and> cpos H i < j \<longrightarrow> failed M H T i)"

definition frames_tried :: "('s, 'v) Model \<Rightarrow> 'v entry list \<Rightarrow> nat list \<Rightarrow> bool" where
  "frames_tried M H S \<longleftrightarrow> (\<forall>k < length S. tried M H (take k S) (cpos H (S ! k)))"

lemma frames_tried_snoc: "frames_tried M H (S @ [i]) \<longleftrightarrow> frames_tried M H S \<and> tried M H S (cpos H i)"
  by (auto simp: frames_tried_def nth_append less_Suc_eq)

text \<open>The cursor stands before the first return, or there is nothing left.\<close>

definition cursor_ok :: "'v entry list \<Rightarrow> nat list \<Rightarrow> nat option \<Rightarrow> bool" where
  "cursor_ok H S c =
     (case c of
        None \<Rightarrow> rem H (set S) = []
      | Some j \<Rightarrow> j \<in> set (rem H (set S)) \<and> (\<forall>k \<in> set (rem H (set S)). k < j \<longrightarrow> kind (H ! k) = callEntry))"

lemma cursor_minimal:
  assumes "wf_history H" "cursor_ok H S (Some (cpos H i))" "i < num_ops H" "i \<notin> set S"
  shows "minimal H (set S) i"
proof -
  have "\<not> rpos H j < cpos H i" if j: "j < num_ops H" "j \<notin> set S" for j
  proof
    note r = wf_pos [OF assms(1) j(1), of returnEntry]
    assume "rpos H j < cpos H i"
    moreover have "rpos H j \<in> set (rem H (set S))" using assms(1) j r(1) by (simp add: set_rem)
    ultimately have "kind (H ! rpos H j) = callEntry" using assms(2) unfolding cursor_ok_def by simp
    with r(2) show False by simp
  qed
  then show ?thesis using assms(3,4) unfolding minimal_def by blast
qed

lemma cursor_exhausted:
  assumes "wf_history H" "cursor_ok H S (Some j)" "kind (H ! j) = returnEntry" "tried M H S j"
  shows "\<not> completable M H (set S) (final M H (Init M) S)"
proof
  assume c: "completable M H (set S) (final M H (Init M) S)"
  have j: "j < length H" "op_id H j \<notin> set S" using assms(2) by (simp_all add: cursor_ok_def set_rem)
  note d = wf_op_id [OF assms(1) j(1)]
  have "op_id H j \<in> {..<num_ops H}" using d(1) by simp
  with j(2) have "\<not> {..<num_ops H} \<subseteq> set S" by blast
  from completable_first [OF assms(1) c this] obtain i where i: "minimal H (set S) i" "\<not> failed M H S i"
    unfolding failed_def by blast
  have ii: "i < num_ops H" "i \<notin> set S" "\<not> rpos H (op_id H j) < cpos H i" using i(1) d(1) j(2) unfolding minimal_def by blast+
  have "j = rpos H (op_id H j)" using d(3) assms(3) by simp
  then have le: "cpos H i \<le> j" using ii(3) by simp
  have "cpos H i \<noteq> j" using wf_pos(2) [OF assms(1) ii(1), of callEntry] assms(3) by auto
  with le have "cpos H i < j" by simp
  with ii(1,2) assms(4) i(2) show False unfolding tried_def by blast
qed

lemma failed_snoc:
  assumes "\<not> completable M H (set (T @ [i])) (final M H (Init M) (T @ [i]))"
  shows "failed M H T i"
  using assms unfolding failed_def by simp

text \<open>Moving the cursor past an operation that failed.\<close>

lemma advance_cursor:
  assumes "wf_history H" "cursor_ok H S (Some (cpos H i))" "i < num_ops H" "i \<notin> set S"
    "tried M H S (cpos H i)" "failed M H S i"
  shows "\<exists>xs j ys. rem H (set S) = xs @ cpos H i # j # ys \<and> cpos H i < j \<and> cursor_ok H S (Some j) \<and> tried M H S j"
proof -
  obtain xs ys zs where r: "rem H (set S) = xs @ cpos H i # ys @ rpos H i # zs"
    using rem_split [OF assms(1,3,4)] by blast
  obtain j ys' where j: "ys @ rpos H i # zs = j # ys'" by (cases ys) auto
  have r': "rem H (set S) = xs @ cpos H i # j # ys'" using r j by simp
  note n = rem_next [OF r']
  have "kind (H ! k) = callEntry" if "k \<in> set (rem H (set S))" "k < j" for k
  proof (cases "k = cpos H i")
    case True
    then show ?thesis using wf_pos(2) [OF assms(1,3)] by simp
  next
    case False
    then show ?thesis using assms(2) n(2) [OF that] that(1) by (simp add: cursor_ok_def)
  qed
  then have "cursor_ok H S (Some j)" using n(3) by (simp add: cursor_ok_def)
  moreover have "failed M H S i'" if i': "i' < num_ops H" "i' \<notin> set S" "cpos H i' < j" for i'
  proof (cases "i' = i")
    case False
    have "cpos H i' \<noteq> cpos H i" using False assms(1,3) i'(1) by (metis op_id_pos)
    moreover have "cpos H i' \<in> set (rem H (set S))" using assms(1) i' wf_pos(1) [OF assms(1) i'(1), of callEntry] by (simp add: set_rem)
    ultimately have "cpos H i' < cpos H i" using n(2) i'(3) by blast
    then show ?thesis using assms(5) i'(1,2) unfolding tried_def by blast
  qed (use assms(6) in simp)
  then have "tried M H S j" unfolding tried_def by blast
  ultimately show ?thesis using r' n(1) by blast
qed

section \<open>The invariant of the loop\<close>

definition frames :: "('s, 'v) Model \<Rightarrow> 'v entry list \<Rightarrow> nat list \<Rightarrow> (nat \<times> 's) list" where
  "frames M H S = map (\<lambda>k. (addr H (cpos H (S ! k)), final M H (Init M) (take k S))) [0..<length S]"

lemma frames_snoc: "frames M H (S @ [i]) = frames M H S @ [(addr H (cpos H i), final M H (Init M) S)]"
  by (auto simp: frames_def nth_append)

definition cache_ok :: "('s, 'v) Model \<Rightarrow> 'v entry list \<Rightarrow> nat list \<Rightarrow> 's cache \<Rightarrow> bool" where
  "cache_ok M H S c \<longleftrightarrow> (\<forall>w. \<forall>x \<in> set (c w). bs_fits (num_ops H) (c_linearized x) \<and>
     (\<not> completable M H (members (c_linearized x)) (c_state x) \<or>
      (\<exists>k. 0 < k \<and> k \<le> length S \<and> members (c_linearized x) = set (take k S) \<and>
        c_state x = final M H (Init M) (take k S))))"

text \<open>The sequence that is stored for an operation is one that the search has built and contains the operation.\<close>

definition longest_ok :: "('s, 'v) Model \<Rightarrow> 'v entry list \<Rightarrow> partials \<Rightarrow> bool" where
  "longest_ok M H l \<longleftrightarrow> length l = num_ops H \<and>
     (\<forall>i < length l. \<forall>p ids. l ! i = Some (p, ids) \<longrightarrow> (\<exists>T. ids = map int T \<and> plin M H T \<and> i \<in> set T))"

definition search_inv :: "('s, 'v) Model \<Rightarrow> 'v entry list \<Rightarrow> nat list \<Rightarrow> nat option \<Rightarrow> ('s, 'v) search \<Rightarrow> bool" where
  "search_inv M H S c s \<longleftrightarrow>
     plin M H S \<and> frames_tried M H S \<and> cursor_ok H S c \<and> (\<forall>j. c = Some j \<longrightarrow> tried M H S j) \<and>
     heap s = heap_of H S \<and> entry s = map_option (addr H) c \<and> state s = final M H (Init M) S \<and>
     bs_fits (num_ops H) (linearized s) \<and> members (linearized s) = set S \<and>
     cache_ok M H S (cache s) \<and> calls s = frames M H S \<and> longest_ok M H (longest s)"

lemma search_invD:
  assumes "search_inv M H S c s"
  shows "plin M H S" "frames_tried M H S" "cursor_ok H S c" "\<And>j. c = Some j \<Longrightarrow> tried M H S j"
    "heap s = heap_of H S" "entry s = map_option (addr H) c" "state s = final M H (Init M) S"
    "bs_fits (num_ops H) (linearized s)" "members (linearized s) = set S"
    "cache_ok M H S (cache s)" "calls s = frames M H S" "longest_ok M H (longest s)"
  using assms unfolding search_inv_def by blast+

text \<open>What the theorems assume of the model: its steps do not panic on the history, and its equality respects them.\<close>

definition checkable :: "('s, 'v) Model \<Rightarrow> 'v entry list \<Rightarrow> bool" where
  "checkable M H \<longleftrightarrow> wf_history H \<and>
     (\<forall>s. \<forall>i < num_ops H. returns (Step M s (evalue (H ! cpos H i)) (evalue (H ! rpos H i)))) \<and>
     (\<exists>eq. Equal M = Some eq \<and> respects_equal M eq)"

lemma scan_cache_iff:
  assumes "Equal M = Some eq"
  shows "scan_cache M l x =
    Inr (\<exists>y \<in> set l. c_linearized x = c_linearized y \<and> eq (c_state x) (c_state y))"
  by (induction l) (auto simp: bs_equals_iff call_Equal_def assms)

lemma Step_stepf:
  assumes "checkable M H" "i < num_ops H"
  shows "Step M s (evalue (H ! cpos H i)) (evalue (H ! rpos H i)) = Inr (stepf M H s i)"
proof -
  have "returns (Step M s (evalue (H ! cpos H i)) (evalue (H ! rpos H i)))"
    using assms unfolding checkable_def by blast
  then show ?thesis by (auto simp: stepf_def returns_iff)
qed

lemma uint_of_int [simp]: "uint_of (int i) = i"
  by (simp add: uint_of_def)

lemma search_heap:
  assumes "wf_history H" "search_inv M H S c s"
  shows "linked (heap s) (length H) (map (addr H) (rem H (set S)))" "data_ok H (heap s)"
  using heap_of_ok [OF assms(1) plin_facts(1,2) [OF search_invD(1) [OF assms(2)]]] search_invD(5) [OF assms(2)] by simp_all

lemma data_okD:
  assumes "data_ok H h" "j < length H"
  shows "addr H j < length h" "nvalue (h ! addr H j) = Some (evalue (H ! j))" "nid (h ! addr H j) = eid (H ! j)"
    "nmatch (h ! addr H j) = (if kind (H ! j) = returnEntry then None else Some (addr H (rpos H (op_id H j))))"
  using assms addr_less [OF assms(2)] unfolding data_ok_def by (auto intro: less_SucI)

lemma linked_next:
  assumes "linked h p (map f (xs @ a # ys))"
  shows "nnext (h ! f a) = (case ys of [] \<Rightarrow> None | b # _ \<Rightarrow> Some (f b))"
  using linked_split(3) [of h p "map f xs" "f a" "map f ys"] assms by (simp split: list.splits)

text \<open>The bit set and the cache when an operation is tried.\<close>

lemma cache_hit_failed:
  assumes "respects_equal M eq" "cache_ok M H S c" "plin M H S" "i \<notin> set S"
    "x \<in> set (c w)" "members (c_linearized x) = insert i (set S)" "eq (snd (stepf M H (final M H (Init M) S) i)) (c_state x)"
  shows "failed M H S i"
proof -
  have "\<not> (members (c_linearized x) = set (take k S))" if "k \<le> length S" for k
  proof
    assume e: "members (c_linearized x) = set (take k S)"
    have "card (insert i (set S)) = Suc (length S)" using assms(4) plin_facts(1) [OF assms(3)] by (simp add: distinct_card)
    moreover have "card (set (take k S)) \<le> length (take k S)" by (rule card_length)
    ultimately show False using e that by (simp add: assms(6))
  qed
  moreover have "\<not> completable M H (members (c_linearized x)) (c_state x) \<or>
      (\<exists>k. 0 < k \<and> k \<le> length S \<and> members (c_linearized x) = set (take k S) \<and> c_state x = final M H (Init M) (take k S))"
    using assms(2,5) unfolding cache_ok_def by blast
  ultimately have "\<not> completable M H (insert i (set S)) (c_state x)" unfolding assms(6) by blast
  then have "\<not> completable M H (insert i (set S)) (snd (stepf M H (final M H (Init M) S) i))"
    using completable_equal [OF assms(1,7)] by blast
  then show ?thesis unfolding failed_def by blast
qed

lemma cache_ok_push:
  assumes "cache_ok M H S c" "bs_fits (num_ops H) lin" "members lin = insert i (set S)"
    "st = final M H (Init M) (S @ [i])"
  shows "cache_ok M H (S @ [i]) (c(w := c w @ [\<lparr>c_linearized = lin, c_state = st\<rparr>]))"
  unfolding cache_ok_def
proof (intro allI ballI)
  fix v x assume "x \<in> set ((c(w := c w @ [\<lparr>c_linearized = lin, c_state = st\<rparr>])) v)"
  then consider "x \<in> set (c v)" | "x = \<lparr>c_linearized = lin, c_state = st\<rparr>" by (auto split: if_splits)
  then show "bs_fits (num_ops H) (c_linearized x) \<and>
      (\<not> completable M H (members (c_linearized x)) (c_state x) \<or>
       (\<exists>k. 0 < k \<and> k \<le> length (S @ [i]) \<and> members (c_linearized x) = set (take k (S @ [i])) \<and>
         c_state x = final M H (Init M) (take k (S @ [i]))))"
  proof cases
    case 1
    then have f: "bs_fits (num_ops H) (c_linearized x)" and "\<not> completable M H (members (c_linearized x)) (c_state x) \<or>
       (\<exists>k. 0 < k \<and> k \<le> length S \<and> members (c_linearized x) = set (take k S) \<and>
         c_state x = final M H (Init M) (take k S))" using assms(1) unfolding cache_ok_def by blast+
    then consider "\<not> completable M H (members (c_linearized x)) (c_state x)"
      | k where "0 < k" "k \<le> length S" "members (c_linearized x) = set (take k S)" "c_state x = final M H (Init M) (take k S)"
      by blast
    then show ?thesis
    proof cases
      case (2 k)
      then show ?thesis using f by (intro conjI disjI2 exI [of _ k]) simp_all
    qed (use f in blast)
  next
    case 2
    then show ?thesis
      using assms(2-4) by (intro conjI disjI2 exI [of _ "length (S @ [i])"]) simp_all
  qed
qed

lemma cache_ok_pop:
  assumes "cache_ok M H (T @ [i]) c" "\<not> completable M H (set (T @ [i])) (final M H (Init M) (T @ [i]))"
  shows "cache_ok M H T c"
  unfolding cache_ok_def
proof (intro allI ballI)
  fix v x assume "x \<in> set (c v)"
  then have f: "bs_fits (num_ops H) (c_linearized x)" and "\<not> completable M H (members (c_linearized x)) (c_state x) \<or>
     (\<exists>k. 0 < k \<and> k \<le> length (T @ [i]) \<and> members (c_linearized x) = set (take k (T @ [i])) \<and>
       c_state x = final M H (Init M) (take k (T @ [i])))" using assms(1) unfolding cache_ok_def by blast+
  then consider "\<not> completable M H (members (c_linearized x)) (c_state x)"
    | k where "0 < k" "k \<le> length (T @ [i])" "members (c_linearized x) = set (take k (T @ [i]))"
      "c_state x = final M H (Init M) (take k (T @ [i]))" by blast
  then show "bs_fits (num_ops H) (c_linearized x) \<and> (\<not> completable M H (members (c_linearized x)) (c_state x) \<or>
     (\<exists>k. 0 < k \<and> k \<le> length T \<and> members (c_linearized x) = set (take k T) \<and>
       c_state x = final M H (Init M) (take k T)))"
  proof cases
    case (2 k)
    show ?thesis
    proof (cases "k \<le> length T")
      case True
      then show ?thesis using 2 f by (intro conjI disjI2 exI [of _ k]) simp_all
    next
      case False
      then have "take k (T @ [i]) = T @ [i]" using 2(2) by simp
      then show ?thesis using 2(3,4) assms(2) f by simp
    qed
  qed (use f in blast)
qed

section \<open>One round\<close>

text \<open>The three ways in which a round on a call ends, as updates of the search state.\<close>

definition pushed :: "'v entry list \<Rightarrow> nat \<Rightarrow> bitset \<Rightarrow> 's \<Rightarrow> ('s, 'v) search \<Rightarrow> ('s, 'v) search" where
  "pushed H i lin st s =
     (let h = lift_op H (heap s) i in
      s\<lparr>cache := (cache s)(bs_hash lin := cache s (bs_hash lin) @ [\<lparr>c_linearized = lin, c_state = st\<rparr>]),
        calls := calls s @ [(addr H (cpos H i), state s)], state := st, linearized := lin,
        heap := h, entry := nnext (h ! length H)\<rparr>)"

lemma try_call_cases:
  assumes ch: "checkable M H" and inv: "search_inv M H S (Some j) s" and j: "j = cpos H i" "i < num_ops H" "i \<notin> set S"
  defines "h \<equiv> heap s" and "r \<equiv> stepf M H (state s) i"
  shows "\<exists>lin. bs_set (linearized s) i = Inr lin \<and> bs_fits (num_ops H) lin \<and> members lin = insert i (set S) \<and>
    try_call M (length H) s (addr H j) (h ! addr H j) = Inr (
      if fst r \<and> \<not> (\<exists>x \<in> set (cache s (bs_hash lin)). lin = c_linearized x \<and> the (Equal M) (snd r) (c_state x))
      then pushed H i lin (snd r) s else s\<lparr>entry := nnext (h ! addr H j)\<rparr>)"
proof -
  have wf: "wf_history H" using ch by (simp add: checkable_def)
  obtain eq where eq: "Equal M = Some eq" using ch unfolding checkable_def by blast
  note d = search_invD [OF inv] and hp = search_heap [OF wf inv]
  note c = wf_pos [OF wf j(2), of callEntry] and rt = wf_pos [OF wf j(2), of returnEntry]
  have jl: "j < length H" using c(1) j(1) by simp
  have dc: "addr H j < length h" "nvalue (h ! addr H j) = Some (evalue (H ! j))" "nid (h ! addr H j) = int i"
    "nmatch (h ! addr H j) = Some (addr H (rpos H i))"
    using data_okD [OF hp(2) jl] c j wf by (simp_all add: h_def)
  have dr: "addr H (rpos H i) < length h" "nvalue (h ! addr H (rpos H i)) = Some (evalue (H ! rpos H i))"
    using data_okD [OF hp(2) rt(1)] by (simp_all add: h_def)
  obtain lin where lin: "bs_set (linearized s) i = Inr lin" "bs_fits (num_ops H) lin" "members lin = insert i (set S)"
    using bs.ins [OF d(8) j(2)] d(9) by auto
  obtain xs ys zs where rs: "rem H (set S) = xs @ cpos H i # ys @ rpos H i # zs"
    using rem_split [OF wf j(2,3)] by blast
  have "linked h (length H) (map (addr H) xs @ addr H j # map (addr H) ys @ addr H (rpos H i) # map (addr H) zs)"
    using hp(1) rs j(1) by (simp add: h_def)
  from lift_ok(1) [OF this dc(4)] have lft: "lift h (addr H j) = Inr (lift_op H h i)" by (simp add: lift_op_def j(1))
  have hl: "length (lift_op H h i) = Suc (length H)" using hp(2) by (simp add: lift_op_def h_def data_ok_def)
  have hd: "index (lift_op H h i) (int (length H)) = Inr (lift_op H h i ! length H)"
    by (rule index_of_nat) (simp add: hl)
  have st: "Step M (state s) (evalue (H ! j)) (evalue (H ! rpos H i)) = Inr r"
    unfolding r_def j(1) by (rule Step_stepf [OF ch j(2)])
  obtain ok ns where okns: "r = (ok, ns)" by (cases r)
  define seen where "seen \<longleftrightarrow> (\<exists>x \<in> set (cache s (bs_hash lin)). lin = c_linearized x \<and> eq ns (c_state x))"
  have sc: "scan_cache M (cache s (bs_hash lin)) \<lparr>c_linearized = lin, c_state = ns\<rparr> = Inr seen"
    by (simp add: scan_cache_iff [OF eq] seen_def)
  have "try_call M (length H) s (addr H j) (h ! addr H j) =
      Inr (if ok \<and> \<not> seen then pushed H i lin ns s else s\<lparr>entry := nnext (h ! addr H j)\<rparr>)"
    using lin(1) dc dr lft hd
    by (cases ok; cases seen)
      (simp_all add: try_call_def value_of_def st okns cacheContains_def sc h_def [symmetric] pushed_def Let_def
        flip: j(1))
  with lin show ?thesis unfolding seen_def okns eq option.sel fst_conv snd_conv by (intro exI [of _ lin] conjI)
qed

text \<open>The three kinds of round keep the invariant.\<close>

lemma inv_advance:
  assumes "wf_history H" "search_inv M H S (Some (cpos H i)) s" "i < num_ops H" "i \<notin> set S" "failed M H S i"
  shows "\<exists>j. cpos H i < j \<and> j < length H \<and> search_inv M H S (Some j) (s\<lparr>entry := nnext (heap s ! addr H (cpos H i))\<rparr>)"
proof -
  note d = search_invD [OF assms(2)]
  obtain xs j ys where j: "rem H (set S) = xs @ cpos H i # j # ys" "cpos H i < j" "cursor_ok H S (Some j)" "tried M H S j"
    using advance_cursor [OF assms(1) d(3) assms(3,4) d(4) [OF refl] assms(5)] by blast
  have "nnext (heap s ! addr H (cpos H i)) = Some (addr H j)"
    using linked_next [of "heap s" "length H" "addr H" xs "cpos H i" "j # ys"] search_heap(1) [OF assms(1,2)] j(1) by simp
  moreover have "j < length H" using j(3) by (simp add: cursor_ok_def set_rem)
  ultimately show ?thesis using d j(2-4) unfolding search_inv_def by (intro exI [of _ j]) simp
qed

lemma inv_push:
  assumes "wf_history H" "search_inv M H S (Some (cpos H i)) s" "i < num_ops H" "i \<notin> set S"
    "stepf M H (state s) i = (True, st)" "bs_fits (num_ops H) lin" "members lin = insert i (set S)"
  shows "\<exists>c. (\<forall>j. c = Some j \<longrightarrow> j < length H) \<and> search_inv M H (S @ [i]) c (pushed H i lin st s)"
proof -
  note d = search_invD [OF assms(2)]
  let ?S = "S @ [i]" and ?s = "pushed H i lin st s"
  have st: "st = final M H (Init M) ?S" using assms(5) by (simp add: d(7))
  have p: "plin M H ?S"
    using d(1) cursor_minimal [OF assms(1) d(3) assms(3,4)] assms(5) by (intro plin_snoc) (simp_all add: d(7))
  have h: "heap ?s = heap_of H ?S" by (simp add: pushed_def Let_def d(5) heap_of_def)
  note hp = heap_of_ok [OF assms(1) plin_facts(1,2) [OF p]]
  define c where "c = (case rem H (set ?S) of [] \<Rightarrow> None | j # _ \<Rightarrow> Some j)"
  have "nnext (heap_of H ?S ! length H) = map_option (addr H) c"
    using hp by (cases "rem H (set ?S)") (auto simp: c_def linked_def dll_def)
  then have e: "entry ?s = map_option (addr H) c" using h by (simp add: pushed_def Let_def)
  have srt: "sorted_wrt (<) (rem H (set ?S))" by (rule sorted_rem)
  have cur: "cursor_ok H ?S c"
    using srt by (cases "rem H (set ?S)") (auto simp: c_def cursor_ok_def)
  have tr: "tried M H ?S j" if "c = Some j" for j
  proof -
    have "\<exists>ys. rem H (set ?S) = j # ys" using that by (simp add: c_def split: list.splits)
    then obtain ys where r: "rem H (set ?S) = j # ys" by blast
    have "\<not> cpos H k < j" if "k < num_ops H" "k \<notin> set ?S" for k
    proof -
      have "cpos H k \<in> set (j # ys)"
        unfolding r [symmetric] using that wf_pos(1) [OF assms(1) that(1), of callEntry] assms(1) by (simp add: set_rem)
      then show ?thesis using srt [unfolded r] by auto
    qed
    then show ?thesis unfolding tried_def by blast
  qed
  have "search_inv M H ?S c ?s"
    unfolding search_inv_def
  proof (intro conjI allI impI)
    show "frames_tried M H ?S" using d(2) d(4) [OF refl] by (simp add: frames_tried_snoc)
    show "cache_ok M H ?S (cache ?s)"
      using cache_ok_push [OF d(10) assms(6,7) st] by (simp add: pushed_def Let_def)
    show "calls ?s = frames M H ?S" by (simp add: pushed_def Let_def d(7,11) frames_snoc)
  qed (use p cur tr h e st assms(6,7) d(12) in \<open>simp_all add: pushed_def Let_def\<close>)
  moreover have "j < length H" if "c = Some j" for j using cur that by (simp add: cursor_ok_def set_rem)
  ultimately show ?thesis by blast
qed

lemma call_ids_frames:
  assumes "wf_history H" "data_ok H h" "set S \<subseteq> {..<num_ops H}"
  shows "call_ids h (frames M H S) = Inr (map int S)"
  unfolding call_ids_def mapR_eq_Inr_iff
proof (intro conjI allI impI)
  show "length (map int S) = length (frames M H S)" by (simp add: frames_def)
  fix k assume "k < length (frames M H S)"
  then have k: "k < length S" by (simp add: frames_def)
  then have "S ! k < num_ops H" using assms(3) nth_mem by auto
  note c = wf_pos [OF assms(1) this, of callEntry]
  show "(case frames M H S ! k of (a, _) \<Rightarrow> bindR (index h (int a)) (\<lambda>n. Inr (nid n))) = Inr (map int S ! k)"
    using data_okD [OF assms(2) c(1)] c(3) k by (simp add: frames_def)
qed

text \<open>Storing the current sequence as the longest one of its operations.\<close>

lemma fold_longest:
  assumes "longest_ok M H l" "plin M H S" "set is \<subseteq> set S"
  shows "\<exists>l' m. foldR (\<lambda>(l, made) i.
         bindR (index l i) (\<lambda>old.
           if better n old
           then bindR (set_index l i (Some (p, map int S))) (\<lambda>l'. Inr (l', True))
           else Inr (l, made))) (l, made) (map int is) = Inr (l', m) \<and> longest_ok M H l'"
  using assms(1,3)
proof (induction "is" arbitrary: l made)
  case (Cons i "is")
  have l: "length l = num_ops H" using Cons.prems(1) by (simp add: longest_ok_def)
  have i: "i \<in> set S" "i < length l" using Cons.prems(2) plin_facts(2) [OF assms(2)] l by auto
  let ?l = "l[i := Some (p, map int S)]"
  have "longest_ok M H ?l"
    unfolding longest_ok_def
  proof (intro conjI allI impI)
    fix k q ids assume k: "k < length ?l" "?l ! k = Some (q, ids)"
    show "\<exists>T. ids = map int T \<and> plin M H T \<and> k \<in> set T"
    proof (cases "k = i")
      case True
      then show ?thesis using k i assms(2) by auto
    next
      case False
      then show ?thesis using k Cons.prems(1) by (simp add: longest_ok_def)
    qed
  qed (simp add: l)
  then show ?case
    using Cons.IH [of ?l True] Cons.IH [of l made] Cons.prems i(2) by (auto simp: set_index_def)
qed simp

lemma update_longest_ok:
  assumes "wf_history H" "search_inv M H S c s"
  shows "\<exists>l m. update_longest s = Inr (s\<lparr>longest := l, seqs := m\<rparr>) \<and> longest_ok M H l"
proof -
  note d = search_invD [OF assms(2)]
  have ids: "call_ids (heap s) (calls s) = Inr (map int S)"
    unfolding d(11) by (rule call_ids_frames [OF assms(1) search_heap(2) [OF assms] plin_facts(2) [OF d(1)]])
  obtain l m where "foldR (\<lambda>(l, made) i.
         bindR (index l i) (\<lambda>old.
           if better (length (calls s)) old
           then bindR (set_index l i (Some (seqs s, map int S))) (\<lambda>l'. Inr (l', True))
           else Inr (l, made))) (longest s, False) (map int S) = Inr (l, m)" "longest_ok M H l"
    using fold_longest [OF d(12) d(1) order_refl] by blast
  then show ?thesis
    unfolding update_longest_def ids bindR_Inr
    by (intro exI [of _ l] exI [of _ "if m then seqs s + 1 else seqs s"]) simp
qed

lemma inv_longest:
  assumes "search_inv M H S c s" "longest_ok M H l"
  shows "search_inv M H S c (s\<lparr>longest := l, seqs := m\<rparr>)"
  using assms by (simp add: search_inv_def)

lemma update_partial_ok:
  assumes "wf_history H" "search_inv M H S c s"
  shows "\<exists>s1. (if cp then update_longest s else Inr s) = Inr s1 \<and> search_inv M H S c s1"
  using update_longest_ok [OF assms] inv_longest [OF assms(2)] assms(2) by (cases cp) auto

text \<open>Backtracking from a return: the last operation has failed, and its entries are linked again.\<close>

lemma inv_backtrack:
  assumes "wf_history H" "search_inv M H (T @ [i]) (Some j) s" "kind (H ! j) = returnEntry"
  shows "\<exists>j' s'. backtrack cp s = Inr s' \<and> search_inv M H T (Some j') s' \<and> cpos H i < j' \<and> j' < length H"
proof -
  obtain s1 where s1: "(if cp then update_longest s else Inr s) = Inr s1" "search_inv M H (T @ [i]) (Some j) s1"
    using update_partial_ok [OF assms(1,2)] by blast
  note d = search_invD [OF s1(2)]
  have no: "\<not> completable M H (set (T @ [i])) (final M H (Init M) (T @ [i]))"
    by (rule cursor_exhausted [OF assms(1) d(3) assms(3) d(4)]) simp
  obtain T' where p: "plin M H T" "minimal H (set T) i" using d(1) by (auto elim: plin_snocE)
  have i: "i < num_ops H" "i \<notin> set T" using p(2) by (simp_all add: minimal_def)
  note c = wf_pos [OF assms(1) i(1), of callEntry]
  note hp = heap_of_ok [OF assms(1) plin_facts(1,2) [OF p(1)]] and hp1 = search_heap [OF assms(1) s1(2)]
  have fl: "failed M H T i" using no by (rule failed_snoc)
  have tr: "frames_tried M H T" "tried M H T (cpos H i)" using d(2) by (simp_all add: frames_tried_snoc)
  have cur: "cursor_ok H T (Some (cpos H i))"
    unfolding cursor_ok_def option.case
  proof (intro conjI ballI impI)
    show "cpos H i \<in> set (rem H (set T))" using c(1) i assms(1) by (simp add: set_rem)
    fix k assume k: "k \<in> set (rem H (set T))" "k < cpos H i"
    then have kl: "k < length H" "op_id H k \<notin> set T" by (simp_all add: set_rem)
    note w = wf_op_id [OF assms(1) kl(1)]
    show "kind (H ! k) = callEntry"
    proof (cases "kind (H ! k)")
      case returnEntry
      with w(3) k(2) have "rpos H (op_id H k) < cpos H i" by simp
      then show ?thesis using p(2) w(1) kl(2) unfolding minimal_def by blast
    qed
  qed
  obtain xs j' ys where j': "rem H (set T) = xs @ cpos H i # j' # ys" "cpos H i < j'" "cursor_ok H T (Some j')" "tried M H T j'"
    using advance_cursor [OF assms(1) cur i tr(2) fl] by blast
  obtain xs2 ys2 zs2 where rs: "rem H (set T) = xs2 @ cpos H i # ys2 @ rpos H i # zs2"
    using rem_split [OF assms(1) i] by blast
  let ?a = "addr H (cpos H i)"
  have mt: "nmatch (heap_of H T ! ?a) = Some (addr H (rpos H i))"
    using data_okD(4) [OF conjunct2 [OF hp] c(1)] c(2) i(1) assms(1) by simp
  have hs: "heap s1 = lift_op H (heap_of H T) i" by (simp add: d(5) heap_of_def)
  have "linked (heap_of H T) (length H) (map (addr H) xs2 @ ?a # map (addr H) ys2 @ addr H (rpos H i) # map (addr H) zs2)"
    using hp rs by simp
  from lift_ok(3) [OF this mt] have un: "unlift (heap s1) ?a = Inr (heap_of H T)" by (simp add: hs lift_op_def)
  have al: "?a < length (heap s1)" "?a < length (heap_of H T)" "nid (heap s1 ! ?a) = int i"
    using data_okD [OF hp1(2) c(1)] data_okD [OF conjunct2 [OF hp] c(1)] c(3) by simp_all
  have nx: "nnext (heap_of H T ! ?a) = Some (addr H j')"
    using linked_next [of "heap_of H T" "length H" "addr H" xs "cpos H i" "j' # ys"] hp j'(1) by simp
  obtain lin where lin: "bs_clear (linearized s1) i = Inr lin" "bs_fits (num_ops H) lin" "members lin = set T"
    using bs.del [OF d(8) i(1)] d(9) i(2) by auto
  let ?s = "s1\<lparr>state := final M H (Init M) T, linearized := lin, calls := frames M H T, heap := heap_of H T,
      entry := Some (addr H j')\<rparr>"
  have cl: "calls s1 = frames M H T @ [(?a, final M H (Init M) T)]" by (simp add: d(11) frames_snoc)
  have ix: "index (calls s1) (int (length (calls s1)) - 1) = Inr (?a, final M H (Init M) T)"
    by (subst index_last) (simp_all add: cl)
  have sl: "slice_to (calls s1) (int (length (calls s1)) - 1) = Inr (frames M H T)"
    by (simp add: cl slice_to_def)
  have "backtrack cp s = Inr ?s"
    unfolding backtrack_def s1(1) using ix sl al un lin(1) nx by simp
  moreover have "search_inv M H T (Some j') ?s"
    using p(1) tr(1) j'(3,4) lin(2,3) cache_ok_pop [OF d(10) no] d(12) by (simp add: search_inv_def)
  moreover have "j' < length H" using j'(3) by (simp add: cursor_ok_def set_rem)
  ultimately show ?thesis using j'(2) by blast
qed

section \<open>Termination\<close>

text \<open>
  The stack of cursors read as a number in base \<open>length H + 1\<close>: the cursors only move forward, and a new level adds
  less than what its operation gives up by being passed.
\<close>

definition weight :: "'v entry list \<Rightarrow> nat \<Rightarrow> nat" where
  "weight H k = Suc (length H) ^ (num_ops H - k)"

definition stack_measure :: "'v entry list \<Rightarrow> nat list \<Rightarrow> nat" where
  "stack_measure H S = (\<Sum>k < length S. (length H - cpos H (S ! k) - 1) * weight H k)"

definition search_measure :: "'v entry list \<Rightarrow> nat list \<Rightarrow> nat option \<Rightarrow> nat" where
  "search_measure H S c =
     stack_measure H S + (case c of None \<Rightarrow> 0 | Some j \<Rightarrow> (length H - j) * weight H (length S))"

lemma weight_pos [simp]: "0 < weight H k"
  by (simp add: weight_def)

lemma stack_measure_snoc:
  "stack_measure H (S @ [i]) = stack_measure H S + (length H - cpos H i - 1) * weight H (length S)"
proof -
  have "(\<Sum>k < length S. (length H - cpos H ((S @ [i]) ! k) - 1) * weight H k) = stack_measure H S"
    unfolding stack_measure_def by (rule sum.cong) (simp_all add: nth_append)
  then show ?thesis by (simp add: stack_measure_def)
qed

lemma measure_advance: "j < j' \<Longrightarrow> j' < length H \<Longrightarrow> search_measure H S (Some j') < search_measure H S (Some j)"
  by (simp add: search_measure_def)

lemma measure_push:
  assumes "length S < num_ops H" "cpos H i < length H" "\<forall>j. c = Some j \<longrightarrow> j < length H"
  shows "search_measure H (S @ [i]) c < search_measure H S (Some (cpos H i))"
proof -
  let ?k = "length S"
  have w: "weight H ?k = Suc (length H) * weight H (Suc ?k)"
    using assms(1) by (simp add: weight_def Suc_diff_Suc flip: power_Suc)
  have "(case c of None \<Rightarrow> 0 | Some j \<Rightarrow> (length H - j) * weight H (Suc ?k)) \<le> length H * weight H (Suc ?k)"
    by (cases c) (simp_all add: mult_le_mono1)
  also have "\<dots> < weight H ?k" unfolding w by simp
  finally have "search_measure H (S @ [i]) c < stack_measure H S + ((length H - cpos H i - 1) + 1) * weight H ?k"
    by (simp add: search_measure_def stack_measure_snoc cong: option.case_cong)
  also have "(length H - cpos H i - 1) + 1 = length H - cpos H i" using assms(2) by simp
  finally show ?thesis by (simp add: search_measure_def)
qed

lemma measure_backtrack:
  assumes "cpos H i < j'" "j' < length H" "j < length H"
  shows "search_measure H T (Some j') < search_measure H (T @ [i]) (Some j)"
proof -
  have "(length H - j') * weight H (length T) \<le> (length H - cpos H i - 1) * weight H (length T)"
    using assms(1) by (intro mult_le_mono1) simp
  moreover have "0 < (length H - j) * weight H (Suc (length T))" using assms(3) by simp
  ultimately have "(length H - j') * weight H (length T) <
      (length H - cpos H i - 1) * weight H (length T) + (length H - j) * weight H (Suc (length T))" by linarith
  then show ?thesis by (simp add: search_measure_def stack_measure_snoc)
qed

section \<open>The loop\<close>

text \<open>A round either ends the search because nothing can be linearized, or keeps the invariant and decreases the measure.\<close>

lemma round_call:
  assumes "checkable M H" "search_inv M H S (Some j) s" "kind (H ! j) = callEntry"
  shows "\<exists>S' c' s'. check_step M cp (length H) s = Inr (Inr s') \<and> search_inv M H S' c' s' \<and>
    search_measure H S' c' < search_measure H S (Some j)"
proof -
  have wf: "wf_history H" using assms(1) by (simp add: checkable_def)
  obtain eq where eq: "Equal M = Some eq" "respects_equal M eq" using assms(1) unfolding checkable_def by blast
  note d = search_invD [OF assms(2)] and hp = search_heap [OF wf assms(2)]
  have jl: "j < length H" "op_id H j \<notin> set S" using d(3) by (simp_all add: cursor_ok_def set_rem)
  define i where "i = op_id H j"
  have i: "i < num_ops H" "i \<notin> set S" "j = cpos H i" using wf_op_id [OF wf jl(1)] jl(2) assms(3) by (simp_all add: i_def)
  note inv = assms(2) [unfolded i(3)]
  let ?a = "addr H j" and ?h = "heap s" and ?r = "stepf M H (state s) i"
  obtain lin where lin: "bs_fits (num_ops H) lin" "members lin = insert i (set S)"
    "try_call M (length H) s ?a (?h ! ?a) = Inr (
      if fst ?r \<and> \<not> (\<exists>x \<in> set (cache s (bs_hash lin)). lin = c_linearized x \<and> the (Equal M) (snd ?r) (c_state x))
      then pushed H i lin (snd ?r) s else s\<lparr>entry := nnext (?h ! ?a)\<rparr>)"
    using try_call_cases [OF assms(1,2) i(3,1,2)] by blast
  have step: "check_step M cp (length H) s = bindR (try_call M (length H) s ?a (?h ! ?a)) (\<lambda>s'. Inr (Inr s'))"
    using data_okD [OF hp(2) jl(1)] assms(3) by (simp add: check_step_def d(6))
  show ?thesis
  proof (cases "fst ?r \<and> \<not> (\<exists>x \<in> set (cache s (bs_hash lin)). lin = c_linearized x \<and> the (Equal M) (snd ?r) (c_state x))")
    case True
    then have r: "?r = (True, snd ?r)" by (metis prod.collapse)
    obtain c where c: "\<forall>j. c = Some j \<longrightarrow> j < length H" "search_inv M H (S @ [i]) c (pushed H i lin (snd ?r) s)"
      using inv_push [OF wf inv i(1,2) r lin(1,2)] by blast
    have pl: "plin M H (S @ [i])" using c(2) by (rule search_invD)
    have "length (S @ [i]) \<le> num_ops H"
      using distinct_card [OF plin_facts(1) [OF pl]] card_mono [OF _ plin_facts(2) [OF pl]] by simp
    then have "length S < num_ops H" by simp
    from measure_push [OF this _ c(1)] jl(1) i(3) have "search_measure H (S @ [i]) c < search_measure H S (Some j)" by simp
    moreover have "check_step M cp (length H) s = Inr (Inr (pushed H i lin (snd ?r) s))"
      unfolding step lin(3) if_P [OF True] by simp
    ultimately show ?thesis using c(2) by blast
  next
    case False
    have "failed M H S i"
    proof (cases "fst ?r")
      case True
      with False eq(1) obtain x where x: "x \<in> set (cache s (bs_hash lin))" "lin = c_linearized x" "eq (snd ?r) (c_state x)" by auto
      show ?thesis
        by (rule cache_hit_failed [OF eq(2) d(10) d(1) i(2) x(1)]) (use x lin(2) d(7) in simp_all)
    qed (simp add: failed_def d(7))
    from inv_advance [OF wf inv i(1,2) this]
    obtain j' where j': "j < j'" "j' < length H" "search_inv M H S (Some j') (s\<lparr>entry := nnext (?h ! ?a)\<rparr>)"
      unfolding i(3) by blast
    have "check_step M cp (length H) s = Inr (Inr (s\<lparr>entry := nnext (?h ! ?a)\<rparr>))"
      unfolding step lin(3) if_not_P [OF False] by simp
    then show ?thesis using j'(3) measure_advance [OF j'(1,2)] by blast
  qed
qed

lemma round_return:
  assumes "wf_history H" "search_inv M H S (Some j) s" "kind (H ! j) = returnEntry"
  shows "(check_step M cp (length H) s = Inr (Inl (False, longest s)) \<and> \<not> linearizable M H) \<or>
    (\<exists>S' c' s'. check_step M cp (length H) s = Inr (Inr s') \<and> search_inv M H S' c' s' \<and>
      search_measure H S' c' < search_measure H S (Some j))"
proof -
  note d = search_invD [OF assms(2)] and hp = search_heap [OF assms(1,2)]
  have jl: "j < length H" using d(3) by (simp add: cursor_ok_def set_rem)
  have step: "check_step M cp (length H) s =
      (if S = [] then Inr (Inl (False, longest s)) else bindR (backtrack cp s) (\<lambda>s'. Inr (Inr s')))"
    using data_okD [OF hp(2) jl] assms(3) by (simp add: check_step_def d(6,11) frames_def)
  show ?thesis
  proof (cases S rule: rev_cases)
    case Nil
    have "\<not> completable M H (set S) (final M H (Init M) S)"
      using cursor_exhausted [OF assms(1) d(3) assms(3) d(4)] by simp
    then show ?thesis using step Nil by (simp add: linearizable_completable)
  next
    case (snoc T i)
    obtain j' s' where b: "backtrack cp s = Inr s'" "search_inv M H T (Some j') s'" "cpos H i < j'" "j' < length H"
      using inv_backtrack [OF assms(1) assms(2) [unfolded snoc] assms(3)] by blast
    have "search_measure H T (Some j') < search_measure H S (Some j)"
      unfolding snoc by (rule measure_backtrack [OF b(3,4) jl])
    then show ?thesis using step b snoc by simp blast
  qed
qed

lemma fill_longest:
  "m \<le> length l \<Longrightarrow> foldR (\<lambda>l i. set_index l (int i) v) l [0..<m] = Inr (replicate m v @ drop m l)"
proof (induction m)
  case (Suc m)
  have "set_index (replicate m v @ drop m l) (int m) v = Inr ((replicate m v @ drop m l)[m := v])"
    using Suc.prems by (simp add: set_index_def)
  also have "(replicate m v @ drop m l)[m := v] = replicate (Suc m) v @ drop (Suc m) l"
  proof -
    have "drop m l = l ! m # drop (Suc m) l" using Suc.prems by (simp add: Cons_nth_drop_Suc)
    then show ?thesis by (simp add: list_update_append replicate_append_same)
  qed
  finally show ?case using Suc by (simp add: foldR_append)
qed simp

lemma complete_ok:
  assumes "wf_history H" "search_inv M H S c s" "rem H (set S) = []"
  shows "complete (num_ops H) s = Inr (True, replicate (num_ops H) (Some (seqs s, map int S)))"
    "longest_ok M H (replicate (num_ops H) (Some (seqs s, map int S)))"
proof -
  note d = search_invD [OF assms(2)]
  have ids: "call_ids (heap s) (calls s) = Inr (map int S)"
    unfolding d(11) by (rule call_ids_frames [OF assms(1) search_heap(2) [OF assms(1,2)] plin_facts(2) [OF d(1)]])
  have l: "length (longest s) = num_ops H" using d(12) by (simp add: longest_ok_def)
  show "complete (num_ops H) s = Inr (True, replicate (num_ops H) (Some (seqs s, map int S)))"
    by (simp add: complete_def ids fill_longest l)
  have "i \<in> set S" if i: "i < num_ops H" for i
  proof -
    have "cpos H i \<notin> set (rem H (set S))" by (simp add: assms(3))
    then show ?thesis using i assms(1) wf_pos(1) [OF assms(1) i, of callEntry] by (simp add: set_rem)
  qed
  then show "longest_ok M H (replicate (num_ops H) (Some (seqs s, map int S)))"
    using d(1) by (simp add: longest_ok_def)
qed

text \<open>The head node points to nothing exactly when nothing remains.\<close>

lemma head_next:
  assumes "wf_history H" "search_inv M H S c s"
  shows "index (heap s) (int (length H)) = Inr (heap s ! length H)"
    "nnext (heap s ! length H) = None \<longleftrightarrow> rem H (set S) = []"
proof -
  note hp = search_heap [OF assms]
  show "index (heap s) (int (length H)) = Inr (heap s ! length H)"
    using hp(2) by (intro index_of_nat) (simp add: data_ok_def)
  show "nnext (heap s ! length H) = None \<longleftrightarrow> rem H (set S) = []"
    using hp(1) by (cases "rem H (set S)") (auto simp: linked_def dll_def)
qed

lemma check_loop_ok:
  assumes "checkable M H" "search_inv M H S c s"
  shows "\<exists>r l. check_loop M cp kill (num_ops H) (length H) rnd s = Some (Inr (r, l)) \<and>
    (r \<longrightarrow> linearizable M H) \<and> (\<not> r \<longrightarrow> (\<exists>k. kill k) \<or> \<not> linearizable M H) \<and> longest_ok M H l"
  using assms(2)
proof (induction "search_measure H S c" arbitrary: S c s rnd rule: less_induct)
  case less
  have wf: "wf_history H" using assms(1) by (simp add: checkable_def)
  note d = search_invD [OF less.prems] and hn = head_next [OF wf less.prems]
  note unf = check_loop.simps [of M cp kill "num_ops H" "length H" rnd s, unfolded hn(1) sum.case]
  show ?case
  proof (cases "rem H (set S) = []")
    case True
    then show ?thesis
      using unf hn(2) complete_ok [OF wf less.prems True] plin_linearizable [OF d(1) True wf] by auto
  next
    case False
    then have nn: "nnext (heap s ! length H) \<noteq> None" using hn(2) by blast
    show ?thesis
    proof (cases "kill rnd")
      case True
      then show ?thesis using unf nn d(12) by auto
    next
      case nk: False
      obtain j where c: "c = Some j" using d(3) False unfolding cursor_ok_def by (cases c) auto
      note prem = less.prems [unfolded c]
      have "(check_step M cp (length H) s = Inr (Inl (False, longest s)) \<and> \<not> linearizable M H) \<or>
        (\<exists>S' c' s'. check_step M cp (length H) s = Inr (Inr s') \<and> search_inv M H S' c' s' \<and>
          search_measure H S' c' < search_measure H S (Some j))"
        using round_call [OF assms(1) prem] round_return [OF wf prem] by (cases "kind (H ! j)") blast+
      then show ?thesis
      proof (elim disjE exE conjE)
        assume "check_step M cp (length H) s = Inr (Inl (False, longest s))" "\<not> linearizable M H"
        then show ?thesis using unf nn nk d(12) by (intro exI [of _ False] exI [of _ "longest s"]) simp
      next
        fix S' c' s'
        assume st: "check_step M cp (length H) s = Inr (Inr s')" and "search_inv M H S' c' s'"
          "search_measure H S' c' < search_measure H S (Some j)"
        then have "\<exists>r l. check_loop M cp kill (num_ops H) (length H) (rnd + 1) s' = Some (Inr (r, l)) \<and>
            (r \<longrightarrow> linearizable M H) \<and> (\<not> r \<longrightarrow> (\<exists>k. kill k) \<or> \<not> linearizable M H) \<and> longest_ok M H l"
          using less.hyps c by blast
        then show ?thesis using unf nn nk st by simp
      qed
    qed
  qed
qed

section \<open>The result\<close>

lemma init_search_ok:
  assumes "wf_history H"
  shows "\<exists>c s. init_search M (entry_nodes (rev H) (length H)) (root_ptr (length H)) (num_ops H) = Inr (s, length H) \<and>
    search_inv M H [] c s"
proof -
  let ?c = "if length H = 0 then None else Some 0"
  let ?s = "\<lparr>heap = start_heap H, entry = root_ptr (length H), state = Init M, linearized = newBitset (num_ops H),
    cache = (\<lambda>_. []), calls = [], longest = replicate (num_ops H) None, seqs = 0\<rparr>"
  have "length (entry_nodes (rev H) (length H)) = length H" by (simp add: entry_nodes_def)
  then have "init_search M (entry_nodes (rev H) (length H)) (root_ptr (length H)) (num_ops H) = Inr (?s, length H)"
    using insertBefore_head [of H] by (simp add: init_search_def alloc_def head_node_def)
  moreover have "search_inv M H [] ?c ?s"
    unfolding search_inv_def
  proof (intro conjI)
    show "entry ?s = map_option (addr H) ?c" by (simp add: root_ptr_def addr_def)
    show "cursor_ok H [] ?c" by (simp add: cursor_ok_def rem_def)
    show "bs_fits (num_ops H) (linearized ?s)" using bs.new(1) by simp
    show "members (linearized ?s) = set []" by (simp add: members_newBitset)
  qed (simp_all add: plin_Nil frames_tried_def tried_def heap_of_def cache_ok_def frames_def longest_ok_def)
  ultimately show ?thesis by blast
qed

lemma checkSingle_ok:
  assumes "checkable M H"
  shows "\<exists>r l. checkSingle M H cp kill = Some (Inr (r, l)) \<and>
    (r \<longrightarrow> linearizable M H) \<and> (\<not> r \<longrightarrow> (\<exists>k. kill k) \<or> \<not> linearizable M H) \<and> longest_ok M H l"
proof -
  have wf: "wf_history H" using assms by (simp add: checkable_def)
  obtain c s where "init_search M (entry_nodes (rev H) (length H)) (root_ptr (length H)) (num_ops H) = Inr (s, length H)"
    "search_inv M H [] c s" using init_search_ok [OF wf] by blast
  with check_loop_ok [OF assms this(2), of cp kill 0] show ?thesis
    by (simp add: checkSingle_def makeLinkedEntries_ok node_length_entries num_ops_def)
qed

text \<open>
  C3. \<^verbatim>\<open>checkSingle\<close> decides linearizability: on a well-formed history, with a model whose steps do not panic and whose
  equality is a congruence for the steps, and while the kill flag is not set, the search ends, does not panic, and returns
  whether there is a linear order of all operations that respects the order of non-overlapping operations and that the
  model accepts. The pruning by the cache loses nothing.
\<close>

theorem checkSingle_decides:
  assumes "checkable M H"
  shows "\<exists>l. checkSingle M H computePartial (\<lambda>_. False) = Some (Inr (linearizable M H, l))"
proof -
  obtain r l where "checkSingle M H computePartial (\<lambda>_. False) = Some (Inr (r, l))"
    "r \<longrightarrow> linearizable M H" "\<not> r \<longrightarrow> \<not> linearizable M H"
    using checkSingle_ok [OF assms, of computePartial "\<lambda>_. False"] by blast
  then show ?thesis by (cases r) auto
qed

definition counter_model :: "(int, int) Model" where
  "counter_model = \<lparr>Partition = None, PartitionEvent = None, Init = 0,
     Step = (\<lambda>s v w. Inr (w = s, s + v)), Equal = Some (=), DescribeOperation = None, DescribeState = None\<rparr>"

definition two_adds :: "int \<Rightarrow> int \<Rightarrow> int entry list" where
  "two_adds a b =
     [\<lparr>kind = callEntry, evalue = 1, eid = 0, etime = 0, eclientId = 0\<rparr>,
      \<lparr>kind = callEntry, evalue = 1, eid = 1, etime = 1, eclientId = 1\<rparr>,
      \<lparr>kind = returnEntry, evalue = a, eid = 0, etime = 2, eclientId = 0\<rparr>,
      \<lparr>kind = returnEntry, evalue = b, eid = 1, etime = 3, eclientId = 1\<rparr>]"

lemma two_adds_checkable: "checkable counter_model (two_adds a b)"
proof -
  have "num_ops (two_adds a b) = 2" by (simp add: num_ops_def two_adds_def)
  moreover have "int ` {..<2} = {0, 1}" by (simp add: numeral_2_eq_2 lessThan_Suc insert_commute)
  moreover have "length (two_adds a b) = 4" by (simp add: two_adds_def)
  moreover have "\<forall>i < 4. \<forall>j < 4. kind (two_adds a b ! i) = callEntry \<and> kind (two_adds a b ! j) = returnEntry \<and>
      eid (two_adds a b ! i) = eid (two_adds a b ! j) \<longrightarrow> i < j"
    by (simp add: numeral_eq_Suc All_less_Suc2 two_adds_def)
  moreover have "map (\<lambda>e. (kind e, eid e)) (two_adds a b) = [(callEntry, 0), (callEntry, 1), (returnEntry, 0), (returnEntry, 1)]"
    by (simp add: two_adds_def)
  moreover have "set [(callEntry, 0), (callEntry, 1), (returnEntry, 0), (returnEntry, 1)] = {callEntry, returnEntry} \<times> {0, 1 :: int}"
    by auto
  moreover have "distinct [(callEntry, 0 :: int), (callEntry, 1), (returnEntry, 0), (returnEntry, 1)]" by simp
  ultimately have "wf_history (two_adds a b)" unfolding wf_history_def by (simp only: simp_thms)
  then show ?thesis
    by (simp add: checkable_def counter_model_def respects_equal_eq)
qed

theorem checkSingle_decides_witness:
  "linearizable counter_model (two_adds 1 0) \<and> \<not> linearizable counter_model (two_adds 0 0)"
proof -
  have "case checkSingle counter_model (two_adds 1 0) False (\<lambda>_. False) of Some (Inr (r, l)) \<Rightarrow> r | _ \<Rightarrow> False"
    "case checkSingle counter_model (two_adds 0 0) False (\<lambda>_. False) of Some (Inr (r, l)) \<Rightarrow> \<not> r | _ \<Rightarrow> False"
    by code_simp+
  with checkSingle_decides [OF two_adds_checkable [of 1 0], of False]
    checkSingle_decides [OF two_adds_checkable [of 0 0], of False]
  show ?thesis by auto
qed

text \<open>
  The partial linearizations that \<^verbatim>\<open>checkSingle\<close> reports are real ones, also when it was killed: the sequence stored for
  an operation contains it, has no duplicates, respects the order of the history, and the model accepts it.
\<close>

lemma checkSingle_partials:
  assumes "checkable M H" "checkSingle M H computePartial kill = Some (Inr (r, l))" "i < length l" "l ! i = Some (p, ids)"
  shows "\<exists>T. ids = map int T \<and> i \<in> set T \<and> distinct T \<and> set T \<subseteq> {..<num_ops H} \<and> rt_order H T \<and>
    legal M H (Init M) T"
proof -
  have "longest_ok M H l" using checkSingle_ok [OF assms(1), of computePartial kill] assms(2) by auto
  then obtain T where T: "ids = map int T" "plin M H T" "i \<in> set T"
    using assms(3,4) unfolding longest_ok_def by blast
  show ?thesis
    using T plin_facts(1-3) [OF T(2)] plin_rt_order [OF T(2)] by blast
qed

end
