(* ===== verification/Porc_Top.thy ===== *)
theory Porc_Top
  imports Porc_Search
begin

text \<open>
  The entry points of the checker (src/porcupine/porcupine.go, \<^verbatim>\<open>checkParallel\<close>, \<^verbatim>\<open>checkEvents\<close> and
  \<^verbatim>\<open>checkOperations\<close> of src/porcupine/checker.go) and the results for whole histories, in particular for the key/value model.

  The partitions are checked by goroutines of their own. An execution is given by the order \<open>arrival\<close> in which
  their results are received, the values \<open>kills i\<close> that goroutine \<open>i\<close> reads from the kill flag, and, when a
  timeout is set and fires, the number \<open>timeout_at\<close> of results that were received before.
\<close>

section \<open>The code\<close>

record 'v linearizationInfo =
  history :: "'v entry list list"
  partialLinearizations :: "int list list list"

text \<open>
  The select loop. The result is the values of \<^verbatim>\<open>ok\<close>, \<^verbatim>\<open>timedOut\<close> and \<^verbatim>\<open>count\<close>, or \<open>None\<close> when it waits forever.
\<close>

fun collect :: "bool \<Rightarrow> nat \<Rightarrow> nat option \<Rightarrow> nat \<Rightarrow> bool \<Rightarrow> bool list \<Rightarrow> (bool \<times> bool \<times> nat) option" where
  "collect computeInfo n timeout_at cnt ok [] =
     (if timeout_at \<noteq> None then Some (ok, True, cnt) else None)"
| "collect computeInfo n timeout_at cnt ok (result # rest) =
     (if timeout_at = Some cnt then Some (ok, True, cnt)
      else let cnt' = cnt + 1; ok' = (ok \<and> result) in
        if \<not> ok' \<and> \<not> computeInfo then Some (ok', False, cnt')
        else if cnt' \<ge> n then Some (ok', False, cnt')
        else collect computeInfo n timeout_at cnt' ok' rest)"

text \<open>The distinct sequences of a partition; the iteration over the Go map is in the order of \<open>order\<close>.\<close>

definition unique_partials :: "((nat \<times> int list) list \<Rightarrow> (nat \<times> int list) list) \<Rightarrow> partials \<Rightarrow> int list list" where
  "unique_partials order l = map snd (order (remdups (concat (map (\<lambda>v. case v of None \<Rightarrow> [] | Some p \<Rightarrow> [p]) l))))"

text \<open>The results of the goroutines in \<open>is\<close>; a goroutine that does not end has none, and a panic ends the program.\<close>

fun gather :: "(nat \<Rightarrow> (bool \<times> partials) res option) \<Rightarrow> nat list \<Rightarrow> (bool \<times> partials) list res option" where
  "gather run [] = Some (Inr [])"
| "gather run (i # ks) =
     (case run i of
        None \<Rightarrow> None
      | Some (Inl p) \<Rightarrow> Some (Inl p)
      | Some (Inr r) \<Rightarrow>
          (case gather run ks of None \<Rightarrow> None | Some (Inl p) \<Rightarrow> Some (Inl p) | Some (Inr rs) \<Rightarrow> Some (Inr (r # rs))))"

definition checkParallel ::
  "(nat \<Rightarrow> nat \<Rightarrow> bool) \<Rightarrow> nat list \<Rightarrow> nat option \<Rightarrow> ((nat \<times> int list) list \<Rightarrow> (nat \<times> int list) list) \<Rightarrow>
     ('s, 'v) Model \<Rightarrow> 'v entry list list \<Rightarrow> bool \<Rightarrow> (CheckResult \<times> 'v linearizationInfo) res option" where
  "checkParallel kills arrival timeout_at order model hist computeInfo =
     (let run = (\<lambda>i. checkSingle model (hist ! i) computeInfo (kills i)) in
      case gather run arrival of
        None \<Rightarrow> None
      | Some (Inl p) \<Rightarrow> Some (Inl p)
      | Some (Inr results) \<Rightarrow>
          (case collect computeInfo (length hist) timeout_at 0 True (map fst results) of
             None \<Rightarrow> None
           | Some (ok, timedOut, cnt) \<Rightarrow>
               (let result = (if \<not> ok then Illegal else if timedOut then Unknown else Ok) in
                if computeInfo then
                  (case gather run [0..<length hist] of
                     None \<Rightarrow> None
                   | Some (Inl p) \<Rightarrow> Some (Inl p)
                   | Some (Inr ls) \<Rightarrow>
                       Some (Inr (result, \<lparr>history = hist, partialLinearizations = map (\<lambda>r. unique_partials order (snd r)) ls\<rparr>)))
                else Some (Inr (result, \<lparr>history = [], partialLinearizations = []\<rparr>)))))"

text \<open>The environment of a check: the goroutines' execution, the unstable sort, and the default descriptions.\<close>

record ('s, 'v) env =
  kills :: "nat \<Rightarrow> nat \<Rightarrow> bool"
  arrival :: "nat list"
  timeout_at :: "nat option"
  order :: "(nat \<times> int list) list \<Rightarrow> (nat \<times> int list) list"
  sort_entries :: "'v entry list \<Rightarrow> 'v entry list"
  sprintOp :: "'v \<Rightarrow> 'v \<Rightarrow> string"
  sprint :: "'s \<Rightarrow> string"

definition run_check ::
  "('s, 'v) env \<Rightarrow> ('s, 'v) Model \<Rightarrow> 'v entry list list res \<Rightarrow> bool \<Rightarrow> (CheckResult \<times> 'v linearizationInfo) res option" where
  "run_check E model l verbose =
     (case l of
        Inl p \<Rightarrow> Some (Inl p)
      | Inr es \<Rightarrow> checkParallel (kills E) (arrival E) (timeout_at E) (order E) model es verbose)"

definition checkEvents ::
  "('s, 'v) env \<Rightarrow> ('s, 'v) Model \<Rightarrow> 'v Event list \<Rightarrow> bool \<Rightarrow> (CheckResult \<times> 'v linearizationInfo) res option" where
  "checkEvents E model hist verbose =
     (let m = fillDefault (sprintOp E) (sprint E) model;
          partitions = (case PartitionEvent m of None \<Rightarrow> Inl NilDereference | Some f \<Rightarrow> f hist)
      in run_check E m (bindR partitions (\<lambda>ps. Inr (map (\<lambda>sub. convertEntries (renumber sub)) ps))) verbose)"

definition checkOperations ::
  "('s, 'v) env \<Rightarrow> ('s, 'v) Model \<Rightarrow> 'v Operation list \<Rightarrow> bool \<Rightarrow> (CheckResult \<times> 'v linearizationInfo) res option" where
  "checkOperations E model hist verbose =
     (let m = fillDefault (sprintOp E) (sprint E) model;
          partitions = (case Partition m of None \<Rightarrow> Inl NilDereference | Some f \<Rightarrow> f hist)
      in run_check E m (bindR partitions (\<lambda>ps. Inr (map (makeEntries (sort_entries E)) ps))) verbose)"

definition map_result :: "('a \<Rightarrow> 'b) \<Rightarrow> 'a res option \<Rightarrow> 'b res option" where
  "map_result f r = map_option (\<lambda>x. bindR x (\<lambda>y. Inr (f y))) r"

text \<open>\<^verbatim>\<open>CheckOperations\<close> and \<^verbatim>\<open>CheckEvents\<close> set no timeout.\<close>

definition CheckOperations :: "('s, 'v) env \<Rightarrow> ('s, 'v) Model \<Rightarrow> 'v Operation list \<Rightarrow> bool res option" where
  "CheckOperations E model hist =
     map_result (\<lambda>(res, _). res = Ok) (checkOperations (E\<lparr>timeout_at := None\<rparr>) model hist False)"

definition CheckOperationsTimeout :: "('s, 'v) env \<Rightarrow> ('s, 'v) Model \<Rightarrow> 'v Operation list \<Rightarrow> CheckResult res option" where
  "CheckOperationsTimeout E model hist = map_result fst (checkOperations E model hist False)"

definition CheckOperationsVerbose ::
  "('s, 'v) env \<Rightarrow> ('s, 'v) Model \<Rightarrow> 'v Operation list \<Rightarrow> (CheckResult \<times> 'v linearizationInfo) res option" where
  "CheckOperationsVerbose E model hist = checkOperations E model hist True"

definition CheckEvents :: "('s, 'v) env \<Rightarrow> ('s, 'v) Model \<Rightarrow> 'v Event list \<Rightarrow> bool res option" where
  "CheckEvents E model hist =
     map_result (\<lambda>(res, _). res = Ok) (checkEvents (E\<lparr>timeout_at := None\<rparr>) model hist False)"

definition CheckEventsTimeout :: "('s, 'v) env \<Rightarrow> ('s, 'v) Model \<Rightarrow> 'v Event list \<Rightarrow> CheckResult res option" where
  "CheckEventsTimeout E model hist = map_result fst (checkEvents E model hist False)"

definition CheckEventsVerbose ::
  "('s, 'v) env \<Rightarrow> ('s, 'v) Model \<Rightarrow> 'v Event list \<Rightarrow> (CheckResult \<times> 'v linearizationInfo) res option" where
  "CheckEventsVerbose E model hist = checkEvents E model hist True"

section \<open>Collecting the results\<close>

lemma collect_ok:
  assumes "cnt + length rs = n" "rs \<noteq> []" "ok \<or> ci"
  shows "\<exists>ok' to c m. collect ci n t cnt ok rs = Some (ok', to, c) \<and> m \<le> length rs \<and>
    (\<forall>T. t = Some T \<longrightarrow> cnt \<le> T \<longrightarrow> cnt + m \<le> T) \<and> (ok' \<longleftrightarrow> ok \<and> (\<forall>r \<in> set (take m rs). r)) \<and>
    (to \<longrightarrow> t \<noteq> None) \<and> (\<not> to \<longrightarrow> m = length rs \<or> \<not> ok')"
  using assms
proof (induction rs arbitrary: cnt ok)
  case (Cons r rs)
  show ?case
  proof (cases "t = Some cnt \<or> (\<not> (ok \<and> r) \<and> \<not> ci) \<or> rs = []")
    case True
    then show ?thesis
    proof (elim disjE)
      assume "t = Some cnt"
      then show ?thesis by - (rule exI [of _ ok], rule exI [of _ True], rule exI [of _ cnt], rule exI [of _ 0], simp)
    next
      assume a: "\<not> (ok \<and> r) \<and> \<not> ci"
      show ?thesis
      proof (cases "t = Some cnt")
        case True
        then show ?thesis by - (rule exI [of _ ok], rule exI [of _ True], rule exI [of _ cnt], rule exI [of _ 0], simp)
      next
        case False
        then show ?thesis
          using a by - (rule exI [of _ False], rule exI [of _ False], rule exI [of _ "cnt + 1"], rule exI [of _ 1], auto simp: Let_def)
      qed
    next
      assume a: "rs = []"
      show ?thesis
      proof (cases "t = Some cnt")
        case True
        then show ?thesis by - (rule exI [of _ ok], rule exI [of _ True], rule exI [of _ cnt], rule exI [of _ 0], simp)
      next
        case False
        then show ?thesis
          using a Cons.prems(1)
          by - (rule exI [of _ "ok \<and> r"], rule exI [of _ False], rule exI [of _ "cnt + 1"], rule exI [of _ 1], auto simp: Let_def)
      qed
    qed
  next
    case False
    then have "\<exists>ok' to c m. collect ci n t (cnt + 1) (ok \<and> r) rs = Some (ok', to, c) \<and> m \<le> length rs \<and>
      (\<forall>T. t = Some T \<longrightarrow> cnt + 1 \<le> T \<longrightarrow> cnt + 1 + m \<le> T) \<and> (ok' \<longleftrightarrow> (ok \<and> r) \<and> (\<forall>r \<in> set (take m rs). r)) \<and>
      (to \<longrightarrow> t \<noteq> None) \<and> (\<not> to \<longrightarrow> m = length rs \<or> \<not> ok')"
      using Cons.prems by (intro Cons.IH) auto
    then obtain ok' to c m where i: "collect ci n t (cnt + 1) (ok \<and> r) rs = Some (ok', to, c)" "m \<le> length rs"
      "\<forall>T. t = Some T \<longrightarrow> cnt + 1 \<le> T \<longrightarrow> cnt + 1 + m \<le> T" "ok' \<longleftrightarrow> (ok \<and> r) \<and> (\<forall>r \<in> set (take m rs). r)"
      "to \<longrightarrow> t \<noteq> None" "\<not> to \<longrightarrow> m = length rs \<or> \<not> ok'" by blast
    have tl: "cnt + Suc m \<le> T" if "t = Some T" "cnt \<le> T" for T
    proof -
      have "cnt \<noteq> T" using False that(1) by auto
      then show ?thesis using i(3) that by auto
    qed
    have "collect ci n t cnt ok (r # rs) = Some (ok', to, c)"
      using False i(1) Cons.prems(1) by (auto simp: Let_def)
    then show ?thesis using i(2,4,5,6) tl
      by - (rule exI [of _ ok'], rule exI [of _ to], rule exI [of _ c], rule exI [of _ "Suc m"], auto simp: Let_def)
  qed
qed simp

lemma collect_all:
  assumes "length rs = n" "rs \<noteq> []"
  shows "\<exists>ok to c m. collect ci n t 0 True rs = Some (ok, to, c) \<and> m \<le> length rs \<and>
    (\<forall>T. t = Some T \<longrightarrow> m \<le> T) \<and> (ok \<longleftrightarrow> (\<forall>r \<in> set (take m rs). r)) \<and>
    (to \<longrightarrow> t \<noteq> None) \<and> (\<not> to \<longrightarrow> m = length rs \<or> \<not> ok)"
  using collect_ok [of 0 rs n True ci t] assms by simp

section \<open>Checking all partitions\<close>

text \<open>
  The executions that can happen: every goroutine's result arrives once; a goroutine reads the kill flag as set only
  after a result was received that is false (when no information is collected) or after the timeout.
\<close>

definition causal :: "('s, 'v) env \<Rightarrow> ('s, 'v) Model \<Rightarrow> 'v entry list list \<Rightarrow> bool \<Rightarrow> bool" where
  "causal E M hist ci \<longleftrightarrow>
     distinct (arrival E) \<and> set (arrival E) = {..<length hist} \<and>
     (\<forall>p < length hist. (\<exists>k. kills E (arrival E ! p) k) \<longrightarrow>
        (\<not> ci \<and> (\<exists>q < p. \<exists>l. checkSingle M (hist ! (arrival E ! q)) ci (kills E (arrival E ! q)) = Some (Inr (False, l)))) \<or>
        (\<exists>T \<le> p. timeout_at E = Some T))"

lemma gather_ok:
  assumes "\<And>i. i \<in> set ks \<Longrightarrow> run i = Some (Inr (f i))"
  shows "gather run ks = Some (Inr (map f ks))"
  using assms by (induction ks) auto

text \<open>The first false result that is received comes from a goroutine that was not killed.\<close>

lemma first_false:
  fixes rs :: "bool list"
  assumes "\<not> (\<forall>r \<in> set (take m rs). r)"
  shows "\<exists>p < m. p < length rs \<and> \<not> rs ! p \<and> (\<forall>q < p. rs ! q)"
proof -
  obtain q where q: "q < m" "q < length rs" "\<not> rs ! q" using assms by (auto simp: in_set_conv_nth)
  define p where "p = (LEAST q. q < length rs \<and> \<not> rs ! q)"
  have "p < length rs \<and> \<not> rs ! p" unfolding p_def by (rule LeastI [of _ q]) (use q in blast)
  moreover have "p \<le> q" unfolding p_def by (rule Least_le) (use q in blast)
  moreover have "rs ! q'" if "q' < p" for q'
    using not_less_Least [of q' "\<lambda>q. q < length rs \<and> \<not> rs ! q"] that calculation(1) unfolding p_def by auto
  ultimately show ?thesis using q(1) by (intro exI [of _ p]) auto
qed

lemma checkParallel_ok:
  assumes ch: "\<And>h. h \<in> set hist \<Longrightarrow> checkable M h" and ne: "hist \<noteq> []" and ca: "causal E M hist ci"
  shows "\<exists>res info. checkParallel (kills E) (arrival E) (timeout_at E) (order E) M hist ci = Some (Inr (res, info)) \<and>
    (res = Ok \<longrightarrow> (\<forall>h \<in> set hist. linearizable M h)) \<and>
    (res = Illegal \<longrightarrow> (\<exists>h \<in> set hist. \<not> linearizable M h)) \<and> (timeout_at E = None \<longrightarrow> res \<noteq> Unknown) \<and>
    (ci \<longrightarrow> history info = hist \<and> (\<exists>ls. length ls = length hist \<and>
       (\<forall>i < length hist. longest_ok M (hist ! i) (ls ! i)) \<and>
       partialLinearizations info = map (unique_partials (order E)) ls))"
proof -
  let ?n = "length hist" and ?A = "arrival E" and ?t = "timeout_at E"
  let ?run = "\<lambda>i. checkSingle M (hist ! i) ci (kills E i)"
  define f where "f i = (case ?run i of Some (Inr x) \<Rightarrow> x | _ \<Rightarrow> (False, []))" for i
  have one: "?run i = Some (Inr (f i)) \<and> (fst (f i) \<longrightarrow> linearizable M (hist ! i)) \<and>
      (\<not> fst (f i) \<longrightarrow> (\<exists>k. kills E i k) \<or> \<not> linearizable M (hist ! i)) \<and> longest_ok M (hist ! i) (snd (f i))"
    if "i < ?n" for i
  proof -
    have "checkable M (hist ! i)" by (rule ch [OF nth_mem [OF that]])
    from checkSingle_ok [OF this, of ci "kills E i"]
    obtain r l where r: "?run i = Some (Inr (r, l))" "r \<longrightarrow> linearizable M (hist ! i)"
      "\<not> r \<longrightarrow> (\<exists>k. kills E i k) \<or> \<not> linearizable M (hist ! i)" "longest_ok M (hist ! i) l"
      by blast
    have "f i = (r, l)" by (simp add: f_def r(1))
    then show ?thesis using r by (simp only: fst_conv snd_conv)
  qed
  have A: "distinct ?A" "set ?A = {..<?n}" using ca by (simp_all add: causal_def)
  then have lA: "length ?A = ?n" using distinct_card [OF A(1)] by simp
  have An: "?A ! p < ?n" if "p < ?n" for p using nth_mem [of p ?A] that A(2) lA by auto
  have g: "gather ?run ?A = Some (Inr (map f ?A))" "gather ?run [0..<?n] = Some (Inr (map f [0..<?n]))"
    by (rule gather_ok, use one A(2) in simp)+
  let ?rs = "map fst (map f ?A)"
  have rs: "0 + length ?rs = ?n" "?rs \<noteq> []" using lA ne by auto
  from collect_all [OF rs(1) [unfolded add_0] rs(2), of ci ?t]
  obtain ok to c m where cl: "collect ci ?n ?t 0 True ?rs = Some (ok, to, c)" "m \<le> length ?rs"
    "\<forall>T. ?t = Some T \<longrightarrow> m \<le> T" "ok \<longleftrightarrow> (\<forall>r \<in> set (take m ?rs). r)" "to \<longrightarrow> ?t \<noteq> None" "\<not> to \<longrightarrow> m = length ?rs \<or> \<not> ok"
    by (elim exE conjE) (rule that)
  have bad: "\<exists>h \<in> set hist. \<not> linearizable M h" if nok: "\<not> ok"
  proof -
    have "\<not> (\<forall>r \<in> set (take m ?rs). r)" using nok unfolding cl(4) .
    from first_false [OF this] obtain p where p0: "p < m" "p < length ?rs" "\<not> ?rs ! p" "\<forall>q < p. ?rs ! q"
      by (elim exE conjE)
    have p: "p < m" "p < ?n" "\<not> fst (f (?A ! p))" using p0(1-3) lA by simp_all
    have earlier: "fst (f (?A ! q))" if "q < p" for q using p0(4) that p(2) lA by simp
    have "\<not> (\<exists>k. kills E (?A ! p) k)"
    proof
      assume "\<exists>k. kills E (?A ! p) k"
      then consider q l where "q < p" "?run (?A ! q) = Some (Inr (False, l))" | T where "T \<le> p" "?t = Some T"
        using ca p(2) unfolding causal_def by blast
      then show False
      proof cases
        case (1 q l)
        then have "f (?A ! q) = (False, l)" by (simp add: f_def)
        then show ?thesis using earlier [OF 1(1)] by simp
      next
        case (2 T)
        then show ?thesis using cl(3) p(1) by auto
      qed
    qed
    then have "\<not> linearizable M (hist ! (?A ! p))" using one [OF An [OF p(2)]] p(3) by blast
    then show ?thesis using An [OF p(2)] by (meson nth_mem)
  qed
  have good: "\<forall>h \<in> set hist. linearizable M h" if "ok" "\<not> to"
  proof
    fix h assume "h \<in> set hist"
    then obtain i where i: "i < ?n" "h = hist ! i" by (auto simp: in_set_conv_nth)
    have "m = length ?rs" using cl(6) that by blast
    then have "\<forall>r \<in> set ?rs. r" using cl(4) that(1) by simp
    then have "fst (f i)" using i(1) A(2) by auto
    then show "linearizable M h" using one [OF i(1)] i(2) by blast
  qed
  define res where "res = (if \<not> ok then Illegal else if to then Unknown else Ok)"
  have res: "(res = Ok \<longrightarrow> (\<forall>h \<in> set hist. linearizable M h)) \<and>
    (res = Illegal \<longrightarrow> (\<exists>h \<in> set hist. \<not> linearizable M h)) \<and> (?t = None \<longrightarrow> res \<noteq> Unknown)"
    using bad good cl(5) by (cases ok; cases to) (simp_all add: res_def)
  show ?thesis
  proof (cases ci)
    case False
    then have "checkParallel (kills E) ?A ?t (order E) M hist ci =
        Some (Inr (res, \<lparr>history = [], partialLinearizations = []\<rparr>))"
      using g cl(1) by (simp add: checkParallel_def Let_def res_def)
    then show ?thesis
      using res False by (intro exI [of _ res] exI [of _ "\<lparr>history = [], partialLinearizations = []\<rparr>"]) simp
  next
    case True
    let ?ls = "map (\<lambda>i. snd (f i)) [0..<?n]"
    have "checkParallel (kills E) ?A ?t (order E) M hist ci =
        Some (Inr (res, \<lparr>history = hist, partialLinearizations = map (unique_partials (order E)) ?ls\<rparr>))"
      using g cl(1) True by (simp add: checkParallel_def Let_def o_def res_def)
    moreover have "length ?ls = ?n \<and> (\<forall>i < ?n. longest_ok M (hist ! i) (?ls ! i))" using one by simp
    moreover define I where "I = \<lparr>history = hist, partialLinearizations = map (unique_partials (order E)) ?ls\<rparr>"
    moreover have "history I = hist \<and> (\<exists>ls. length ls = ?n \<and> (\<forall>i < ?n. longest_ok M (hist ! i) (ls ! i)) \<and>
        partialLinearizations I = map (unique_partials (order E)) ls)"
      using calculation(2) by (intro conjI exI [of _ ?ls]) (simp_all add: I_def)
    ultimately show ?thesis using res by (intro exI [of _ res] exI [of _ I]) simp
  qed
qed

lemma checkParallel_verdict:
  assumes "\<forall>h \<in> set hist. checkable M h" "hist \<noteq> []" "causal E M hist ci"
  shows "\<exists>res info. checkParallel (kills E) (arrival E) (timeout_at E) (order E) M hist ci = Some (Inr (res, info)) \<and>
    (res = Ok \<longrightarrow> (\<forall>h \<in> set hist. linearizable M h)) \<and>
    (res = Illegal \<longrightarrow> (\<exists>h \<in> set hist. \<not> linearizable M h)) \<and> (timeout_at E = None \<longrightarrow> res \<noteq> Unknown)"
proof -
  have "\<And>h. h \<in> set hist \<Longrightarrow> checkable M h" using assms(1) by blast
  then have "\<exists>res info. checkParallel (kills E) (arrival E) (timeout_at E) (order E) M hist ci = Some (Inr (res, info)) \<and>
    (res = Ok \<longrightarrow> (\<forall>h \<in> set hist. linearizable M h)) \<and>
    (res = Illegal \<longrightarrow> (\<exists>h \<in> set hist. \<not> linearizable M h)) \<and> (timeout_at E = None \<longrightarrow> res \<noteq> Unknown) \<and>
    (ci \<longrightarrow> history info = hist \<and> (\<exists>ls. length ls = length hist \<and>
       (\<forall>i < length hist. longest_ok M (hist ! i) (ls ! i)) \<and>
       partialLinearizations info = map (unique_partials (order E)) ls))"
    by (rule checkParallel_ok [OF _ assms(2,3)])
  then show ?thesis by (elim exE conjE) (intro exI conjI)
qed

section \<open>Histories made from operations\<close>

definition tag :: "'v entry \<Rightarrow> entryKind \<times> int" where
  "tag e = (kind e, eid e)"

lemma op_entries_tags:
  "length (op_entries i ops) = 2 * length ops"
  "distinct (map tag (op_entries i ops))"
  "set (map tag (op_entries i ops)) = {callEntry, returnEntry} \<times> {i..<i + int (length ops)}"
proof (induction ops arbitrary: i)
  case (Cons x ops)
  { case 1 show ?case using Cons.IH(1) by simp
  next
    case 2
    have "(k, i) \<notin> set (map tag (op_entries (i + 1) ops))" for k unfolding Cons.IH(3) by simp
    then show ?case using Cons.IH(2) [of "i + 1"] by (simp add: tag_def)
  next
    case 3
    have "{i..<i + int (length (x # ops))} = insert i {i + 1..<i + 1 + int (length ops)}" by auto
    then show ?case using Cons.IH(3) [of "i + 1"] by (auto simp: tag_def) }
qed auto

definition of_op :: "'v entry \<Rightarrow> 'v Operation \<Rightarrow> bool" where
  "of_op e op \<longleftrightarrow> (if kind e = callEntry then evalue e = Input op \<and> etime e = Call op
     else evalue e = Output op \<and> etime e = Return op)"

lemma op_entries_nth:
  "e \<in> set (op_entries i ops) \<Longrightarrow> \<exists>k < length ops. eid e = i + int k \<and> of_op e (ops ! k)"
proof (induction ops arbitrary: i)
  case (Cons x ops)
  show ?case
  proof (cases "e \<in> set (op_entries (i + 1) ops)")
    case True
    from Cons.IH [OF this] obtain k where k: "k < length ops" "eid e = i + 1 + int k" "of_op e (ops ! k)" by blast
    show ?thesis by (rule exI [of _ "Suc k"]) (use k in simp)
  next
    case False
    with Cons.prems show ?thesis by (intro exI [of _ 0]) (auto simp: of_op_def)
  qed
qed simp

lemma makeEntries_wf:
  assumes "sorts_byTime srt" "\<forall>op \<in> set ops. Call op \<le> Return op"
  shows "wf_history (makeEntries srt ops)" "num_ops (makeEntries srt ops) = length ops"
    "set (makeEntries srt ops) = set (op_entries 0 ops)"
proof -
  let ?H = "makeEntries srt ops"
  have m: "mset ?H = mset (op_entries 0 ops)" and s: "sorted_wrt (\<lambda>a b. \<not> byTime_Less b a) ?H"
    using assms(1) unfolding sorts_byTime_def makeEntries_def by blast+
  show st: "set ?H = set (op_entries 0 ops)" using m by (rule mset_eq_setD)
  have l: "length ?H = 2 * length ops" using mset_eq_length [OF m] by (simp add: op_entries_tags(1))
  then show n: "num_ops ?H = length ops" by (simp add: num_ops_def)
  have "mset (map tag ?H) = mset (map tag (op_entries 0 ops))" using m by simp
  then have d: "distinct (map tag ?H)" using op_entries_tags(2) mset_eq_imp_distinct_iff by blast
  have "int ` {..<length ops} = {0..<int (length ops)}"
    by (simp add: lessThan_atLeast0 image_int_atLeastLessThan)
  then have t: "set (map tag ?H) = {callEntry, returnEntry} \<times> int ` {..<num_ops ?H}"
    using op_entries_tags(3) [of 0 ops] st n by simp
  have "i < j" if h: "i < length ?H" "j < length ?H" "kind (?H ! i) = callEntry" "kind (?H ! j) = returnEntry"
    "eid (?H ! i) = eid (?H ! j)" for i j
  proof (rule ccontr)
    assume "\<not> i < j"
    moreover have "i \<noteq> j" using h(3,4) by auto
    ultimately have "\<not> byTime_Less (?H ! i) (?H ! j)" using s h(1) by (simp add: sorted_wrt_iff_nth_less)
    moreover obtain k where k: "k < length ops" "eid (?H ! i) = int k" "etime (?H ! i) = Call (ops ! k)"
      using op_entries_nth [of "?H ! i" 0 ops] nth_mem [OF h(1)] st h(3) by (auto simp: of_op_def)
    moreover obtain k' where k': "k' < length ops" "eid (?H ! j) = int k'" "etime (?H ! j) = Return (ops ! k')"
      using op_entries_nth [of "?H ! j" 0 ops] nth_mem [OF h(2)] st h(4) by (auto simp: of_op_def)
    moreover have "k' = k" using k(2) k'(2) h(5) by simp
    moreover have "Call (ops ! k) \<le> Return (ops ! k)" using assms(2) k(1) by simp
    ultimately show False using h(3,4) by (auto simp: byTime_Less_def split: if_splits)
  qed
  with d t show "wf_history ?H" unfolding wf_history_def tag_def [abs_def] by blast
qed

section \<open>The key/value model\<close>

definition kv_key :: "kv_value Operation \<Rightarrow> string" where
  "kv_key op = (case Input op of KvIn i \<Rightarrow> i_Key i | KvOut _ \<Rightarrow> [])"

definition kv_op :: "kv_value Operation \<Rightarrow> bool" where
  "kv_op op \<longleftrightarrow> (\<exists>i. Input op = KvIn i) \<and> (\<exists>x. Output op = KvOut x) \<and> Call op \<le> Return op"

definition kv_keys :: "kv_value Operation list \<Rightarrow> string list" where
  "kv_keys ops = sorted_list_of_set (kv_key ` set ops)"

text \<open>The map of \<^verbatim>\<open>Partition\<close> after some operations.\<close>

definition kv_map_ok :: "kv_value Operation list \<Rightarrow> (string \<times> kv_value Operation list) list \<Rightarrow> bool" where
  "kv_map_ok ops m \<longleftrightarrow> distinct (map fst m) \<and> set (map fst m) = kv_key ` set ops \<and>
     (\<forall>k. map_of m k = (if k \<in> kv_key ` set ops then Some (filter (\<lambda>op. kv_key op = k) ops) else None))"

lemma kv_add_ok:
  assumes "kv_map_ok ops m" "Input op = KvIn i"
  shows "\<exists>m'. kv_add m op = Inr m' \<and> kv_map_ok (ops @ [op]) m'"
proof -
  have k: "kv_key op = i_Key i" using assms(2) by (simp add: kv_key_def)
  have old: "(case map_of m (i_Key i) of None \<Rightarrow> [] | Some os \<Rightarrow> os) = filter (\<lambda>x. kv_key x = i_Key i) ops"
  proof (cases "i_Key i \<in> kv_key ` set ops")
    case False
    then have "filter (\<lambda>x. kv_key x = i_Key i) ops = []" unfolding filter_empty_conv by (metis imageI)
    then show ?thesis using False assms(1) by (simp add: kv_map_ok_def)
  qed (use assms(1) in \<open>simp add: kv_map_ok_def\<close>)
  let ?m = "AList.update (i_Key i) (filter (\<lambda>x. kv_key x = i_Key i) ops @ [op]) m"
  have "kv_add m op = Inr ?m" by (simp add: kv_add_def assms(2) old)
  moreover have "kv_map_ok (ops @ [op]) ?m"
    unfolding kv_map_ok_def
  proof (intro conjI allI)
    show "distinct (map fst ?m)" using assms(1) by (simp add: kv_map_ok_def distinct_update)
    show "set (map fst ?m) = kv_key ` set (ops @ [op])"
      using assms(1) k by (simp add: kv_map_ok_def dom_update)
    fix q
    show "map_of ?m q = (if q \<in> kv_key ` set (ops @ [op]) then Some (filter (\<lambda>x. kv_key x = q) (ops @ [op])) else None)"
      using assms(1) k by (simp add: update_conv kv_map_ok_def)
  qed
  ultimately show ?thesis by blast
qed

lemma kv_fold_ok:
  assumes "\<forall>op \<in> set ops. \<exists>i. Input op = KvIn i"
  shows "\<exists>m. foldR kv_add [] ops = Inr m \<and> kv_map_ok ops m"
  using assms
proof (induction ops rule: rev_induct)
  case Nil
  show ?case by (simp add: kv_map_ok_def)
next
  case (snoc op ops)
  then obtain m where m: "foldR kv_add [] ops = Inr m" "kv_map_ok ops m" by auto
  obtain i where "Input op = KvIn i" using snoc.prems by auto
  from kv_add_ok [OF m(2) this] m(1) show ?case by (auto simp: foldR_append)
qed

lemma kv_Partition_ok:
  assumes "\<forall>op \<in> set ops. \<exists>i. Input op = KvIn i"
  shows "kv_Partition ops = Inr (map (\<lambda>k. filter (\<lambda>op. kv_key op = k) ops) (kv_keys ops))"
proof -
  obtain m where m: "foldR kv_add [] ops = Inr m" "kv_map_ok ops m" using kv_fold_ok [OF assms] by blast
  have "sort (map fst m) = kv_keys ops"
  proof -
    have "distinct (map fst m)" "kv_key ` set ops = set (map fst m)" using m(2) by (simp_all add: kv_map_ok_def)
    then show ?thesis unfolding kv_keys_def by (simp only: sorted_list_of_set_sort_remdups distinct_remdups_id)
  qed
  moreover have "map (\<lambda>k. case map_of m k of None \<Rightarrow> [] | Some os \<Rightarrow> os) (kv_keys ops) =
      map (\<lambda>k. filter (\<lambda>op. kv_key op = k) ops) (kv_keys ops)"
    using m(2) by (intro map_cong refl) (simp add: kv_map_ok_def kv_keys_def)
  ultimately show ?thesis by (simp add: kv_Partition_def m(1))
qed

definition kv_filled :: "(kv_value \<Rightarrow> kv_value \<Rightarrow> string) \<Rightarrow> (string \<Rightarrow> string) \<Rightarrow> (string, kv_value) Model" where
  "kv_filled so sp = fillDefault so sp KvModel"

lemma kv_filled_simps [simp]:
  "Partition (kv_filled so sp) = Some kv_Partition" "Init (kv_filled so sp) = []" "Step (kv_filled so sp) = kv_Step"
  "Equal (kv_filled so sp) = Some ShallowEqual" "PartitionEvent (kv_filled so sp) = Some NoPartitionEvent"
  by (simp_all add: kv_filled_def fillDefault_def KvModel_def kv_Init_def Let_def)

lemma kv_checkable:
  assumes "sorts_byTime srt" "\<forall>op \<in> set ops. kv_op op"
  shows "checkable (kv_filled so sp) (makeEntries srt ops)"
proof -
  let ?H = "makeEntries srt ops"
  note w = makeEntries_wf [OF assms(1), of ops]
  have wf: "wf_history ?H" "num_ops ?H = length ops" "set ?H = set (op_entries 0 ops)"
    using w assms(2) by (simp_all add: kv_op_def)
  have val: "\<exists>op \<in> set ops. of_op (?H ! pos ?H k i) op" if "i < num_ops ?H" for k i
    using op_entries_nth [of "?H ! pos ?H k i" 0 ops] nth_mem [OF wf_pos(1) [OF wf(1) that]] wf(3) by auto
  have "returns (kv_Step s (evalue (?H ! cpos ?H i)) (evalue (?H ! rpos ?H i)))" if i: "i < num_ops ?H" for s i
  proof -
    obtain a where a: "a \<in> set ops" "evalue (?H ! cpos ?H i) = Input a"
      using val [OF i, of callEntry] wf_pos(2) [OF wf(1) i, of callEntry] by (auto simp: of_op_def)
    obtain b where b: "b \<in> set ops" "evalue (?H ! rpos ?H i) = Output b"
      using val [OF i, of returnEntry] wf_pos(2) [OF wf(1) i, of returnEntry] by (auto simp: of_op_def)
    have "\<exists>x y. Input a = KvIn x \<and> Output b = KvOut y" using a(1) b(1) assms(2) unfolding kv_op_def by blast
    then obtain x y where "evalue (?H ! cpos ?H i) = KvIn x" "evalue (?H ! rpos ?H i) = KvOut y" using a(2) b(2) by auto
    then show ?thesis by (simp add: kv_Step_def)
  qed
  moreover have "respects_equal (kv_filled so sp) ShallowEqual"
    using respects_equal_eq [of "kv_filled so sp"] by (simp add: ShallowEqual_def [abs_def])
  ultimately show ?thesis using wf(1) by (simp add: checkable_def)
qed

section \<open>The results\<close>

text \<open>Linearizability depends on the initial state and the steps only.\<close>

lemma legal_cong: "Step M = Step N \<Longrightarrow> legal M H s is = legal N H s is"
  by (induction "is" arbitrary: s) (simp_all add: stepf_def)

lemma linearizable_cong: "Step M = Step N \<Longrightarrow> Init M = Init N \<Longrightarrow> linearizable M H = linearizable N H"
  unfolding linearizable_def using legal_cong [of M N H "Init N"] by simp

definition kv_part :: "(kv_value entry list \<Rightarrow> kv_value entry list) \<Rightarrow> kv_value Operation list \<Rightarrow> string \<Rightarrow> kv_value entry list" where
  "kv_part srt ops k = makeEntries srt (filter (\<lambda>op. kv_key op = k) ops)"

text \<open>
  C15. The verdict on a partitioned history is sound for every arrival order of the goroutines' results, for every moment at
  which a goroutine sees the kill flag, and with or without a timeout: \<^verbatim>\<open>Ok\<close> is only returned when all partitions are
  linearizable, \<^verbatim>\<open>Illegal\<close> only when one is not, and without a timeout the verdict is one of these two.
\<close>

theorem checkParallel_sound:
  assumes "\<forall>h \<in> set hist. checkable M h" "hist \<noteq> []" "causal E M hist ci"
  shows "\<exists>res info. checkParallel (kills E) (arrival E) (timeout_at E) (order E) M hist ci = Some (Inr (res, info)) \<and>
    (res = Ok \<longrightarrow> (\<forall>h \<in> set hist. linearizable M h)) \<and>
    (res = Illegal \<longrightarrow> (\<exists>h \<in> set hist. \<not> linearizable M h)) \<and> (timeout_at E = None \<longrightarrow> res \<noteq> Unknown)"
  using assms by (rule checkParallel_verdict)

definition quiet_env :: "nat \<Rightarrow> ('s, 'v) env" where
  "quiet_env n = \<lparr>kills = (\<lambda>_ _. False), arrival = rev [0..<n], timeout_at = None, order = (\<lambda>l. l),
     sort_entries = sort_key (\<lambda>e. 2 * etime e + (if kind e = returnEntry then 1 else 0)),
     sprintOp = (\<lambda>_ _. []), sprint = (\<lambda>_. [])\<rparr>"

lemma quiet_causal: "length hist = n \<Longrightarrow> causal (quiet_env n) M hist ci"
  by (auto simp: causal_def quiet_env_def)

lemma quiet_sorts: "sorts_byTime (sort_entries (quiet_env n))"
proof -
  have "\<not> byTime_Less b a" if "2 * etime a + (if kind a = returnEntry then 1 else 0) \<le> 2 * etime b + (if kind b = returnEntry then 1 else 0)"
    for a b :: "'v entry"
    using that by (auto simp: byTime_Less_def split: if_splits)
  then show ?thesis
    unfolding sorts_byTime_def quiet_env_def
    by (auto intro: sorted_wrt_mono_rel [OF _ sorted_sort_key [unfolded sorted_map]])
qed

theorem checkParallel_sound_witness:
  "\<exists>res info. checkParallel (\<lambda>_ _. False) [1, 0] None (\<lambda>l. l) counter_model [two_adds 0 1, two_adds 1 0] False = Some (Inr (res, info)) \<and>
    (res = Ok \<longrightarrow> (\<forall>h \<in> set [two_adds 0 1, two_adds 1 0]. linearizable counter_model h)) \<and>
    (res = Illegal \<longrightarrow> (\<exists>h \<in> set [two_adds 0 1, two_adds 1 0]. \<not> linearizable counter_model h)) \<and> res \<noteq> Unknown"
  using checkParallel_sound [of "[two_adds 0 1, two_adds 1 0]" counter_model "quiet_env 2" False]
    quiet_causal [of "[two_adds 0 1, two_adds 1 0]" 2 counter_model False]
  by (simp add: two_adds_checkable quiet_env_def numeral_2_eq_2)

text \<open>The verdict on a history of key/value operations, with or without a timeout and the information for the visualization.\<close>

lemma checkOperations_kv:
  assumes "ops \<noteq> []" "\<forall>op \<in> set ops. kv_op op" "sorts_byTime (sort_entries E)"
    "causal E (fillDefault (sprintOp E) (sprint E) KvModel) (map (kv_part (sort_entries E) ops) (kv_keys ops)) verbose"
  shows "\<exists>res info. checkOperations E KvModel ops verbose = Some (Inr (res, info)) \<and>
    (res = Ok \<longrightarrow> (\<forall>k \<in> set (kv_keys ops). linearizable KvModel (kv_part (sort_entries E) ops k))) \<and>
    (res = Illegal \<longrightarrow> \<not> (\<forall>k \<in> set (kv_keys ops). linearizable KvModel (kv_part (sort_entries E) ops k))) \<and>
    (timeout_at E = None \<longrightarrow> res \<noteq> Unknown)"
proof -
  let ?M = "kv_filled (sprintOp E) (sprint E)"
  let ?hist = "map (kv_part (sort_entries E) ops) (kv_keys ops)"
  have part: "kv_Partition ops = Inr (map (\<lambda>k. filter (\<lambda>op. kv_key op = k) ops) (kv_keys ops))"
    using assms(2) by (intro kv_Partition_ok) (auto simp: kv_op_def)
  have c1: "\<forall>h \<in> set ?hist. checkable ?M h"
    using kv_checkable [OF assms(3)] assms(2) by (simp add: kv_part_def)
  have c2: "?hist \<noteq> []" using assms(1) by (simp add: kv_keys_def)
  have c3: "causal E ?M ?hist verbose" using assms(4) by (simp add: kv_filled_def)
  from checkParallel_verdict [OF c1 c2 c3] obtain res info where
    r: "checkParallel (kills E) (arrival E) (timeout_at E) (order E) ?M ?hist verbose = Some (Inr (res, info))"
    "res = Ok \<longrightarrow> (\<forall>h \<in> set ?hist. linearizable ?M h)" "res = Illegal \<longrightarrow> (\<exists>h \<in> set ?hist. \<not> linearizable ?M h)"
    "timeout_at E = None \<longrightarrow> res \<noteq> Unknown"
    by (elim exE conjE)
  have "checkOperations E KvModel ops verbose = Some (Inr (res, info))"
    using r(1) part by (simp add: checkOperations_def Let_def run_check_def kv_part_def [abs_def] o_def flip: kv_filled_def)
  moreover have "linearizable ?M h = linearizable KvModel h" for h
    by (rule linearizable_cong) (simp_all add: KvModel_def kv_Init_def)
  ultimately show ?thesis using r(2-4) by (intro exI [of _ res] exI [of _ info]) simp
qed

text \<open>
  C13. \<^verbatim>\<open>CheckOperations(KvModel, history)\<close>, as the tests of the key/value servers call it: for a non-empty history of key/value
  operations in which no operation returns before it is called, the check terminates without a panic and returns true
  exactly if the operations on every single key are linearizable.
\<close>

theorem CheckOperations_kv:
  assumes "ops \<noteq> []" "\<forall>op \<in> set ops. kv_op op" "sorts_byTime (sort_entries E)"
    "causal (E\<lparr>timeout_at := None\<rparr>) (fillDefault (sprintOp E) (sprint E) KvModel) (map (kv_part (sort_entries E) ops) (kv_keys ops)) False"
  shows "CheckOperations E KvModel ops =
    Some (Inr (\<forall>k \<in> set (kv_keys ops). linearizable KvModel (kv_part (sort_entries E) ops k)))"
proof -
  have e: "sort_entries (E\<lparr>timeout_at := None\<rparr>) = sort_entries E" "sprintOp (E\<lparr>timeout_at := None\<rparr>) = sprintOp E"
    "sprint (E\<lparr>timeout_at := None\<rparr>) = sprint E" "timeout_at (E\<lparr>timeout_at := None\<rparr>) = None" by simp_all
  from checkOperations_kv [OF assms(1,2), of "E\<lparr>timeout_at := None\<rparr>" False, unfolded e, OF assms(3,4)]
  obtain res info where r: "checkOperations (E\<lparr>timeout_at := None\<rparr>) KvModel ops False = Some (Inr (res, info))"
    "res = Ok \<longrightarrow> (\<forall>k \<in> set (kv_keys ops). linearizable KvModel (kv_part (sort_entries E) ops k))"
    "res = Illegal \<longrightarrow> \<not> (\<forall>k \<in> set (kv_keys ops). linearizable KvModel (kv_part (sort_entries E) ops k))" "res \<noteq> Unknown"
    by (simp only: simp_thms) (elim exE conjE)
  then have "res = Ok \<longleftrightarrow> (\<forall>k \<in> set (kv_keys ops). linearizable KvModel (kv_part (sort_entries E) ops k))"
    by (cases res) (simp_all only: CheckResult.distinct simp_thms)
  then show ?thesis using r(1) by (simp add: CheckOperations_def map_result_def)
qed

definition sample_ops :: "kv_value Operation list" where
  "sample_ops =
     [\<lparr>ClientId = 0, Input = KvIn \<lparr>Op = 1, i_Key = ''k'', i_Value = ''a''\<rparr>, Call = 0, Output = KvOut \<lparr>o_Value = ''''\<rparr>, Return = 1\<rparr>,
      \<lparr>ClientId = 1, Input = KvIn \<lparr>Op = 0, i_Key = ''k'', i_Value = ''''\<rparr>, Call = 2, Output = KvOut \<lparr>o_Value = ''a''\<rparr>, Return = 3\<rparr>]"

definition kv_env :: "nat \<Rightarrow> (string, kv_value) env" where
  "kv_env n = quiet_env n"

theorem CheckOperations_kv_witness:
  "CheckOperations (kv_env 1) KvModel sample_ops =
     Some (Inr (\<forall>k \<in> {''k''}. linearizable KvModel (kv_part (sort_entries (kv_env 1)) sample_ops k)))"
proof -
  have "kv_key ` set sample_ops = {''k''}" by (simp add: sample_ops_def kv_key_def)
  then have k: "kv_keys sample_ops = [''k'']" by (simp add: kv_keys_def)
  have "CheckOperations (kv_env 1) KvModel sample_ops =
      Some (Inr (\<forall>k \<in> set (kv_keys sample_ops). linearizable KvModel (kv_part (sort_entries (kv_env 1)) sample_ops k)))"
  proof (rule CheckOperations_kv)
    show "sample_ops \<noteq> []" "\<forall>op \<in> set sample_ops. kv_op op" by (simp_all add: sample_ops_def kv_op_def)
    show "sorts_byTime (sort_entries (kv_env 1))" unfolding kv_env_def by (rule quiet_sorts)
    show "causal ((kv_env 1)\<lparr>timeout_at := None\<rparr>) (fillDefault (sprintOp (kv_env 1)) (sprint (kv_env 1)) KvModel)
        (map (kv_part (sort_entries (kv_env 1)) sample_ops) (kv_keys sample_ops)) False"
      by (simp add: causal_def kv_env_def quiet_env_def k lessThan_Suc)
  qed
  then show ?thesis by (simp add: k)
qed

text \<open>
  The check of an empty history never returns: the key/value model makes no partition of it, and the select loop then
  waits for a result that nobody sends.
\<close>

lemma CheckOperations_empty_blocks:
  assumes "arrival E = []"
  shows "CheckOperations E KvModel [] = None"
  using assms
  by (simp add: CheckOperations_def checkOperations_def run_check_def fillDefault_def KvModel_def kv_Partition_def
      checkParallel_def map_result_def Let_def)

section \<open>Renumbering of events\<close>

text \<open>What \<open>renumber_from m i\<close> does when \<open>m\<close> maps the ids seen so far to the numbers below \<open>i\<close>.\<close>

lemma renumber_from_ok:
  assumes "finite (dom m)" "inj_on m (dom m)" "ran m = {0..<i}" "0 \<le> i"
  shows "\<exists>f. inj_on f (dom m \<union> Id ` set evs) \<and> (\<forall>x \<in> dom m. m x = Some (f x)) \<and>
    f ` (dom m \<union> Id ` set evs) = {0..<int (card (dom m \<union> Id ` set evs))} \<and>
    renumber_from m i evs = map (\<lambda>v. v\<lparr>Id := f (Id v)\<rparr>) evs"
  using assms
proof (induction evs arbitrary: m i)
  case Nil
  let ?f = "\<lambda>x. the (m x)"
  have inj: "inj_on ?f (dom m)" using Nil.prems(2) by (auto simp: inj_on_def dom_def)
  have "x \<in> ?f ` dom m" if "m a = Some x" for a x using that by (intro image_eqI [of _ _ a]) (auto simp: dom_def)
  then have img: "?f ` dom m = ran m" by (auto simp: ran_def dom_def)
  have "card (dom m) = card (ran m)" using card_image [OF inj] img by simp
  then have "int (card (dom m)) = i" using Nil.prems(3,4) by simp
  then show ?case using inj img Nil.prems(3) by (intro exI [of _ ?f]) (auto simp: dom_def)
next
  case (Cons v vs)
  show ?case
  proof (cases "m (Id v)")
    case (Some r)
    then have d: "dom m \<union> Id ` set (v # vs) = dom m \<union> Id ` set vs" by auto
    from Cons.IH [OF Cons.prems] obtain f where f: "inj_on f (dom m \<union> Id ` set vs)" "\<forall>x \<in> dom m. m x = Some (f x)"
      "f ` (dom m \<union> Id ` set vs) = {0..<int (card (dom m \<union> Id ` set vs))}"
      "renumber_from m i vs = map (\<lambda>v. v\<lparr>Id := f (Id v)\<rparr>) vs" by blast
    have "f (Id v) = r" using f(2) Some by (auto simp: dom_def)
    then show ?thesis unfolding d using f Some by (intro exI [of _ f]) simp
  next
    case None
    let ?m = "m(Id v \<mapsto> i)"
    have ni: "i \<notin> ran m" using Cons.prems(3) by simp
    have nd: "Id v \<notin> dom m" using None by (simp add: dom_def)
    have dm: "dom ?m = insert (Id v) (dom m)" by simp
    then have d: "dom m \<union> Id ` set (v # vs) = dom ?m \<union> Id ` set vs" by auto
    have inj: "inj_on ?m (dom ?m)"
      unfolding dm using Cons.prems(2) nd ni by (auto simp: inj_on_def ran_def dom_def)
    have rn: "ran ?m = {0..<i + 1}" using Cons.prems(3,4) None by (auto simp: ran_map_upd)
    have "\<exists>f. inj_on f (dom ?m \<union> Id ` set vs) \<and> (\<forall>x \<in> dom ?m. ?m x = Some (f x)) \<and>
      f ` (dom ?m \<union> Id ` set vs) = {0..<int (card (dom ?m \<union> Id ` set vs))} \<and>
      renumber_from ?m (i + 1) vs = map (\<lambda>v. v\<lparr>Id := f (Id v)\<rparr>) vs"
    proof (rule Cons.IH [OF _ inj rn])
      show "finite (dom ?m)" unfolding dm using Cons.prems(1) by (rule finite.insertI)
    qed (use Cons.prems(4) in simp)
    then obtain f where f: "inj_on f (dom ?m \<union> Id ` set vs)" "\<forall>x \<in> dom ?m. ?m x = Some (f x)"
      "f ` (dom ?m \<union> Id ` set vs) = {0..<int (card (dom ?m \<union> Id ` set vs))}"
      "renumber_from ?m (i + 1) vs = map (\<lambda>v. v\<lparr>Id := f (Id v)\<rparr>) vs" by blast
    have "f (Id v) = i" using f(2) by simp
    moreover have "\<forall>x \<in> dom m. m x = Some (f x)" using f(2) nd by (metis dm fun_upd_other insert_iff)
    ultimately show ?thesis unfolding d using f(1,3,4) None by (intro exI [of _ f]) simp
  qed
qed

text \<open>
  Renumbering: the ids become the numbers from 0 in a one-to-one way, so that the events of one operation keep a common
  id and different operations keep different ones, and nothing else of the events changes.
\<close>

lemma renumber_dense:
  "\<exists>f. inj_on f (Id ` set evs) \<and> f ` Id ` set evs = {0..<int (card (Id ` set evs))} \<and>
    renumber evs = map (\<lambda>v. v\<lparr>Id := f (Id v)\<rparr>) evs"
  using renumber_from_ok [of Map.empty 0 evs] by (simp add: renumber_def)

end
