(* ===== verification/Porc_Accept.thy ===== *)
theory Porc_Accept
  imports Porc_Top
begin

text \<open>
  When the checker accepts: a history of operations is linearizable as soon as every operation has a moment between its call
  and its return such that the model allows the operations in the order of these moments. Services are shown correct
  against the checker with this theory.
\<close>

section \<open>From an order of the operations to an order of the ids\<close>

lemma image_mset_indices:
  assumes "finite I" "mset ys = image_mset ((!) xs) (mset_set I)"
  shows "\<exists>sq. distinct sq \<and> set sq = I \<and> map ((!) xs) sq = ys"
  using assms
proof (induction ys arbitrary: I)
  case Nil
  then show ?case by (intro exI [of _ "[]"]) (auto simp: mset_set_empty_iff)
next
  case (Cons y ys)
  have "y \<in># image_mset ((!) xs) (mset_set I)" unfolding Cons.prems(2) [symmetric] by simp
  then obtain i where i: "i \<in> I" "y = xs ! i" using Cons.prems(1) by auto
  have "mset_set I = add_mset i (mset_set (I - {i}))" using Cons.prems(1) i(1) by (simp add: mset_set.remove)
  then have "mset ys = image_mset ((!) xs) (mset_set (I - {i}))" using Cons.prems(2) i(2) by simp
  from Cons.IH [OF _ this] Cons.prems(1) obtain sq where "distinct sq" "set sq = I - {i}" "map ((!) xs) sq = ys" by auto
  with i show ?case by (intro exI [of _ "i # sq"]) auto
qed

lemma mset_eq_indices:
  assumes "mset ys = mset xs"
  shows "\<exists>sq. distinct sq \<and> set sq = {..<length xs} \<and> map ((!) xs) sq = ys"
proof -
  have "mset xs = image_mset ((!) xs) (mset [0..<length xs])" by (metis map_nth mset_map)
  also have "\<dots> = image_mset ((!) xs) (mset_set {..<length xs})" by (simp add: atLeast0LessThan)
  finally show ?thesis using image_mset_indices [of "{..<length xs}" ys xs] assms by simp
qed

section \<open>The entries of an operation\<close>

lemma makeEntries_of_op:
  assumes "sorts_byTime srt" "\<forall>op \<in> set ops. Operation.Call op \<le> Return op" "i < length ops"
  shows "of_op (makeEntries srt ops ! pos (makeEntries srt ops) k i) (ops ! i)"
    "kind (makeEntries srt ops ! pos (makeEntries srt ops) k i) = k"
    "pos (makeEntries srt ops) k i < length (makeEntries srt ops)"
proof -
  let ?H = "makeEntries srt ops"
  note w = makeEntries_wf [OF assms(1,2)]
  note p = wf_pos [OF w(1), unfolded w(2), OF assms(3), of k]
  show "kind (?H ! pos ?H k i) = k" "pos ?H k i < length ?H" by (rule p)+
  from op_entries_nth [of "?H ! pos ?H k i" 0 ops] nth_mem [OF p(1)] p(3) w(3)
  show "of_op (?H ! pos ?H k i) (ops ! i)" by auto
qed

lemma rt_order_moments:
  assumes "sorts_byTime srt" "\<forall>op \<in> set ops. Operation.Call op \<le> Return op" "set sq \<subseteq> {..<length ops}"
    "sorted_wrt (\<lambda>i j. Operation.Call (ops ! i) \<le> Return (ops ! j)) sq"
  shows "rt_order (makeEntries srt ops) sq"
  unfolding rt_order_def
proof (rule sorted_wrt_mono_rel [OF _ assms(4)])
  let ?H = "makeEntries srt ops"
  fix i j assume ij: "i \<in> set sq" "j \<in> set sq" and le: "Operation.Call (ops ! i) \<le> Return (ops ! j)"
  have "i < length ops" "j < length ops" using assms(3) ij by auto
  note c = makeEntries_of_op [OF assms(1,2) this(1), of callEntry] and r = makeEntries_of_op [OF assms(1,2) this(2), of returnEntry]
  have less: "byTime_Less (?H ! cpos ?H i) (?H ! rpos ?H j)" using c(1,2) r(1,2) le by (auto simp: byTime_Less_def of_op_def)
  show "\<not> rpos ?H j < cpos ?H i"
  proof
    assume "rpos ?H j < cpos ?H i"
    moreover have "sorted_wrt (\<lambda>a b. \<not> byTime_Less b a) ?H" using assms(1) by (simp add: sorts_byTime_def makeEntries_def)
    ultimately show False using less c(3) by (simp add: sorted_wrt_iff_nth_less)
  qed
qed

section \<open>Runs of a model\<close>

fun model_run :: "('s, 'v) Model \<Rightarrow> 's \<Rightarrow> 'v Operation list \<Rightarrow> bool" where
  "model_run M s [] = True"
| "model_run M s (op # ops) =
     (case Step M s (Input op) (Output op) of Inr (True, s') \<Rightarrow> model_run M s' ops | _ \<Rightarrow> False)"

lemma legal_model_run:
  assumes "sorts_byTime srt" "\<forall>op \<in> set ops. Operation.Call op \<le> Return op"
    "set sq \<subseteq> {..<length ops}" "model_run M s (map ((!) ops) sq)"
  shows "legal M (makeEntries srt ops) s sq"
  using assms(3,4)
proof (induction sq arbitrary: s)
  case (Cons i sq)
  let ?H = "makeEntries srt ops"
  have i: "i < length ops" using Cons.prems(1) by simp
  have "evalue (?H ! cpos ?H i) = Input (ops ! i)" "evalue (?H ! rpos ?H i) = Output (ops ! i)"
    using makeEntries_of_op [OF assms(1,2) i, of callEntry] makeEntries_of_op [OF assms(1,2) i, of returnEntry]
    by (auto simp: of_op_def)
  then show ?case using Cons by (auto simp: stepf_def split: sum.splits bool.splits)
qed simp

text \<open>The criterion: \<open>P\<close> lists the operations in the order of their moments, each with its moment.\<close>

lemma linearizable_moments:
  assumes "sorts_byTime srt" "mset (map fst P) = mset ops" "sorted (map snd P)"
    "\<forall>(op, t) \<in> set P. Operation.Call op \<le> t \<and> t \<le> Return op" "model_run M (Init M) (map fst P)"
  shows "linearizable M (makeEntries srt ops)"
proof -
  have "set ops = fst ` set P" using mset_eq_setD [OF assms(2)] by simp
  then have cr: "\<forall>op \<in> set ops. Operation.Call op \<le> Return op" using assms(4) by fastforce
  obtain sq where sq: "distinct sq" "set sq = {..<length ops}" "map ((!) ops) sq = map fst P"
    using mset_eq_indices [OF assms(2)] by blast
  have "sorted_wrt (\<lambda>i j. Operation.Call (ops ! i) \<le> Return (ops ! j)) sq"
    unfolding sorted_wrt_iff_nth_less
  proof (intro allI impI)
    fix a b assume ab: "a < b" "b < length sq"
    have l: "length sq = length P" using arg_cong [OF sq(3), of length] by simp
    have n: "ops ! (sq ! m) = fst (P ! m)" if "m < length sq" for m
      using arg_cong [OF sq(3), of "\<lambda>xs. xs ! m"] that l by simp
    have "Operation.Call (fst (P ! a)) \<le> snd (P ! a)" "snd (P ! b) \<le> Return (fst (P ! b))"
      using assms(4) nth_mem [of a P] nth_mem [of b P] ab l by (auto simp: case_prod_beta)
    moreover have "snd (P ! a) \<le> snd (P ! b)" using sorted_nth_mono [OF assms(3), of a b] ab l by simp
    ultimately show "Operation.Call (ops ! (sq ! a)) \<le> Return (ops ! (sq ! b))" using n [of a] n [of b] ab by simp
  qed
  then have "rt_order (makeEntries srt ops) sq" using rt_order_moments [OF assms(1) cr] sq(2) by simp
  moreover have "legal M (makeEntries srt ops) (Init M) sq"
    using legal_model_run [OF assms(1) cr, of sq M] sq(2,3) assms(5) by simp
  ultimately show ?thesis
    using sq(1,2) makeEntries_wf(2) [OF assms(1) cr] unfolding linearizable_def by (intro exI [of _ sq]) simp
qed

end
