(* ===== verification/KVSrv_Check.thy ===== *)
theory KVSrv_Check
  imports KVSrv_Linear Porc_Accept
begin

text \<open>
  The key/value server against the checker that its tests call: the log of any concurrent execution of the clerks over the simulated
  network passes \<^verbatim>\<open>porcupine.CheckOperationsVerbose(models.KvModel, ...)\<close>, and an operation that is not disturbed completes.
\<close>

section \<open>The order of the effects is a run of the model\<close>

lemma log_op_simps [simp]:
  "Input (log_op cli r v st en) = KvIn (kv_input r)" "Output (log_op cli r v st en) = KvOut (kv_output r v)"
  "Operation.Call (log_op cli r v st en) = st" "Return (log_op cli r v st en) = en"
  by (simp_all add: log_op_def Operation.make_def)

lemma logged_simps [simp]:
  "Input (logged fin l) = KvIn (kv_input (l_req l))" "Output (logged fin l) = KvOut (kv_output (l_req l) (l_val l))"
  by (simp_all add: logged_def split: prod.splits)

lemma kv_key_logged [simp]: "kv_key (logged fin l) = i_Key (kv_input (l_req l))"
  by (simp add: kv_key_def)

lemma look_upd [simp]: "look (m(k \<mapsto> v)) k' = (if k' = k then v else look m k')"
  by (simp add: look_def)

lemma look_apply_op:
  "look (apply_op m r) k =
     (if k \<noteq> i_Key (kv_input r) then look m k
      else case r of RGet a \<Rightarrow> look m k | RPut a \<Rightarrow> pa_Value a | RAppend a \<Rightarrow> look m k @ pa_Value a)"
  by (cases r) auto

lemma kv_Step_logged:
  assumes "l_val l = result m (l_req l)" "i_Key (kv_input (l_req l)) = k"
  shows "kv_Step (look m k) (Input (logged fin l)) (Output (logged fin l)) = Inr (True, look (apply_op m (l_req l)) k)"
  using assms by (cases "l_req l") (auto simp: kv_Step_def)

lemma model_run_logged:
  assumes "lin_ok m L"
  shows "model_run KvModel (look m k) (map (logged fin) (filter (\<lambda>l. i_Key (kv_input (l_req l)) = k) L))"
  using assms
proof (induction L arbitrary: m)
  case (Cons l L)
  show ?case
  proof (cases "i_Key (kv_input (l_req l)) = k")
    case True
    then show ?thesis using Cons kv_Step_logged [of l m k fin] by (simp add: KvModel_def)
  next
    case False
    then show ?thesis using Cons.IH [of "apply_op m (l_req l)"] Cons.prems by (simp add: look_apply_op)
  qed
qed simp

text \<open>When no operation is under way the log has exactly the operations that took effect.\<close>

lemma quiet_log:
  assumes "kv_reach er ep s" "\<forall>k. phases s k = Idle"
  obtains L fin where "mset (oplog s) = mset (map (logged fin) L)" "lin_ok Map.empty L" "sorted (map l_time L)"
    "\<And>l. l \<in> set L \<Longrightarrow> Operation.Call (logged fin l) \<le> l_time l \<and> l_time l \<le> Return (logged fin l)"
proof -
  obtain L fin where L: "log_ok s L fin" "clerks_at s L fin" using lin_inv_reach [OF assms(1)] by (auto simp: lin_inv_def)
  have all: "fin (l_id l) \<noteq> None" if "l \<in> set L" for l
    using L(2) assms(2) that by (auto simp: clerks_at_def phase_id_def)
  then have "filter (\<lambda>l. fin (l_id l) \<noteq> None) L = L" by simp
  then have "mset (oplog s) = mset (map (logged fin) L)" using L(1) unfolding log_ok_def by simp
  moreover have "Operation.Call (logged fin l) \<le> l_time l \<and> l_time l \<le> Return (logged fin l)" if l: "l \<in> set L" for l
  proof -
    obtain cli st en where "fin (l_id l) = Some (cli, st, en)" using all [OF l] by (cases "fin (l_id l)") auto
    then show ?thesis using L(1) l by (auto simp: log_ok_def logged_def)
  qed
  moreover have "lin_ok Map.empty L" "sorted (map l_time L)" using L(1) by (simp_all add: log_ok_def)
  ultimately show ?thesis by (intro that)
qed

lemma quiet_linearizable:
  assumes "kv_reach er ep s" "\<forall>k. phases s k = Idle" "sorts_byTime srt"
  shows "linearizable KvModel (kv_part srt (oplog s) k)" "\<forall>op \<in> set (oplog s). kv_op op"
proof -
  from quiet_log [OF assms(1,2)] obtain L fin where L: "mset (oplog s) = mset (map (logged fin) L)" "lin_ok Map.empty L"
    "sorted (map l_time L)" "\<And>l. l \<in> set L \<Longrightarrow> Operation.Call (logged fin l) \<le> l_time l \<and> l_time l \<le> Return (logged fin l)"
    by metis
  let ?L = "filter (\<lambda>l. i_Key (kv_input (l_req l)) = k) L"
  let ?P = "map (\<lambda>l. (logged fin l, l_time l)) ?L"
  have P: "map fst ?P = map (logged fin) ?L" "map snd ?P = map l_time ?L" by (simp_all add: o_def)
  show "linearizable KvModel (kv_part srt (oplog s) k)"
    unfolding kv_part_def
  proof (rule linearizable_moments [OF assms(3), of ?P])
    show "mset (map fst ?P) = mset (filter (\<lambda>op. kv_key op = k) (oplog s))"
      unfolding P mset_filter L(1) by (simp add: filter_mset_image_mset flip: mset_filter)
    show "sorted (map snd ?P)" unfolding P using L(3) by (simp add: sorted_filter)
    show "\<forall>(op, t) \<in> set ?P. Operation.Call op \<le> t \<and> t \<le> Return op" using L(4) by auto
    show "model_run KvModel (Init KvModel) (map fst ?P)"
      unfolding P using model_run_logged [OF L(2), of k fin] by (simp add: KvModel_def kv_Init_def look_def)
  qed
  show "\<forall>op \<in> set (oplog s). kv_op op"
  proof
    fix op assume "op \<in> set (oplog s)"
    then have "op \<in> logged fin ` set L" using mset_eq_setD [OF L(1)] by simp
    then obtain l where "l \<in> set L" "op = logged fin l" by blast
    then show "kv_op op" using L(4) [of l] by (auto simp: kv_op_def)
  qed
qed

section \<open>An operation that nobody disturbs\<close>

lemma serve_halves:
  assumes "serve kv r = (kv', v)"
  shows "\<exists>kv1 t. handler_begin kv r = (kv1, t) \<and> handler_end kv1 t = (kv', Replied v)"
  using assms
  by (cases r) (auto simp: Get_def Put_def Append_def finish_def Get_begin_def Put_begin_def Append_begin_def handler_end_def Let_def
      split: if_splits option.splits prod.splits)

text \<open>One call of the clerk that gets through.\<close>

lemma clerk_round:
  assumes "kv_reach er ep s" "phases s k = Busy c AtClerk" "serve (skv s) (c_req c) = (kv, v)"
  shows "\<exists>s'. kv_reach er ep s' \<and> phases s' = (phases s)(k := call_ok c v) \<and> skv s' = kv \<and> now s' = now s \<and> oplog s' = oplog s \<and>
    used s' = used s \<and> kclerks (scfg s') = kclerks (scfg s)"
proof -
  obtain kv1 t where h: "handler_begin (skv s) (c_req c) = (kv1, t)" "handler_end kv1 t = (kv, Replied v)"
    using serve_halves [OF assms(3)] by blast
  have w: "waited s" by (rule waited_reach [OF assms(1)])
  obtain e where e: "kclerks (scfg s) k = Some e" using waited_clerk [OF w, of k] assms(2) by auto
  let ?m = "req_msg er e (c_req c)" and ?n = "accept_req (snet s) (req_msg er e (c_req c))"
  obtain p where p: "servers (snet s) (Num SERVERID) = Some p" "enabled (snet s) (Str e)" "connections (snet s) (Str e) = Some (Num SERVERID)"
    using w e by (auto simp: waited_def clerks_ok_def)
  have st: "process_start ?n ?m False = Waiting (Num SERVERID) p (reliable (snet s)) (longReordering (snet s))"
    using p by (simp add: process_start_def readEndnameInfo_def accept_req_def req_msg_def)
  let ?rep = "\<lparr>ok = True, reply = ep v\<rparr>"
  have pe: "process_end ?n ?m (Num SERVERID) p (reliable (snet s)) (longReordering (snet s)) (Some ?rep) False False =
      (send_reply ?n ?rep, Answered ?rep)"
    using p by (simp add: process_end_def isServerDead_def accept_req_def req_msg_def)
  have dl: "deliver (send_reply ?n ?rep) (Answered ?rep) = (send_reply ?n ?rep, ?rep)" by (simp add: deliver_def)
  let ?at = "AtServer (Num SERVERID) p (reliable (snet s)) (longReordering (snet s))"
  let ?s1 = "set_phase (set_net s ?n) k (Busy c InNet)"
  have 1: "kv_reach er ep ?s1" by (rule kv_reach.Step [OF assms(1) kv_step.Send [OF assms(2) e]])
  let ?s2 = "set_phase ?s1 k (Busy c (?at None))"
  have 2: "kv_reach er ep ?s2" by (rule kv_reach.Step [OF 1 kv_step.Reach [of _ k c e _ False]]) (use e st in simp_all)
  let ?s3 = "set_phase (set_server ?s2 kv1) k (Busy c (?at (Some t)))"
  have 3: "kv_reach er ep ?s3" by (rule kv_reach.Step [OF 2 kv_step.Begin [of _ k c]]) (use h in simp_all)
  let ?s4 = "set_phase (set_server ?s3 kv) k (Busy c (?at (Some (Replied v))))"
  have 4: "kv_reach er ep ?s4" by (rule kv_reach.Step [OF 3 kv_step.End [of _ k c]]) (use h in simp_all)
  let ?s5 = "set_phase (set_net ?s4 (send_reply ?n ?rep)) k (call_ok c v)"
  have "kv_reach er ep ?s5"
    by (rule kv_reach.Step [OF 4 kv_step.Answer [where er = er and ep = ep and v = v and k = k and c = c and e = e and lost = False and late = False]])
      (use e pe dl in simp_all)
  then show ?thesis by (intro exI [of _ ?s5]) simp
qed

lemma operation_completes:
  assumes "kv_reach er ep s" "phases s k = Idle" "kclerks (scfg s) k \<noteq> None" "\<not> req_confirm r" "req_id r \<notin> used s"
  shows "\<exists>s'. kv_reach er ep s' \<and> phases s' = phases s \<and> kvMap (skv s') = apply_op (kvMap (skv s)) r \<and>
    oplog s' = oplog s @ [log_op cli r (result (kvMap (skv s)) r) (now s) (now s)] \<and> now s' = now s \<and>
    used s' = insert (req_id r) (used s) \<and> kclerks (scfg s') = kclerks (scfg s)"
proof -
  let ?c = "\<lparr>c_req = r, c_var = '''', c_start = now s\<rparr>"
  let ?s0 = "set_phase (s\<lparr>used := insert (req_id r) (used s)\<rparr>) k (Busy ?c AtClerk)"
  let ?v = "result (kvMap (skv s)) r" and ?m = "apply_op (kvMap (skv s)) r"
  have "status (skv s) (req_id r) = None"
    using lin_inv_reach [OF assms(1)] assms(5) by (auto simp: lin_inv_def log_ok_def)
  then have sv: "serve (skv s) r = ((skv s)\<lparr>kvMap := ?m, status := (status (skv s))(req_id r \<mapsto> ?v)\<rparr>, ?v)"
    using assms(4) by (simp add: serve_eq)
  have 0: "kv_reach er ep ?s0" by (rule kv_reach.Step [OF assms(1) kv_step.Call]) (use assms in simp_all)
  from clerk_round [OF this, of k ?c] sv obtain s1 where
    s1: "kv_reach er ep s1" "phases s1 = (phases ?s0)(k := call_ok ?c ?v)" "skv s1 = (skv s)\<lparr>kvMap := ?m, status := (status (skv s))(req_id r \<mapsto> ?v)\<rparr>"
    "now s1 = now s" "oplog s1 = oplog s" "used s1 = insert (req_id r) (used s)" "kclerks (scfg s1) = kclerks (scfg s)"
    by auto
  let ?c' = "\<lparr>c_req = set_confirm True r, c_var = ?v, c_start = now s\<rparr>"
  have "phases s1 k = Busy ?c' AtClerk" using s1(2) assms(4) by (simp add: call_ok_def)
  moreover obtain kv2 where kv2: "serve (skv s1) (set_confirm True r) = (kv2, '''')" "kvMap kv2 = ?m"
    using s1(3) by (simp add: serve_eq)
  ultimately obtain s2 where s2: "kv_reach er ep s2" "phases s2 = (phases s1)(k := call_ok ?c' '''')" "skv s2 = kv2"
    "now s2 = now s" "oplog s2 = oplog s" "used s2 = insert (req_id r) (used s)" "kclerks (scfg s2) = kclerks (scfg s)"
    using clerk_round [OF s1(1), of k ?c' kv2 "''''"] s1(4-7) by auto
  have r: "phases s2 k = Returned ?c'" using s2(2) by (simp add: call_ok_def)
  let ?s3 = "set_phase s2 k (Stopped ?c' (now s2))"
  have 3: "kv_reach er ep ?s3" by (rule kv_reach.Step [OF s2(1) kv_step.Stop [OF r]])
  let ?s4 = "set_phase (?s3\<lparr>scfg := op (scfg ?s3), oplog := oplog ?s3 @ [log_op cli (c_req ?c') (c_var ?c') (c_start ?c') (now s2)]\<rparr>) k Idle"
  have "kv_reach er ep ?s4" by (rule kv_reach.Step [OF 3 kv_step.Log [of _ k ?c' "now s2"]]) simp
  moreover have "phases ?s4 = phases s" using s1(2) s2(2) assms(2) by (auto simp: fun_eq_iff)
  moreover have "oplog ?s4 = oplog s @ [log_op cli r ?v (now s) (now s)]" using s2(4,5) by (simp add: log_op_def)
  moreover have "kvMap (skv ?s4) = ?m" using s2(3) kv2(2) by (simp add: op_def)
  moreover have "now ?s4 = now s" "used ?s4 = insert (req_id r) (used s)" "kclerks (scfg ?s4) = kclerks (scfg s)"
    using s2 by (simp_all add: op_def)
  ultimately show ?thesis by blast
qed

section \<open>The test\<close>

text \<open>
  C4. The key/value server passes its linearizability test, in every execution: for any number of clerks over a reliable or an
  unreliable network, however their calls, the two critical sections of the handlers, lost requests and lost replies
  interleave, once all operations have returned \<^verbatim>\<open>CheckOperationsVerbose(KvModel, log)\<close> returns and does not return
  \<^verbatim>\<open>Illegal\<close>, and it returns \<^verbatim>\<open>Ok\<close> if there is no timeout; no handler was ever abandoned by its clerk.
\<close>

theorem kvsrv_passes_linearizability_test:
  assumes "kv_reach er ep s" "\<forall>k. phases s k = Idle" "oplog s \<noteq> []" "sorts_byTime (sort_entries E)"
    "causal E (fillDefault (sprintOp E) (sprint E) KvModel) (map (kv_part (sort_entries E) (oplog s)) (kv_keys (oplog s))) True"
  shows "(\<exists>res info. CheckOperationsVerbose E KvModel (oplog s) = Some (Inr (res, info)) \<and> res \<noteq> Illegal \<and>
    (timeout_at E = None \<longrightarrow> res = Ok)) \<and> orphans s = []"
proof -
  note q = quiet_linearizable [OF assms(1,2,4)]
  from checkOperations_kv [OF assms(3) q(2) assms(4,5)]
  obtain res info where r: "checkOperations E KvModel (oplog s) True = Some (Inr (res, info))"
    "res = Illegal \<longrightarrow> \<not> (\<forall>k \<in> set (kv_keys (oplog s)). linearizable KvModel (kv_part (sort_entries E) (oplog s) k))"
    "timeout_at E = None \<longrightarrow> res \<noteq> Unknown"
    by (elim exE conjE)
  have i: "res \<noteq> Illegal" using r(2) q(1) by blast
  then have "timeout_at E = None \<longrightarrow> res = Ok" using r(3) by (cases res) auto
  then show ?thesis using r(1) i waited_reach [OF assms(1)] by (auto simp: CheckOperationsVerbose_def waited_def)
qed

text \<open>An execution of a clerk that appends and reads, over an unreliable network.\<close>

definition sample_get :: "int \<Rightarrow> KVServer.request" where
  "sample_get i = RGet \<lparr>ga_Key = ''x'', ga_Id = i, ga_Confirm = False\<rparr>"

definition sample_log :: "kv_value Operation list" where
  "sample_log = [log_op 0 (sample_append 1 ''a'' False) '''' 0 0, log_op 0 (sample_get 2) ''a'' 0 0]"

lemma sample_run: "\<exists>s. kv_reach er ep s \<and> (\<forall>k. phases s k = Idle) \<and> oplog s = sample_log"
proof -
  let ?s0 = "kv_start True"
  obtain c where c: "makeClient (scfg ?s0) ''e'' = Inr c" "kclerks c 0 = Some ''e''"
    by (simp add: kv_start_def begin_test_def make_config_def StartServer_def makeClient_def MakeEnd_def MakeNetwork_def AddServer_def
        Reliable_def ConnectClientUnlocked_def Let_def)
  have s1: "kv_reach er ep (?s0\<lparr>scfg := c\<rparr>)" by (rule kv_reach.Step [OF kv_reach.Start kv_step.Client [OF c(1)]])
  have e: "kvMap (skv (?s0\<lparr>scfg := c\<rparr>)) = Map.empty"
    using makeClient_frame(2) [OF c(1)]
    by (simp add: kv_start_def begin_test_def make_config_def StartServer_def StartKVServer_def Let_def)
  from operation_completes [OF s1, of 0 "sample_append 1 ''a'' False" 0] c(2) e
  obtain s2 where s2: "kv_reach er ep s2" "phases s2 = (\<lambda>_. Idle)" "kvMap (skv s2) = [''x'' \<mapsto> ''a'']"
    "oplog s2 = [log_op 0 (sample_append 1 ''a'' False) '''' 0 0]" "now s2 = 0" "used s2 = {1}" "kclerks (scfg s2) 0 = Some ''e''"
    by (auto simp: kv_start_def sample_append_def look_def)
  from operation_completes [OF s2(1), of 0 "sample_get 2" 0] s2
  show ?thesis by (auto simp: sample_get_def sample_log_def)
qed

lemma sample_keys: "kv_keys sample_log = [''x'']"
proof -
  have "kv_key ` set sample_log = {''x''}" by (simp add: sample_log_def kv_key_def sample_append_def sample_get_def)
  then show ?thesis by (simp add: kv_keys_def)
qed

theorem kvsrv_passes_linearizability_test_witness:
  "\<exists>s info. kv_reach (\<lambda>_. []) (\<lambda>_. []) s \<and> oplog s = sample_log \<and>
     CheckOperationsVerbose (kv_env 1) KvModel sample_log = Some (Inr (Ok, info))"
proof -
  obtain s where s: "kv_reach (\<lambda>_. []) (\<lambda>_. []) s" "\<forall>k. phases s k = Idle" "oplog s = sample_log"
    using sample_run [of "\<lambda>_. []" "\<lambda>_. []"] by blast
  have n: "oplog s \<noteq> []" using s(3) by (simp add: sample_log_def)
  have so: "sorts_byTime (sort_entries (kv_env 1))" unfolding kv_env_def by (rule quiet_sorts)
  have c: "causal (kv_env 1) (fillDefault (sprintOp (kv_env 1)) (sprint (kv_env 1)) KvModel)
      (map (kv_part (sort_entries (kv_env 1)) (oplog s)) (kv_keys (oplog s))) True"
    unfolding kv_env_def by (rule quiet_causal) (simp add: s(3) sample_keys)
  have "timeout_at (kv_env 1) = None" by (simp add: kv_env_def quiet_env_def)
  then show ?thesis using kvsrv_passes_linearizability_test [OF s(1,2) n so c] s(1,3) by auto
qed

end
