(* ===== verification/KVSrv_Network.thy ===== *)
theory KVSrv_Network
  imports KVSrv_Linear
begin

text \<open>
  The clerk of the key/value server down to the bytes: a call goes through \<^verbatim>\<open>ClientEnd.Call\<close> (encoding of the arguments, the simulated network,
  the choice of service and method by name, the handler, encoding and decoding of the reply), and the loops of the clerk over such calls
  refine the loops over attempts of \<open>KVServer\<close>.

  What the code relies on of encoding/gob is \<open>kv_gob\<close>: every value can be encoded, arguments decode to themselves, and decoding a reply leaves a
  field alone that is empty in the reply.
\<close>

section \<open>Messages and the service\<close>

datatype kv_msg = VGetArgs GetArgs | VPutAppendArgs PutAppendArgs | VGetReply string | VPutAppendReply string

fun req_val :: "KVServer.request \<Rightarrow> kv_msg" where
  "req_val (RGet a) = VGetArgs a"
| "req_val (RPut a) = VPutAppendArgs a"
| "req_val (RAppend a) = VPutAppendArgs a"

fun rep_val :: "KVServer.request \<Rightarrow> string \<Rightarrow> kv_msg" where
  "rep_val (RGet a) v = VGetReply v"
| "rep_val (RPut a) v = VPutAppendReply v"
| "rep_val (RAppend a) v = VPutAppendReply v"

fun rep_string :: "kv_msg \<Rightarrow> string" where
  "rep_string (VGetReply v) = v"
| "rep_string (VPutAppendReply v) = v"
| "rep_string _ = ''''"

text \<open>The handlers as the network calls them; it decodes the arguments into the type of the parameter.\<close>

definition get_handler :: "(KVServer, kv_msg) handler" where
  "get_handler = (\<lambda>kv a r. case a of VGetArgs g \<Rightarrow> (case Get kv g of (kv', v) \<Rightarrow> (kv', VGetReply v)) | _ \<Rightarrow> (kv, r))"

definition put_handler :: "(KVServer, kv_msg) handler" where
  "put_handler = (\<lambda>kv a r. case a of VPutAppendArgs g \<Rightarrow> (case Put kv g of (kv', v) \<Rightarrow> (kv', VPutAppendReply v)) | _ \<Rightarrow> (kv, r))"

definition append_handler :: "(KVServer, kv_msg) handler" where
  "append_handler = (\<lambda>kv a r. case a of VPutAppendArgs g \<Rightarrow> (case Append kv g of (kv', v) \<Rightarrow> (kv', VPutAppendReply v)) | _ \<Rightarrow> (kv, r))"

definition kv_service :: "(KVServer, kv_msg) Service" where
  "kv_service = MakeService ''KVServer''
     [go_method ''Append'' 3 0 ''PutAppendReply'' append_handler, go_method ''Get'' 3 0 ''GetReply'' get_handler,
      go_method ''Put'' 3 0 ''PutAppendReply'' put_handler]"

fun reply_type :: "KVServer.request \<Rightarrow> string" where
  "reply_type (RGet a) = ''GetReply''"
| "reply_type (RPut a) = ''PutAppendReply''"
| "reply_type (RAppend a) = ''PutAppendReply''"

definition kv_gob :: "kv_msg gob \<Rightarrow> bool" where
  "kv_gob G \<longleftrightarrow>
     (\<forall>v. snd (Encode G v)) \<and> (\<forall>r. Decode G (zero G (args_type r)) (fst (Encode G (req_val r))) = (req_val r, True)) \<and>
     (\<forall>r. zero G (reply_type r) = rep_val r '''') \<and>
     (\<forall>r old new. Decode G (rep_val r old) (fst (Encode G (rep_val r new))) = (rep_val r (decode_reply old new), True))"

section \<open>The clerk\<close>

text \<open>The loops \<^verbatim>\<open>for !ok { ok = ck.server.Call(...) }\<close>; the flags of an attempt are the random choices of the network.\<close>

fun Call_until ::
  "kv_msg gob \<Rightarrow> (KVServer, kv_msg) system \<Rightarrow> string \<Rightarrow> KVServer.request \<Rightarrow> string \<Rightarrow> (bool \<times> bool \<times> bool) list \<Rightarrow>
     ((KVServer, kv_msg) system \<times> string \<times> (bool \<times> bool \<times> bool) list) option res" where
  "Call_until G s e r var [] = Inr None"
| "Call_until G s e r var ((lost1, lost2, late) # fs) =
     bindR (LabRPC.Call G s (Str e) (svc_method r) (args_type r) (req_val r) (rep_val r var) lost1 lost2 late) (\<lambda>(s', good, v).
       if good then Inr (Some (s', rep_string v, fs)) else Call_until G s' e r (rep_string v) fs)"

text \<open>The two loops of an operation: the request, then its confirmation into the same variable.\<close>

definition request_and_confirm ::
  "kv_msg gob \<Rightarrow> (KVServer, kv_msg) system \<Rightarrow> string \<Rightarrow> KVServer.request \<Rightarrow> (bool \<times> bool \<times> bool) list \<Rightarrow>
     ((KVServer, kv_msg) system \<times> string) option res" where
  "request_and_confirm G s e r fs =
     bindR (Call_until G s e r '''' fs) (\<lambda>x. case x of
       None \<Rightarrow> Inr None
     | Some (s1, reply1, fs1) \<Rightarrow>
         bindR (Call_until G s1 e (set_confirm True r) reply1 fs1) (\<lambda>y. case y of
           None \<Rightarrow> Inr None
         | Some (s2, reply2, fs2) \<Rightarrow> Inr (Some (s2, reply2))))"

definition net_Get ::
  "kv_msg gob \<Rightarrow> (KVServer, kv_msg) system \<Rightarrow> string \<Rightarrow> int \<Rightarrow> string \<Rightarrow> (bool \<times> bool \<times> bool) list \<Rightarrow>
     ((KVServer, kv_msg) system \<times> string) option res" where
  "net_Get G s e i key fs = request_and_confirm G s e (RGet \<lparr>ga_Key = key, ga_Id = i, ga_Confirm = False\<rparr>) fs"

definition net_PutAppend ::
  "kv_msg gob \<Rightarrow> (KVServer, kv_msg) system \<Rightarrow> string \<Rightarrow> int \<Rightarrow> string \<Rightarrow> string \<Rightarrow> putappend \<Rightarrow> (bool \<times> bool \<times> bool) list \<Rightarrow>
     ((KVServer, kv_msg) system \<times> string) option res" where
  "net_PutAppend G s e i key val opn fs =
     (let a = \<lparr>pa_Key = key, pa_Value = val, pa_Id = i, pa_Confirm = False\<rparr>
      in request_and_confirm G s e (case opn of OpPut \<Rightarrow> RPut a | OpAppend \<Rightarrow> RAppend a) fs)"

section \<open>One call\<close>

definition fate :: "bool \<Rightarrow> bool \<times> bool \<times> bool \<Rightarrow> attempt" where
  "fate rel f = (case f of (lost1, lost2, late) \<Rightarrow>
     if rel then Delivered else if lost1 then LostRequest else if lost2 then LostReply else Delivered)"

text \<open>The end point \<open>e\<close> leads to a live server with the service.\<close>

definition kv_link :: "(KVServer, kv_msg) system \<Rightarrow> string \<Rightarrow> bool" where
  "kv_link s e \<longleftrightarrow> \<not> closed (net s) \<and> enabled (net s) (Str e) \<and>
     (\<exists>sn p. connections (net s) (Str e) = Some sn \<and> servers (net s) sn = Some p \<and> p < length (objs s) \<and>
        services (objs s ! p) ''KVServer'' = Some kv_service)"

text \<open>What a call does, by its fate: whether it succeeds, the server after it, and the variable for the reply.\<close>

fun call_effect :: "KVServer.request \<Rightarrow> KVServer \<Rightarrow> string \<Rightarrow> attempt \<Rightarrow> bool \<times> KVServer \<times> string" where
  "call_effect r kv var LostRequest = (False, kv, var)"
| "call_effect r kv var LostReply = (False, fst (serve kv r), var)"
| "call_effect r kv var Delivered = (True, fst (serve kv r), decode_reply var (snd (serve kv r)))"

lemma split_svc_method: "\<exists>m. split_method (svc_method r) = Inr (''KVServer'', m) \<and>
    (\<exists>f. methods kv_service m = Some (go_method m 3 0 (reply_type r) f) \<and> (\<forall>kv v. f kv (req_val r) v = (fst (serve kv r), rep_val r (snd (serve kv r)))))"
  by (cases r) (simp_all add: split_method_def slice_to_def slice_from_def kv_service_def MakeService_def go_method_def suitable_def
      get_handler_def put_handler_def append_handler_def case_prod_beta)


lemma Call_request_kv:
  "kv_gob G \<Longrightarrow> Call_request G n sm ty v = Inr \<lparr>endname = n, svcMeth = sm, argsType = ty, args = fst (Encode G v)\<rparr>"
  by (cases "Encode G v") (auto simp: kv_gob_def Call_request_def dest: spec [of _ v])

lemma dispatch_serves:
  assumes "kv_gob G" "services rs ''KVServer'' = Some kv_service"
    and "m = \<lparr>endname = n, svcMeth = svc_method r, argsType = args_type r, args = fst (Encode G (req_val r))\<rparr>"
  shows "Server_dispatch G rs m kv = Inr (rs\<lparr>s_count := s_count rs + 1\<rparr>, fst (serve kv r),
    \<lparr>ok = True, reply = fst (Encode G (rep_val r (snd (serve kv r))))\<rparr>)"
proof -
  obtain mn f where mn: "split_method (svc_method r) = Inr (''KVServer'', mn)"
    "methods kv_service mn = Some (go_method mn 3 0 (reply_type r) f)"
    "\<And>kv v. f kv (req_val r) v = (fst (serve kv r), rep_val r (snd (serve kv r)))"
    using split_svc_method [of r] by metis
  have d: "Decode G (zero G (args_type r)) (fst (Encode G (req_val r))) = (req_val r, True)"
    using assms(1) unfolding kv_gob_def by blast
  show ?thesis
    using mn d assms(2) unfolding assms(3)
    by (simp add: Server_dispatch_def Service_dispatch_def go_method_def Let_def)
qed

lemma reply_decodes:
  "kv_gob G \<Longrightarrow> Decode G (rep_val r old) (fst (Encode G (rep_val r new))) = (rep_val r (decode_reply old new), True)"
  unfolding kv_gob_def by blast

text \<open>On a link to the server a call has the effect that its fate says, and leaves the link as it was.\<close>

lemma Call_on_link:
  assumes "kv_gob G" "kv_link s e"
    and "call_effect r (world s) var (fate (reliable (net s)) (lost1, lost2, late)) = (good, kv, v)"
  shows "\<exists>s'. LabRPC.Call G s (Str e) (svc_method r) (args_type r) (req_val r) (rep_val r var) lost1 lost2 late =
      Inr (s', good, rep_val r v) \<and> world s' = kv \<and> kv_link s' e \<and> reliable (net s') = reliable (net s)"
proof -
  let ?m = "\<lparr>endname = Str e, svcMeth = svc_method r, argsType = args_type r, args = fst (Encode G (req_val r))\<rparr>"
  obtain sn p where l: "\<not> closed (net s)" "enabled (net s) (Str e)" "connections (net s) (Str e) = Some sn"
    "servers (net s) sn = Some p" "p < length (objs s)" "services (objs s ! p) ''KVServer'' = Some kv_service"
    using assms(2) unfolding kv_link_def by blast
  have disp: "Server_dispatch G (objs s ! p) ?m (world s) = Inr ((objs s ! p)\<lparr>s_count := s_count (objs s ! p) + 1\<rparr>,
      fst (serve (world s) r), \<lparr>ok = True, reply = fst (Encode G (rep_val r (snd (serve (world s) r))))\<rparr>)"
    by (rule dispatch_serves [OF assms(1) l(6) refl])
  show ?thesis
    using l assms(3) disp
    by (auto simp: LabRPC.Call_def Call_request_kv [OF assms(1)] processReq_def process_start_def readEndnameInfo_def accept_req_def Let_def fate_def
        deliver_def process_end_def isServerDead_def Call_return_def failure_def send_reply_def reply_decodes [OF assms(1)] kv_link_def
        split: if_splits)
qed

section \<open>The loops refine the loops over attempts\<close>

lemma rep_string_val [simp]: "rep_string (rep_val r v) = v"
  by (cases r) simp_all

lemma Call_until_refines:
  assumes "kv_gob G" "kv_link s e"
  shows "case call_until (\<lambda>kv. serve kv r) (world s) var (map (fate (reliable (net s))) fs) of
      None \<Rightarrow> Call_until G s e r var fs = Inr None
    | Some (kv, v, as) \<Rightarrow> (\<exists>s' fs'. Call_until G s e r var fs = Inr (Some (s', v, fs')) \<and> world s' = kv \<and> kv_link s' e \<and>
        reliable (net s') = reliable (net s) \<and> as = map (fate (reliable (net s))) fs')"
  using assms(2)
proof (induction fs arbitrary: s var)
  case (Cons f fs)
  obtain l1 l2 late where f: "f = (l1, l2, late)" by (cases f)
  obtain good kv v where ce: "call_effect r (world s) var (fate (reliable (net s)) (l1, l2, late)) = (good, kv, v)"
    by (cases "call_effect r (world s) var (fate (reliable (net s)) (l1, l2, late))")
  obtain s' where s': "LabRPC.Call G s (Str e) (svc_method r) (args_type r) (req_val r) (rep_val r var) l1 l2 late =
      Inr (s', good, rep_val r v)" "world s' = kv" "kv_link s' e" "reliable (net s') = reliable (net s)"
    using Call_on_link [OF assms(1) Cons.prems ce] by blast
  have step: "Call_until G s e r var (f # fs) = (if good then Inr (Some (s', v, fs)) else Call_until G s' e r v fs)"
    by (simp add: f s'(1))
  show ?case
    using Cons.IH [OF s'(3), of v] s'(3) ce unfolding step s'(2,4)
    by (cases "fate (reliable (net s)) (l1, l2, late)") (auto simp: f case_prod_beta s'(2,4))
qed simp

lemma request_and_confirm_refines:
  assumes "kv_gob G" "kv_link s e"
    and "call_until (\<lambda>kv. serve kv r) (world s) '''' (map (fate (reliable (net s))) fs) = Some (kv1, v1, as1)"
    and "call_until (\<lambda>kv. serve kv (set_confirm True r)) kv1 v1 as1 = Some (kv, v, as2)"
  shows "\<exists>s'. request_and_confirm G s e r fs = Inr (Some (s', v)) \<and> world s' = kv \<and> kv_link s' e"
proof -
  obtain s1 fs1 where s1: "Call_until G s e r '''' fs = Inr (Some (s1, v1, fs1))" "world s1 = kv1" "kv_link s1 e"
    "reliable (net s1) = reliable (net s)" "as1 = map (fate (reliable (net s))) fs1"
    using Call_until_refines [OF assms(1,2), of r "''''" fs] unfolding assms(3) by auto
  obtain s2 fs2 where "Call_until G s1 e (set_confirm True r) v1 fs1 = Inr (Some (s2, v, fs2))" "world s2 = kv" "kv_link s2 e"
    using Call_until_refines [OF assms(1) s1(3), of "set_confirm True r" v1 fs1] assms(4) unfolding s1(2,4,5) by auto
  with s1(1) show ?thesis by (simp add: request_and_confirm_def)
qed

lemma net_Get_refines:
  assumes "kv_gob G" "kv_link s e" "Clerk_Get (world s) i key (map (fate (reliable (net s))) fs) = Some (kv, v)"
  shows "\<exists>s'. net_Get G s e i key fs = Inr (Some (s', v)) \<and> world s' = kv \<and> kv_link s' e"
proof -
  let ?r = "RGet \<lparr>ga_Key = key, ga_Id = i, ga_Confirm = False\<rparr>"
  obtain kv1 v1 as1 as2 where
    "call_until (\<lambda>s. serve s ?r) (world s) '''' (map (fate (reliable (net s))) fs) = Some (kv1, v1, as1)"
    "call_until (\<lambda>s. serve s (set_confirm True ?r)) kv1 v1 as1 = Some (kv, v, as2)"
    using assms(3) unfolding Clerk_Get_def Let_def by (auto split: option.splits)
  from request_and_confirm_refines [OF assms(1,2) this] show ?thesis by (simp add: net_Get_def)
qed

lemma net_PutAppend_refines:
  assumes "kv_gob G" "kv_link s e" "PutAppend (world s) i key val opn (map (fate (reliable (net s))) fs) = Some (kv, v)"
  shows "\<exists>s'. net_PutAppend G s e i key val opn fs = Inr (Some (s', v)) \<and> world s' = kv \<and> kv_link s' e"
proof -
  let ?a = "\<lparr>pa_Key = key, pa_Value = val, pa_Id = i, pa_Confirm = False\<rparr>"
  let ?r = "case opn of OpPut \<Rightarrow> RPut ?a | OpAppend \<Rightarrow> RAppend ?a"
  have ops: "(\<lambda>s. call_op opn s ?a) = (\<lambda>s. serve s ?r)"
    "(\<lambda>s. call_op opn s (?a\<lparr>pa_Confirm := True\<rparr>)) = (\<lambda>s. serve s (set_confirm True ?r))"
    by (simp_all add: call_op_serve fun_eq_iff split: putappend.splits)
  obtain kv1 v1 as1 as2 where
    "call_until (\<lambda>s. serve s ?r) (world s) '''' (map (fate (reliable (net s))) fs) = Some (kv1, v1, as1)"
    "call_until (\<lambda>s. serve s (set_confirm True ?r)) kv1 v1 as1 = Some (kv, v, as2)"
    using assms(3) unfolding PutAppend_def Let_def ops by (auto split: option.splits)
  from request_and_confirm_refines [OF assms(1,2) this] show ?thesis by (simp add: net_PutAppend_def Let_def)
qed

section \<open>Clerks of a test\<close>

text \<open>What \<^verbatim>\<open>StartServer\<close> puts behind the network, in a state of a test: one \<^verbatim>\<open>labrpc.Server\<close> with the service of the key/value server.\<close>

definition system_of :: "config \<Rightarrow> (KVServer, kv_msg) system" where
  "system_of cfg = \<lparr>net = knet cfg, objs = [AddService MakeServer kv_service], world = kserver cfg, reqs = []\<rparr>"

lemma ks_reach_server: "ks_reach cfg \<Longrightarrow> servers (knet cfg) (Num SERVERID) = Some 0 \<and> \<not> closed (knet cfg)"
proof (induction rule: ks_reach.induct)
  case (KS_make unreliable)
  show ?case by (simp add: make_config_def StartServer_def AddServer_def Reliable_def MakeNetwork_def SERVERID_def Let_def)
next
  case (KS_client cfg name c)
  then show ?case by (auto simp: makeClient_def ConnectClientUnlocked_def MakeEnd_def Connect_def Enable_def Let_def split: if_splits)
next
  case (KS_delete cfg k c)
  then show ?case by (auto simp: deleteClient_def DeleteEnd_def split: if_splits)
qed (simp_all add: ConnectClientUnlocked_def Enable_def accept_req_def send_reply_def begin_test_def op_def)

lemma clerk_link: "ks_reach cfg \<Longrightarrow> kclerks cfg k = Some e \<Longrightarrow> kv_link (system_of cfg) e"
  using ks_reach_ok [of cfg] ks_reach_server [of cfg]
  by (auto simp: kv_link_def clerks_ok_def system_of_def AddService_def MakeServer_def kv_service_def MakeService_def)

text \<open>
  C12. Exactly once, down to the bytes: in every state of every test of the key/value server in which no request is under way, a \<^verbatim>\<open>Put\<close> or
  \<^verbatim>\<open>Append\<close> of any clerk with a fresh id returns the value the key had before, once two of its calls get through the network (all do on a
  reliable one): \<^verbatim>\<open>Call\<close> encodes the arguments, the network finds the server, the service and the method by their names, the handler runs on
  the decoded arguments and the clerk decodes its reply. However many requests and replies the network has lost by then, the operation is applied exactly
  once and the table of requests is as before.
\<close>

theorem clerk_over_network_exactly_once:
  assumes "kv_gob G" "ks_reach cfg" "kclerks cfg k = Some e" "status (kserver cfg) i = None"
    and "2 \<le> count_list (map (fate (reliable (knet cfg))) fs) Delivered"
  shows "\<exists>s. net_PutAppend G (system_of cfg) e i key val opn fs = Inr (Some (s, read_key (kserver cfg) key)) \<and>
    status (world s) = status (kserver cfg) \<and>
    kvMap (world s) = (kvMap (kserver cfg))(key \<mapsto> (case opn of OpPut \<Rightarrow> val | OpAppend \<Rightarrow> read_key (kserver cfg) key @ val))"
proof -
  have s: "world (system_of cfg) = kserver cfg" "net (system_of cfg) = knet cfg" by (simp_all add: system_of_def)
  obtain kv where kv: "PutAppend (kserver cfg) i key val opn (map (fate (reliable (knet cfg))) fs) = Some (kv, read_key (kserver cfg) key)"
    "status kv = status (kserver cfg)"
    "kvMap kv = (kvMap (kserver cfg))(key \<mapsto> (case opn of OpPut \<Rightarrow> val | OpAppend \<Rightarrow> read_key (kserver cfg) key @ val))"
    using PutAppend_once [OF assms(4,5), of key val opn] by blast
  show ?thesis
    using net_PutAppend_refines [OF assms(1) clerk_link [OF assms(2,3)], of i key val opn fs kv] kv unfolding s by blast
qed


subsection \<open>An encoding\<close>

text \<open>A stand-in for encoding/gob: numbers in unary, strings after their length, and a reply that is empty not at all.\<close>

definition enc_nat :: "nat \<Rightarrow> 8 word list" where
  "enc_nat n = replicate n 1 @ [0]"

definition dec_nat :: "8 word list \<Rightarrow> nat \<times> 8 word list" where
  "dec_nat b = (length (takeWhile ((=) 1) b), tl (dropWhile ((=) 1) b))"

definition byte :: "char \<Rightarrow> 8 word" where
  "byte c = word_of_nat (of_char c)"

definition letter :: "8 word \<Rightarrow> char" where
  "letter b = char_of (unat b)"

lemma letter_byte [simp]: "letter (byte c) = c"
  by (simp add: letter_def byte_def unat_of_nat char_of_mod_256 del: of_char_mod_256)

definition enc_str :: "string \<Rightarrow> 8 word list" where
  "enc_str x = enc_nat (length x) @ map byte x"

definition dec_str :: "8 word list \<Rightarrow> string \<times> 8 word list" where
  "dec_str b = (case dec_nat b of (n, b') \<Rightarrow> (map letter (take n b'), List.drop n b'))"

definition enc_int :: "int \<Rightarrow> 8 word list" where
  "enc_int i = (if i < 0 then 1 else 0) # enc_nat (nat \<bar>i\<bar>)"

definition dec_int :: "8 word list \<Rightarrow> int \<times> 8 word list" where
  "dec_int b = (case dec_nat (tl b) of (n, b') \<Rightarrow> (if List.hd b = 1 then - int n else int n, b'))"

definition enc_bool :: "bool \<Rightarrow> 8 word list" where
  "enc_bool c = [if c then 1 else 0]"

lemma dec_enc [simp]:
  "dec_nat (enc_nat n @ b) = (n, b)" "dec_str (enc_str x @ b) = (x, b)" "dec_int (enc_int i @ b) = (i, b)"
  "(List.hd (enc_bool c) = 1) = c"
proof -
  show n: "dec_nat (enc_nat m @ b) = (m, b)" for m b
    by (induction m) (simp_all add: enc_nat_def dec_nat_def)
  show "dec_str (enc_str x @ b) = (x, b)"
    by (simp add: enc_str_def dec_str_def n comp_def)
  show "dec_int (enc_int i @ b) = (i, b)"
    by (simp add: enc_int_def dec_int_def n)
  show "(List.hd (enc_bool c) = 1) = c" by (simp add: enc_bool_def)
qed

fun small_encode :: "kv_msg \<Rightarrow> 8 word list" where
  "small_encode (VGetArgs a) = enc_str (ga_Key a) @ enc_int (ga_Id a) @ enc_bool (ga_Confirm a)"
| "small_encode (VPutAppendArgs a) = enc_str (pa_Key a) @ enc_str (pa_Value a) @ enc_int (pa_Id a) @ enc_bool (pa_Confirm a)"
| "small_encode (VGetReply v) = map byte v"
| "small_encode (VPutAppendReply v) = map byte v"

fun small_decode :: "kv_msg \<Rightarrow> 8 word list \<Rightarrow> kv_msg" where
  "small_decode (VGetArgs a) b = (case dec_str b of (k, b1) \<Rightarrow> case dec_int b1 of (i, b2) \<Rightarrow>
     VGetArgs \<lparr>ga_Key = k, ga_Id = i, ga_Confirm = (List.hd b2 = 1)\<rparr>)"
| "small_decode (VPutAppendArgs a) b = (case dec_str b of (k, b1) \<Rightarrow> case dec_str b1 of (v, b2) \<Rightarrow> case dec_int b2 of (i, b3) \<Rightarrow>
     VPutAppendArgs \<lparr>pa_Key = k, pa_Value = v, pa_Id = i, pa_Confirm = (List.hd b3 = 1)\<rparr>)"
| "small_decode (VGetReply v) b = VGetReply (if b = [] then v else map letter b)"
| "small_decode (VPutAppendReply v) b = VPutAppendReply (if b = [] then v else map letter b)"

definition small_gob :: "kv_msg gob" where
  "small_gob = \<lparr>
     zero = (\<lambda>ty. if ty = ''*GetArgs'' then VGetArgs \<lparr>ga_Key = [], ga_Id = 0, ga_Confirm = False\<rparr>
                  else if ty = ''*PutAppendArgs'' then VPutAppendArgs \<lparr>pa_Key = [], pa_Value = [], pa_Id = 0, pa_Confirm = False\<rparr>
                  else if ty = ''GetReply'' then VGetReply [] else VPutAppendReply []),
     Encode = (\<lambda>v. (small_encode v, True)), Decode = (\<lambda>v b. (small_decode v b, True))\<rparr>"

lemma small_gob_ok: "kv_gob small_gob"
proof -
  have "Decode small_gob (zero small_gob (args_type r)) (fst (Encode small_gob (req_val r))) = (req_val r, True)" for r
    by (cases r) (simp_all add: small_gob_def)
  moreover have "zero small_gob (reply_type r) = rep_val r []" for r
    by (cases r) (simp_all add: small_gob_def)
  moreover have "Decode small_gob (rep_val r old) (fst (Encode small_gob (rep_val r new))) = (rep_val r (decode_reply old new), True)"
    for r old new
    by (cases r) (simp_all add: small_gob_def decode_reply_def comp_def)
  ultimately show ?thesis by (simp add: kv_gob_def small_gob_def)
qed

text \<open>A test on an unreliable network with one clerk, whose first reply and first confirmation are lost.\<close>

definition one_clerk :: config where
  "one_clerk = (case makeClient (make_config True) ''e'' of Inr c \<Rightarrow> c | Inl _ \<Rightarrow> make_config True)"

lemma one_clerk_made: "makeClient (make_config True) ''e'' = Inr one_clerk"
  by (simp add: one_clerk_def makeClient_def make_config_def StartServer_def MakeNetwork_def MakeEnd_def AddServer_def Reliable_def
      Let_def)

theorem clerk_over_network_exactly_once_witness:
  "\<exists>s. net_PutAppend small_gob (system_of one_clerk) ''e'' 7 ''x'' ''a'' OpAppend
      [(False, True, False), (False, False, False), (True, False, False), (False, False, True)] = Inr (Some (s, '''')) \<and>
    kvMap (world s) ''x'' = Some ''a''"
proof -
  have c: "kclerks one_clerk 0 = Some ''e''" "reliable (knet one_clerk) = False" "kserver one_clerk = StartKVServer"
    by (simp_all add: one_clerk_def makeClient_def make_config_def StartServer_def MakeNetwork_def MakeEnd_def AddServer_def Reliable_def
        ConnectClientUnlocked_def Connect_def Enable_def Let_def)
  have r: "read_key StartKVServer ''x'' = ''''" "status StartKVServer 7 = None"
    by (simp_all add: read_key_def StartKVServer_def)
  show ?thesis
    using clerk_over_network_exactly_once [OF small_gob_ok KS_client [OF KS_make one_clerk_made] c(1), of 7
        "[(False, True, False), (False, False, False), (True, False, False), (False, False, True)]" "''x''" "''a''" OpAppend]
    by (auto simp: c r fate_def)
qed

end
