(* ===== verification/MR_Coordinator.thy ===== *)
theory MR_Coordinator
  imports Go_Prelude
begin

text \<open>
  The coordinator of the MapReduce library (src/mr/coordinator.go, the types of src/mr/rpc.go) and the RPC side
  of its workers (src/mr/worker.go): handing out tasks, marking them finished, moving to the next
  phase. All handlers run under the package's mutex and are single steps.

  A channel is the list of the tasks in it. Tasks are never changed after they were made, so that the
  pointer to a task in a channel and the one in the table stand for equal values. \<^verbatim>\<open>makeMapTasks\<close> declares the
  slice of a task's files by \<^verbatim>\<open>fileslice := []string\<close>, which the compiler rejects; the model has the slice
  that the next line assigns to, with the file as its only element.
\<close>

datatype TaskType = MapTask | ReduceTask | WaittingTask | ExitTask

datatype Phase = MapPhase | ReducePhase | AllDone

datatype State = Working | Waiting | Done

record Task =
  TaskType :: TaskType
  TaskId :: nat
  t_ReducerNum :: nat
  FileSlice :: "string list"

record TaskMetaInfo =
  mstate :: State
  TaskAdr :: Task

record Coordinator =
  ReducerNum :: nat
  c_TaskId :: nat
  DistPhase :: Phase
  TaskChannelReduce :: "Task list"
  TaskChannelMap :: "Task list"
  MetaMap :: "(nat \<times> TaskMetaInfo) list"
  files :: "string list"

text \<open>The zero value of a task, which a worker sends and receives into.\<close>

definition zero_task :: Task where
  "zero_task = \<lparr>TaskType = MapTask, TaskId = 0, t_ReducerNum = 0, FileSlice = []\<rparr>"

section \<open>Making tasks\<close>

definition generateTaskId :: "Coordinator \<Rightarrow> Coordinator \<times> nat" where
  "generateTaskId c = (c\<lparr>c_TaskId := c_TaskId c + 1\<rparr>, c_TaskId c)"

definition acceptMeta :: "Coordinator \<Rightarrow> TaskMetaInfo \<Rightarrow> Coordinator \<times> bool" where
  "acceptMeta c info =
     (if map_of (MetaMap c) (TaskId (TaskAdr info)) \<noteq> None then (c, False)
      else (c\<lparr>MetaMap := (TaskId (TaskAdr info), info) # MetaMap c\<rparr>, True))"

definition makeMapTask :: "Coordinator \<Rightarrow> string \<Rightarrow> Coordinator" where
  "makeMapTask c v =
     (let (c1, i) = generateTaskId c;
          task = \<lparr>TaskType = MapTask, TaskId = i, t_ReducerNum = ReducerNum c1, FileSlice = [v]\<rparr>;
          c2 = fst (acceptMeta c1 \<lparr>mstate = Waiting, TaskAdr = task\<rparr>)
      in c2\<lparr>TaskChannelMap := TaskChannelMap c2 @ [task]\<rparr>)"

definition makeMapTasks :: "Coordinator \<Rightarrow> string list \<Rightarrow> Coordinator" where
  "makeMapTasks c fs = foldl makeMapTask c fs"

text \<open>\<open>names\<close> gives the files of a reduce task (\<^verbatim>\<open>selectReduceName\<close> reads the working directory).\<close>

definition makeReduceTask :: "(nat \<Rightarrow> string list) \<Rightarrow> Coordinator \<Rightarrow> nat \<Rightarrow> Coordinator" where
  "makeReduceTask names c r =
     (let (c1, i) = generateTaskId c;
          task = \<lparr>TaskType = ReduceTask, TaskId = i, t_ReducerNum = 0, FileSlice = names r\<rparr>;
          c2 = fst (acceptMeta c1 \<lparr>mstate = Waiting, TaskAdr = task\<rparr>)
      in c2\<lparr>TaskChannelReduce := TaskChannelReduce c2 @ [task]\<rparr>)"

definition makeReduceTasks :: "(nat \<Rightarrow> string list) \<Rightarrow> Coordinator \<Rightarrow> Coordinator" where
  "makeReduceTasks names c = foldl (makeReduceTask names) c [0..<ReducerNum c]"

definition MakeCoordinator :: "string list \<Rightarrow> nat \<Rightarrow> Coordinator" where
  "MakeCoordinator fs nReduce =
     makeMapTasks \<lparr>ReducerNum = nReduce, c_TaskId = 0, DistPhase = MapPhase, TaskChannelReduce = [],
                   TaskChannelMap = [], MetaMap = [], files = fs\<rparr> fs"

section \<open>The handlers\<close>

definition set_state :: "Coordinator \<Rightarrow> nat \<Rightarrow> State \<Rightarrow> Coordinator" where
  "set_state c i s =
     c\<lparr>MetaMap := map (\<lambda>(k, info). (k, if k = i then info\<lparr>mstate := s\<rparr> else info)) (MetaMap c)\<rparr>"

definition judgeState :: "Coordinator \<Rightarrow> nat \<Rightarrow> Coordinator \<times> bool" where
  "judgeState c i =
     (case map_of (MetaMap c) i of
        None \<Rightarrow> (c, False)
      | Some info \<Rightarrow> if mstate info \<noteq> Waiting then (c, False) else (set_state c i Working, True))"

definition checkTaskDone :: "Coordinator \<Rightarrow> bool" where
  "checkTaskDone c =
     (let infos = map snd (MetaMap c);
          num = (\<lambda>t d. length (filter (\<lambda>v. TaskType (TaskAdr v) = t \<and> (mstate v = Done) = d) infos));
          mapDoneNum = num MapTask True; mapUnDoneNum = num MapTask False;
          reduceDoneNum = num ReduceTask True; reduceUnDoneNum = num ReduceTask False
      in if (mapDoneNum > 0 \<and> mapUnDoneNum = 0) \<and> (reduceDoneNum = 0 \<and> reduceUnDoneNum = 0) then True
         else reduceDoneNum > 0 \<and> reduceUnDoneNum = 0)"

definition toNextPhase :: "Coordinator \<Rightarrow> Coordinator" where
  "toNextPhase c =
     (if DistPhase c = MapPhase then c\<lparr>DistPhase := AllDone\<rparr>
      else if DistPhase c = ReducePhase then c\<lparr>DistPhase := AllDone\<rparr> else c)"

definition c_Done :: "Coordinator \<Rightarrow> bool" where
  "c_Done c = (DistPhase c = AllDone)"

definition MarkFinished :: "Coordinator \<Rightarrow> Task \<Rightarrow> Coordinator res" where
  "MarkFinished c args =
     (case TaskType args of
        MapTask \<Rightarrow>
          (case map_of (MetaMap c) (TaskId args) of
             None \<Rightarrow> Inr c
           | Some info \<Rightarrow> if mstate info = Working then Inr (set_state c (TaskId args) Done) else Inr c)
      | _ \<Rightarrow> Inl (ExplicitPanic ''The task type undefined ! ! !''))"

text \<open>The reply starts as the zero task.\<close>

definition PollTask :: "Coordinator \<Rightarrow> Coordinator \<times> Task" where
  "PollTask c =
     (case DistPhase c of
        MapPhase \<Rightarrow>
          (case TaskChannelMap c of
             t # rest \<Rightarrow> (fst (judgeState (c\<lparr>TaskChannelMap := rest\<rparr>) (TaskId t)), t)
           | [] \<Rightarrow> (if checkTaskDone c then toNextPhase c else c, zero_task\<lparr>TaskType := WaittingTask\<rparr>))
      | ReducePhase \<Rightarrow>
          (case TaskChannelReduce c of
             t # rest \<Rightarrow> (fst (judgeState (c\<lparr>TaskChannelReduce := rest\<rparr>) (TaskId t)), t)
           | [] \<Rightarrow> (if checkTaskDone c then toNextPhase c else c, zero_task\<lparr>TaskType := WaittingTask\<rparr>))
      | AllDone \<Rightarrow> (c, zero_task\<lparr>TaskType := ExitTask\<rparr>))"

section \<open>The workers\<close>

text \<open>
  What a worker sends to the coordinator: it polls, and after a map or reduce task it calls
  \<^verbatim>\<open>callDone\<close>, which sends an empty task. Any number of workers run at once, so that any sequence of these
  requests may reach the coordinator; \<open>Finish\<close> carries the task that is reported.
\<close>

datatype rpc = Poll | Finish Task

definition callDone_args :: Task where
  "callDone_args = zero_task"

fun handle :: "Coordinator \<Rightarrow> rpc \<Rightarrow> (Coordinator \<times> Task list) res" where
  "handle c Poll = (case PollTask c of (c', t) \<Rightarrow> Inr (c', [t]))"
| "handle c (Finish t) = bindR (MarkFinished c t) (\<lambda>c'. Inr (c', []))"

fun handle_all :: "Coordinator \<Rightarrow> rpc list \<Rightarrow> (Coordinator \<times> Task list) res" where
  "handle_all c [] = Inr (c, [])"
| "handle_all c (r # rs) =
     bindR (handle c r) (\<lambda>(c1, ts). bindR (handle_all c1 rs) (\<lambda>(c2, us). Inr (c2, ts @ us)))"

text \<open>What a worker does with the task it got: the request that follows, and whether its loop goes on.\<close>

definition Worker_next :: "Task \<Rightarrow> rpc option \<times> bool" where
  "Worker_next task =
     (case TaskType task of
        MapTask \<Rightarrow> (Some (Finish callDone_args), True)
      | ReduceTask \<Rightarrow> (Some (Finish callDone_args), True)
      | WaittingTask \<Rightarrow> (None, True)
      | ExitTask \<Rightarrow> (None, False))"

section \<open>Invariant\<close>

text \<open>
  The state of a coordinator is determined by the number \<open>k\<close> of map tasks handed out and the set \<open>D\<close> of
  those reported as finished.
\<close>

definition map_task :: "string list \<Rightarrow> nat \<Rightarrow> nat \<Rightarrow> Task" where
  "map_task fs n i = \<lparr>TaskType = MapTask, TaskId = i, t_ReducerNum = n, FileSlice = [fs ! i]\<rparr>"

definition task_info :: "string list \<Rightarrow> nat \<Rightarrow> nat \<Rightarrow> nat set \<Rightarrow> nat \<Rightarrow> TaskMetaInfo" where
  "task_info fs n k D i =
     \<lparr>mstate = (if i \<in> D then Done else if i < k then Working else Waiting), TaskAdr = map_task fs n i\<rparr>"

definition meta_table :: "string list \<Rightarrow> nat \<Rightarrow> nat \<Rightarrow> nat set \<Rightarrow> nat \<Rightarrow> (nat \<times> TaskMetaInfo) list" where
  "meta_table fs n k D m = map (\<lambda>i. (i, task_info fs n k D i)) (rev [0..<m])"

definition coord_inv :: "string list \<Rightarrow> nat \<Rightarrow> nat \<Rightarrow> nat set \<Rightarrow> Coordinator \<Rightarrow> bool" where
  "coord_inv fs n k D c \<longleftrightarrow>
     MetaMap c = meta_table fs n k D (length fs) \<and>
     TaskChannelMap c = map (map_task fs n) [k..<length fs] \<and> k \<le> length fs \<and> D \<subseteq> {..<k} \<and>
     TaskChannelReduce c = [] \<and> DistPhase c \<noteq> ReducePhase \<and>
     (DistPhase c = AllDone \<longrightarrow> D = {..<length fs} \<and> fs \<noteq> [])"

lemma map_of_meta_table:
  "map_of (meta_table fs n k D m) i = (if i < m then Some (task_info fs n k D i) else None)"
  by (induction m) (auto simp: meta_table_def)

lemma MakeCoordinator_inv: "coord_inv fs n 0 {} (MakeCoordinator fs n)"
proof -
  let ?c = "\<lparr>ReducerNum = n, c_TaskId = 0, DistPhase = MapPhase, TaskChannelReduce = [],
              TaskChannelMap = [], MetaMap = [], files = fs\<rparr>"
  have "foldl makeMapTask ?c (take m fs) =
      ?c\<lparr>c_TaskId := m, TaskChannelMap := map (map_task fs n) [0..<m], MetaMap := meta_table fs n 0 {} m\<rparr>"
    if "m \<le> length fs" for m
    using that
  proof (induction m)
    case (Suc m)
    have new: "map_of (meta_table fs n 0 {} m) m = None" by (simp add: map_of_meta_table)
    have step: "makeMapTask (?c\<lparr>c_TaskId := m, TaskChannelMap := map (map_task fs n) [0..<m],
          MetaMap := meta_table fs n 0 {} m\<rparr>) (fs ! m) =
        ?c\<lparr>c_TaskId := Suc m, TaskChannelMap := map (map_task fs n) [0..<Suc m],
          MetaMap := meta_table fs n 0 {} (Suc m)\<rparr>"
      using new by (simp add: makeMapTask_def generateTaskId_def acceptMeta_def)
        (simp add: meta_table_def task_info_def map_task_def Let_def)
    have "foldl makeMapTask ?c (take (Suc m) fs) = makeMapTask (foldl makeMapTask ?c (take m fs)) (fs ! m)"
      using Suc.prems by (simp add: take_Suc_conv_app_nth)
    also have "foldl makeMapTask ?c (take m fs) = ?c\<lparr>c_TaskId := m, TaskChannelMap := map (map_task fs n) [0..<m],
        MetaMap := meta_table fs n 0 {} m\<rparr>"
      using Suc.prems by (intro Suc.IH) simp
    finally show ?case unfolding step .
  qed (simp add: meta_table_def)
  from this [of "length fs"] show ?thesis
    by (simp add: MakeCoordinator_def makeMapTasks_def coord_inv_def)
qed

lemma set_state_table:
  assumes "MetaMap c = meta_table fs n k D m"
    "\<And>j. j < m \<Longrightarrow> task_info fs n k' D' j = (task_info fs n k D j)\<lparr>mstate := (if j = i then s else mstate (task_info fs n k D j))\<rparr>"
  shows "set_state c i s = c\<lparr>MetaMap := meta_table fs n k' D' m\<rparr>"
  using assms by (auto simp: set_state_def meta_table_def)

lemma checkTaskDone_inv:
  assumes "coord_inv fs n k D c"
  shows "checkTaskDone c \<longleftrightarrow> fs \<noteq> [] \<and> D = {..<length fs}"
proof -
  let ?m = "length fs"
  have D: "D \<subseteq> {..<?m}" using assms by (auto simp: coord_inv_def)
  have S: "set (map snd (MetaMap c)) = task_info fs n k D ` {..<?m}"
    using assms by (auto simp: coord_inv_def meta_table_def)
  have info: "TaskType (TaskAdr (task_info fs n k D i)) = MapTask" "mstate (task_info fs n k D i) = Done \<longleftrightarrow> i \<in> D" for i
    by (simp_all add: task_info_def map_task_def)
  have "checkTaskDone c \<longleftrightarrow> (\<exists>i<?m. i \<in> D) \<and> (\<forall>i<?m. i \<in> D)"
    unfolding checkTaskDone_def Let_def length_greater_0_conv length_0_conv filter_empty_conv S
    by (auto simp: info)
  then show ?thesis using D by auto
qed

lemma PollTask_inv:
  assumes "coord_inv fs n k D c"
  shows "(if DistPhase c = MapPhase \<and> k < length fs
    then snd (PollTask c) = map_task fs n k \<and> coord_inv fs n (Suc k) D (fst (PollTask c))
    else TaskType (snd (PollTask c)) \<in> {WaittingTask, ExitTask} \<and> coord_inv fs n k D (fst (PollTask c)))"
proof (cases "DistPhase c = MapPhase")
  case False
  then have "DistPhase c = AllDone" using assms by (cases "DistPhase c") (auto simp: coord_inv_def)
  then show ?thesis using assms by (simp add: PollTask_def)
next
  case mp: True
  show ?thesis
  proof (cases "k < length fs")
    case True
    let ?rest = "map (map_task fs n) [Suc k..<length fs]"
    have ch: "TaskChannelMap c = map_task fs n k # ?rest"
      using assms True by (simp add: coord_inv_def upt_conv_Cons)
    have tab: "MetaMap c = meta_table fs n k D (length fs)" and D: "D \<subseteq> {..<k}"
      using assms by (simp_all add: coord_inv_def)
    have w: "mstate (task_info fs n k D k) = Waiting" using D by (auto simp: task_info_def)
    have "set_state (c\<lparr>TaskChannelMap := ?rest\<rparr>) k Working =
        c\<lparr>TaskChannelMap := ?rest, MetaMap := meta_table fs n (Suc k) D (length fs)\<rparr>"
      using D by (subst set_state_table [where k' = "Suc k" and D' = D and m = "length fs", OF _])
        (auto simp: tab task_info_def)
    then have "PollTask c = (c\<lparr>TaskChannelMap := ?rest, MetaMap := meta_table fs n (Suc k) D (length fs)\<rparr>, map_task fs n k)"
      using True w by (simp add: PollTask_def mp ch judgeState_def tab map_of_meta_table map_task_def)
    moreover have "D \<subseteq> {..<Suc k}" using D by auto
    ultimately show ?thesis using assms True mp by (simp add: coord_inv_def)
  next
    case False
    then have "TaskChannelMap c = []" using assms by (simp add: coord_inv_def)
    then show ?thesis
      using assms False mp checkTaskDone_inv [OF assms]
      by (auto simp: PollTask_def toNextPhase_def coord_inv_def)
  qed
qed

lemma MarkFinished_inv:
  assumes "coord_inv fs n k D c" "TaskType t = MapTask"
  shows "\<exists>c'. MarkFinished c t = Inr c' \<and>
    coord_inv fs n k (if TaskId t < k then insert (TaskId t) D else D) c'"
proof -
  let ?i = "TaskId t" let ?m = "length fs"
  have tab: "MetaMap c = meta_table fs n k D ?m" and k: "k \<le> ?m" "D \<subseteq> {..<k}"
    using assms(1) by (simp_all add: coord_inv_def)
  show ?thesis
  proof (cases "?i < k \<and> ?i \<notin> D")
    case True
    then have lt: "?i < ?m" using k by auto
    have w: "mstate (task_info fs n k D ?i) = Working" using True by (simp add: task_info_def)
    have "set_state c ?i Done = c\<lparr>MetaMap := meta_table fs n k (insert ?i D) ?m\<rparr>"
      using True by (subst set_state_table [where k' = k and D' = "insert ?i D", OF tab]) (auto simp: task_info_def)
    then have "MarkFinished c t = Inr (c\<lparr>MetaMap := meta_table fs n k (insert ?i D) ?m\<rparr>)"
      using assms(2) lt w by (simp add: MarkFinished_def tab map_of_meta_table)
    moreover have "DistPhase c \<noteq> AllDone" using assms(1) True lt by (auto simp: coord_inv_def)
    ultimately show ?thesis using assms(1) True by (auto simp: coord_inv_def)
  next
    case False
    then have "mstate (task_info fs n k D ?i) \<noteq> Working" by (auto simp: task_info_def)
    then have "MarkFinished c t = Inr c"
      using assms(2) by (simp add: MarkFinished_def tab map_of_meta_table)
    moreover have "insert ?i D = D" if "?i < k" using False that by auto
    ultimately show ?thesis using assms(1) by (cases "?i < k") auto
  qed
qed

section \<open>Results\<close>

definition map_report :: "rpc \<Rightarrow> bool" where
  "map_report r = (case r of Poll \<Rightarrow> True | Finish t \<Rightarrow> TaskType t = MapTask)"

definition reported :: "rpc list \<Rightarrow> nat set" where
  "reported rs = {TaskId t | t. Finish t \<in> set rs}"

definition given :: "Task list \<Rightarrow> Task list" where
  "given ts = filter (\<lambda>t. TaskType t = MapTask) ts"

lemma handle_all_inv:
  assumes "coord_inv fs n k D c" "list_all map_report rs"
  shows "\<exists>c' ts k' D'. handle_all c rs = Inr (c', ts) \<and> coord_inv fs n k' D' c' \<and> k \<le> k' \<and>
    given ts = map (map_task fs n) [k..<k'] \<and> D \<subseteq> D' \<and> D' \<subseteq> D \<union> reported rs \<and>
    (\<forall>t \<in> set ts. TaskType t \<noteq> ReduceTask)"
  using assms
proof (induction rs arbitrary: c k D)
  case Nil
  then show ?case by (auto simp: given_def reported_def)
next
  case (Cons r rs)
  have rest: "list_all map_report rs" using Cons.prems(2) by simp
  show ?case
  proof (cases r)
    case Poll
    let ?c = "fst (PollTask c)" let ?t = "snd (PollTask c)"
    let ?k = "if DistPhase c = MapPhase \<and> k < length fs then Suc k else k"
    have p: "coord_inv fs n ?k D ?c" "k \<le> ?k" "given [?t] = map (map_task fs n) [k..<?k]" "TaskType ?t \<noteq> ReduceTask"
      using PollTask_inv [OF Cons.prems(1)] by (auto simp: given_def map_task_def split: if_splits)
    from Cons.IH [OF p(1) rest] obtain c' ts k' D' where ih: "handle_all ?c rs = Inr (c', ts)"
      "coord_inv fs n k' D' c'" "?k \<le> k'" "given ts = map (map_task fs n) [?k..<k']" "D \<subseteq> D'"
      "D' \<subseteq> D \<union> reported rs" "\<forall>t \<in> set ts. TaskType t \<noteq> ReduceTask" by blast
    have "handle_all c (r # rs) = Inr (c', [?t] @ ts)"
      using ih(1) by (simp add: Poll case_prod_beta)
    moreover have "given ([?t] @ ts) = given [?t] @ given ts" by (simp add: given_def)
    moreover have "[k..<?k] @ [?k..<k'] = [k..<k']" using p(2) ih(3) by (metis le_iff_add upt_add_eq_append)
    then have "map (map_task fs n) [k..<?k] @ map (map_task fs n) [?k..<k'] = map (map_task fs n) [k..<k']"
      by (metis map_append)
    moreover have "reported (r # rs) = reported rs" by (auto simp: reported_def Poll)
    ultimately show ?thesis using p ih by (intro exI [of _ c'] exI [of _ "[?t] @ ts"] exI [of _ k'] exI [of _ D']) auto
  next
    case (Finish t)
    with Cons.prems(2) have "TaskType t = MapTask" by (simp add: map_report_def)
    from MarkFinished_inv [OF Cons.prems(1) this] obtain c1 where c1: "MarkFinished c t = Inr c1"
      "coord_inv fs n k (if TaskId t < k then insert (TaskId t) D else D) c1" by blast
    let ?D = "if TaskId t < k then insert (TaskId t) D else D"
    from Cons.IH [OF c1(2) rest] obtain c' ts k' D' where ih: "handle_all c1 rs = Inr (c', ts)"
      "coord_inv fs n k' D' c'" "k \<le> k'" "given ts = map (map_task fs n) [k..<k']" "?D \<subseteq> D'"
      "D' \<subseteq> ?D \<union> reported rs" "\<forall>t \<in> set ts. TaskType t \<noteq> ReduceTask" by blast
    have "reported (r # rs) = insert (TaskId t) (reported rs)" by (auto simp: reported_def Finish)
    with ih c1(1) show ?thesis
      by (intro exI [of _ c'] exI [of _ ts] exI [of _ k'] exI [of _ D']) (auto simp: Finish split: if_splits)
  qed
qed



text \<open>
  C39. With more than one input file the job never ends: workers report with \<^verbatim>\<open>callDone\<close>, which sends an empty
  task, so that only task 0 is ever marked, and whatever the workers do \<^verbatim>\<open>Done()\<close> stays false.
\<close>

theorem job_never_done:
  assumes "2 \<le> length fs" "set rs \<subseteq> {Poll, Finish callDone_args}"
  shows "\<exists>c ts. handle_all (MakeCoordinator fs n) rs = Inr (c, ts) \<and> \<not> c_Done c"
proof -
  have all: "list_all map_report rs"
    using assms(2) by (auto simp: list_all_iff map_report_def callDone_args_def zero_task_def)
  from handle_all_inv [OF MakeCoordinator_inv all, of fs n] obtain c ts k D where
    h: "handle_all (MakeCoordinator fs n) rs = Inr (c, ts)" "coord_inv fs n k D c" "D \<subseteq> reported rs"
    by (metis Un_empty_left)
  have "reported rs \<subseteq> {0}" using assms(2) by (auto simp: reported_def callDone_args_def zero_task_def)
  then have "1 \<notin> D" using h(3) by auto
  then have "D \<noteq> {..<length fs}" using assms(1) by auto
  with h(2) have "\<not> c_Done c" by (auto simp: coord_inv_def c_Done_def)
  with h(1) show ?thesis by blast
qed

theorem job_never_done_witness:
  "\<exists>c ts. handle_all (MakeCoordinator [''a'', ''b''] 3) [Poll, Poll, Finish callDone_args, Finish callDone_args, Poll] =
     Inr (c, ts) \<and> \<not> c_Done c"
  by (rule job_never_done) auto

text \<open>
  A report about a reduce task stops the coordinator: \<^verbatim>\<open>MarkFinished\<close> knows map tasks only and panics on every
  other type of task.
\<close>

lemma MarkFinished_reduce_panics:
  "returns (MarkFinished c t) \<longleftrightarrow> TaskType t = MapTask"
  by (auto simp: MarkFinished_def split: TaskType.splits option.splits)

end
