(* ===== verification/MR_Worker.thy ===== *)
theory MR_Worker
  imports MR_Coordinator "HOL-Library.List_Lexorder" "HOL-Library.Char_ord"
begin

text \<open>
  The data path of MapReduce: partitioning of the map output by the hash of the key, the names of the intermediate
  files, the shuffle and the reduce loop of src/mr/worker.go, the sequential program
  src/main/mrsequential.go, and the applications src/mrapps/wc.go and src/mrapps/indexer.go.

  An intermediate file is the list of the pairs in it (it is written and read by \<^verbatim>\<open>encoding/json\<close>). \<^verbatim>\<open>sort.Sort\<close>
  is not stable: it is the parameter \<open>srt\<close>, of which only \<open>sorts srt\<close> is known. A map or reduce function
  comes from a plugin and is a parameter too.
\<close>

record KeyValue =
  Key :: string
  Value :: string

section \<open>The map task\<close>

definition fnv32a :: "8 word list \<Rightarrow> 32 word" where
  "fnv32a bs = foldl (\<lambda>h b. (xor h (ucast b)) * 16777619) 2166136261 bs"

definition ihash :: "string \<Rightarrow> int" where
  "ihash key = uint (and (fnv32a (map of_char key)) 0x7fffffff)"

definition put_bucket :: "nat \<Rightarrow> KeyValue list list \<Rightarrow> KeyValue \<Rightarrow> KeyValue list list res" where
  "put_bucket rn buckets kv =
     (if rn = 0 then Inl DivideByZero
      else let i = ihash (Key kv) mod int rn
           in bindR (index buckets i) (\<lambda>b. set_index buckets i (b @ [kv])))"

definition partition_kvs :: "nat \<Rightarrow> KeyValue list \<Rightarrow> KeyValue list list res" where
  "partition_kvs rn kvs = foldR (put_bucket rn) (replicate rn []) kvs"

definition tmp_name :: "nat \<Rightarrow> nat \<Rightarrow> string" where
  "tmp_name task i = ''mr-tmp-'' @ Itoa task @ ''-'' @ Itoa i"

type_synonym dir = "(string \<times> KeyValue list) list" \<comment> \<open>newest file first\<close>

text \<open>\<open>content\<close> is the text of the task's file; the directory gets one file per reducer.\<close>

definition DoMapTask ::
  "(string \<Rightarrow> string \<Rightarrow> KeyValue list) \<Rightarrow> (string \<Rightarrow> string option) \<Rightarrow> dir \<Rightarrow> Task \<Rightarrow> dir res" where
  "DoMapTask mapf input d task =
     bindR (index (FileSlice task) 0) (\<lambda>filename.
       case input filename of
         None \<Rightarrow> Inl (LogFatal ''cannot open'')
       | Some content \<Rightarrow>
           bindR (partition_kvs (t_ReducerNum task) (mapf filename content)) (\<lambda>HashedKV.
             Inr (foldl (\<lambda>d i. (tmp_name (TaskId task) i, HashedKV ! i) # d) d [0..<t_ReducerNum task])))"

section \<open>The reduce task\<close>

definition HasPrefix :: "string \<Rightarrow> string \<Rightarrow> bool" where
  "HasPrefix s p \<longleftrightarrow> length p \<le> length s \<and> take (length p) s = p"

definition HasSuffix :: "string \<Rightarrow> string \<Rightarrow> bool" where
  "HasSuffix s p \<longleftrightarrow> length p \<le> length s \<and> drop (length s - length p) s = p"

definition selectReduceName :: "string list \<Rightarrow> nat \<Rightarrow> string list" where
  "selectReduceName names r = filter (\<lambda>f. HasPrefix f ''mr-tmp'' \<and> HasSuffix f (Itoa r)) names"

definition sorts :: "(KeyValue list \<Rightarrow> KeyValue list) \<Rightarrow> bool" where
  "sorts srt \<longleftrightarrow> (\<forall>kvs. mset (srt kvs) = mset kvs \<and> sorted (map Key (srt kvs)))"

text \<open>The loop over the files; a file that cannot be opened ends the function with nil.\<close>

fun read_files :: "dir \<Rightarrow> string list \<Rightarrow> KeyValue list option" where
  "read_files d [] = Some []"
| "read_files d (f # fs) =
     (case map_of d f of
        None \<Rightarrow> None
      | Some kvs \<Rightarrow> (case read_files d fs of None \<Rightarrow> None | Some rest \<Rightarrow> Some (kvs @ rest)))"

definition shuffle :: "(KeyValue list \<Rightarrow> KeyValue list) \<Rightarrow> dir \<Rightarrow> string list \<Rightarrow> KeyValue list" where
  "shuffle srt d fs = (case read_files d fs of None \<Rightarrow> [] | Some kvs \<Rightarrow> srt kvs)"

text \<open>The nested loops over \<^verbatim>\<open>i\<close> and \<^verbatim>\<open>j\<close>: maximal runs of pairs that are the same as the first one.\<close>

function runs :: "('a \<Rightarrow> 'a \<Rightarrow> bool) \<Rightarrow> 'a list \<Rightarrow> 'a list list" where
  "runs same [] = []"
| "runs same (x # xs) = (x # takeWhile (\<lambda>y. same y x) xs) # runs same (dropWhile (\<lambda>y. same y x) xs)"
  by pat_completeness auto
termination
  by (relation "measure (\<lambda>(_, xs). length xs)") (auto simp: le_imp_less_Suc length_dropWhile_le)

definition reduce_runs ::
  "(string \<Rightarrow> string list \<Rightarrow> string) \<Rightarrow> KeyValue list list \<Rightarrow> (string \<times> string) list" where
  "reduce_runs reducef gs = map (\<lambda>g. (Key (hd g), reducef (Key (hd g)) (map Value g))) gs"

text \<open>The lines of the output file, as pairs of key and result.\<close>

definition DoReduceTask ::
  "(KeyValue list \<Rightarrow> KeyValue list) \<Rightarrow> (string \<Rightarrow> string list \<Rightarrow> string) \<Rightarrow> dir \<Rightarrow> Task \<Rightarrow> (string \<times> string) list" where
  "DoReduceTask srt reducef d task =
     reduce_runs reducef (runs (\<lambda>y x. y = x) (shuffle srt d (FileSlice task)))"

definition out_name :: "Task \<Rightarrow> string" where
  "out_name task = ''mr-out-'' @ Itoa (TaskId task)"

section \<open>The sequential program\<close>

definition sequential_intermediate ::
  "(string \<Rightarrow> string \<Rightarrow> KeyValue list) \<Rightarrow> (string \<times> string) list \<Rightarrow> KeyValue list" where
  "sequential_intermediate mapf inputs = concat (map (\<lambda>(filename, content). mapf filename content) inputs)"

definition mrsequential ::
  "(KeyValue list \<Rightarrow> KeyValue list) \<Rightarrow> (string \<Rightarrow> string \<Rightarrow> KeyValue list) \<Rightarrow>
     (string \<Rightarrow> string list \<Rightarrow> string) \<Rightarrow> (string \<times> string) list \<Rightarrow> (string \<times> string) list" where
  "mrsequential srt mapf reducef inputs =
     reduce_runs reducef (runs (\<lambda>y x. Key y = Key x) (srt (sequential_intermediate mapf inputs)))"

section \<open>Applications\<close>

text \<open>\<^verbatim>\<open>strings.FieldsFunc\<close>: the maximal runs of characters that are not separators.\<close>

function FieldsFunc :: "string \<Rightarrow> (char \<Rightarrow> bool) \<Rightarrow> string list" where
  "FieldsFunc [] sep = []"
| "FieldsFunc (c # cs) sep =
     (if sep c then FieldsFunc cs sep
      else (c # takeWhile (\<lambda>x. \<not> sep x) cs) # FieldsFunc (dropWhile (\<lambda>x. \<not> sep x) cs) sep)"
  by pat_completeness auto
termination
  by (relation "measure (\<lambda>(cs, _). length cs)") (auto simp: le_imp_less_Suc length_dropWhile_le)

definition wc_Map :: "(char \<Rightarrow> bool) \<Rightarrow> string \<Rightarrow> string \<Rightarrow> KeyValue list" where
  "wc_Map isLetter filename contents =
     map (\<lambda>w. \<lparr>Key = w, Value = ''1''\<rparr>) (FieldsFunc contents (\<lambda>r. \<not> isLetter r))"

definition wc_Reduce :: "string \<Rightarrow> string list \<Rightarrow> string" where
  "wc_Reduce key values = Itoa (length values)"

text \<open>A loop over a Go map visits the keys in any order; \<open>order\<close> lists the elements of the set of words.\<close>

definition indexer_Map :: "(char \<Rightarrow> bool) \<Rightarrow> (string list \<Rightarrow> string list) \<Rightarrow> string \<Rightarrow> string \<Rightarrow> KeyValue list" where
  "indexer_Map isLetter order document val =
     map (\<lambda>w. \<lparr>Key = w, Value = document\<rparr>) (order (remdups (FieldsFunc val (\<lambda>x. \<not> isLetter x))))"

fun Join :: "string list \<Rightarrow> string \<Rightarrow> string" where
  "Join [] sep = []"
| "Join [x] sep = x"
| "Join (x # y # ys) sep = x @ sep @ Join (y # ys) sep"

definition indexer_Reduce :: "string \<Rightarrow> string list \<Rightarrow> string" where
  "indexer_Reduce key values = Itoa (length values) @ '' '' @ Join (sort values) '',''"

section \<open>Partitioning\<close>

lemma ihash_bounds: "0 \<le> ihash key \<and> ihash key < 2 ^ 31"
proof -
  have "ihash key = and (uint (fnv32a (map of_char key))) (2 ^ 31 - 1)"
    by (simp add: ihash_def uint_and)
  then have "ihash key = take_bit 31 (uint (fnv32a (map of_char key)))"
    by (simp add: take_bit_eq_mask mask_eq_exp_minus_1)
  then show ?thesis using take_bit_int_less_exp [of 31] by (simp add: take_bit_nonnegative)
qed

definition bucket :: "nat \<Rightarrow> string \<Rightarrow> nat" where
  "bucket rn key = nat (ihash key mod int rn)"

lemma bucket_less [simp]: "0 < rn \<Longrightarrow> bucket rn key < rn"
  by (simp add: bucket_def nat_less_iff)

lemma put_bucket_ok:
  assumes "0 < rn" "length bs = rn"
  shows "put_bucket rn bs kv = Inr (bs[bucket rn (Key kv) := bs ! bucket rn (Key kv) @ [kv]])"
proof -
  have "ihash (Key kv) mod int rn = int (bucket rn (Key kv))" using assms by (simp add: bucket_def)
  then show ?thesis
    using assms by (simp add: put_bucket_def Let_def set_index_def)
qed

lemma partition_fold:
  assumes "0 < rn" "length bs = rn"
  shows "foldR (put_bucket rn) bs kvs =
    Inr (map (\<lambda>r. bs ! r @ filter (\<lambda>kv. bucket rn (Key kv) = r) kvs) [0..<rn])"
  using assms(2)
proof (induction kvs arbitrary: bs)
  case Nil
  then show ?case using map_nth [of bs] by simp
next
  case (Cons kv kvs)
  then show ?case
    using assms(1) by (auto simp: put_bucket_ok nth_list_update)
qed

text \<open>
  Partitioning the output of a map task: with a positive number of reducers it never panics, and reducer \<open>r\<close>
  gets exactly the pairs whose key hashes to \<open>r\<close>, in their order; so all pairs of one key go to one reducer.
\<close>

lemma partition_by_key:
  assumes "0 < rn"
  shows "partition_kvs rn kvs = Inr (map (\<lambda>r. filter (\<lambda>kv. bucket rn (Key kv) = r) kvs) [0..<rn])"
  using assms by (simp add: partition_kvs_def partition_fold)

section \<open>Names of intermediate files\<close>

lemma HasSuffix_append: "HasSuffix (xs @ ys) ys"
  by (simp add: HasSuffix_def)

lemma HasSuffix_single: "HasSuffix (xs @ [c]) [d] \<longleftrightarrow> c = d"
  by (simp add: HasSuffix_def)

lemma digit_inject: "i < 10 \<Longrightarrow> j < 10 \<Longrightarrow> digit i = digit j \<longleftrightarrow> i = j"
  unfolding digit_def by (subst of_char_eq_iff [symmetric]) (simp add: of_char_of)

lemma selectReduceName_tmp:
  assumes "i < 10" "r < 10"
  shows "HasPrefix (tmp_name t i) ''mr-tmp'' \<and> HasSuffix (tmp_name t i) (Itoa r) \<longleftrightarrow> i = r"
proof -
  have "tmp_name t i = (''mr-tmp-'' @ Itoa t @ ''-'') @ [digit i]"
    using assms(1) by (simp add: tmp_name_def Itoa.simps)
  moreover have "Itoa r = [digit r]" using assms(2) by (simp add: Itoa.simps)
  ultimately have "HasSuffix (tmp_name t i) (Itoa r) \<longleftrightarrow> digit i = digit r" using HasSuffix_single by metis
  then show ?thesis using assms digit_inject by (simp add: HasPrefix_def tmp_name_def)
qed

text \<open>With eleven reducers, reducer 0 also reads the files meant for reducer 10.\<close>

lemma selectReduceName_eleven:
  "tmp_name task 10 \<in> set (selectReduceName [tmp_name task 0, tmp_name task 10] 0)"
  by (simp add: selectReduceName_def HasPrefix_def HasSuffix_def tmp_name_def Itoa.simps digit_def)

section \<open>Grouping\<close>

definition keys :: "KeyValue list \<Rightarrow> string list" where
  "keys kvs = sorted_list_of_set (Key ` set kvs)"

lemma sorted_span:
  fixes x :: KeyValue
  assumes "sorted (map Key (x # xs))"
  shows "takeWhile (\<lambda>y. Key y = Key x) xs = filter (\<lambda>y. Key y = Key x) xs"
    "dropWhile (\<lambda>y. Key y = Key x) xs = filter (\<lambda>y. Key y \<noteq> Key x) xs"
  using assms
proof (induction xs)
  case (Cons y ys)
  { case 1
    then show ?case
    proof (cases "Key y = Key x")
      case False
      with 1 have "\<forall>z \<in> set (y # ys). Key z \<noteq> Key x" by auto
      then show ?thesis by (auto simp: filter_empty_conv)
    qed (use Cons.IH in simp)
  next
    case 2
    then show ?case
    proof (cases "Key y = Key x")
      case False
      with 2 have "\<forall>z \<in> set (y # ys). Key z \<noteq> Key x" by auto
      then show ?thesis by (auto simp: filter_id_conv)
    qed (use Cons.IH in simp)
  }
qed auto

lemma keys_Cons:
  fixes x :: KeyValue
  assumes "sorted (map Key (x # xs))"
  shows "keys (x # xs) = Key x # keys (filter (\<lambda>y. Key y \<noteq> Key x) xs)"
proof -
  let ?S = "Key ` set (filter (\<lambda>y. Key y \<noteq> Key x) xs)"
  have "Key ` set (x # xs) = insert (Key x) ?S" by auto
  moreover have "\<forall>k \<in> ?S. Key x < k" using assms by auto
  then have "sorted_list_of_set (insert (Key x) ?S) = Key x # sorted_list_of_set ?S"
    using insort_is_Cons [of "sorted_list_of_set ?S" "\<lambda>k. k" "Key x"]
    by (subst sorted_list_of_set_insert) (auto simp: less_imp_le)
  ultimately show ?thesis by (simp add: keys_def)
qed

lemma runs_by_key:
  fixes l :: "KeyValue list"
  assumes "sorted (map Key l)"
  shows "runs (\<lambda>y x. Key y = Key x) l = map (\<lambda>k. filter (\<lambda>kv. Key kv = k) l) (keys l)"
  using assms
proof (induction "\<lambda>(y :: KeyValue) (x :: KeyValue). Key y = Key x" l rule: runs.induct)
  case 1
  then show ?case by (simp add: keys_def)
next
  case (2 x xs)
  let ?d = "filter (\<lambda>y. Key y \<noteq> Key x) xs"
  note span = sorted_span [OF 2(2)]
  have "sorted (map Key ?d)" using 2(2) by (simp add: sorted_filter)
  with 2(1) span have ih: "runs (\<lambda>y x. Key y = Key x) ?d = map (\<lambda>k. filter (\<lambda>kv. Key kv = k) ?d) (keys ?d)"
    by simp
  have "filter (\<lambda>kv. Key kv = k) ?d = filter (\<lambda>kv. Key kv = k) (x # xs)" if "k \<in> set (keys ?d)" for k
  proof -
    have "k \<noteq> Key x" using that by (auto simp: keys_def)
    then show ?thesis by (auto intro: filter_cong)
  qed
  then show ?case using ih span by (simp add: keys_Cons [OF 2(2)] del: filter_filter)
qed

lemma sortsD:
  assumes "sorts srt"
  shows "mset (srt kvs) = mset kvs" "sorted (map Key (srt kvs))" "set (srt kvs) = set kvs" "keys (srt kvs) = keys kvs"
proof -
  show m: "mset (srt kvs) = mset kvs" "sorted (map Key (srt kvs))" using assms by (auto simp: sorts_def)
  show "set (srt kvs) = set kvs" using m(1) by (rule mset_eq_setD)
  then show "keys (srt kvs) = keys kvs" by (simp add: keys_def)
qed

lemma reduce_runs_by_key:
  assumes "sorted (map Key l)"
  shows "reduce_runs reducef (runs (\<lambda>y x. Key y = Key x) l) =
    map (\<lambda>k. (k, reducef k (map Value (filter (\<lambda>kv. Key kv = k) l)))) (keys l)"
proof -
  have "Key (hd (filter (\<lambda>kv. Key kv = k) l)) = k" if k: "k \<in> set (keys l)" for k
  proof -
    from k have "filter (\<lambda>kv. Key kv = k) l \<noteq> []" by (auto simp: keys_def filter_empty_conv)
    then show ?thesis using hd_in_set by fastforce
  qed
  then show ?thesis by (simp add: reduce_runs_def runs_by_key [OF assms])
qed

text \<open>
  The sequential program: whatever order \<^verbatim>\<open>sort.Sort\<close> leaves among equal keys, the output has
  exactly one line per key that the map function produced, in increasing order of the keys, and its result is
  \<^verbatim>\<open>reducef\<close> applied to a list of exactly the values of that key.
\<close>

lemma mrsequential_correct:
  assumes "sorts srt"
  shows "\<exists>vals. (\<forall>k. mset (vals k) =
      mset (map Value (filter (\<lambda>kv. Key kv = k) (sequential_intermediate mapf inputs)))) \<and>
    mrsequential srt mapf reducef inputs =
      map (\<lambda>k. (k, reducef k (vals k))) (keys (sequential_intermediate mapf inputs))"
proof -
  let ?kvs = "sequential_intermediate mapf inputs"
  note s = sortsD [OF assms, of ?kvs]
  have "mset (map Value (filter (\<lambda>kv. Key kv = k) (srt ?kvs))) = mset (map Value (filter (\<lambda>kv. Key kv = k) ?kvs))" for k
    by (simp add: s(1))
  then show ?thesis
    unfolding mrsequential_def reduce_runs_by_key [OF s(2)] s(4)
    by (intro exI [of _ "\<lambda>k. map Value (filter (\<lambda>kv. Key kv = k) (srt ?kvs))"]) simp
qed

lemma sorts_sort_key: "sorts (sort_key Key)"
  by (simp add: sorts_def)

definition words :: "(char \<Rightarrow> bool) \<Rightarrow> (string \<times> string) list \<Rightarrow> string list" where
  "words isLetter inputs = concat (map (\<lambda>(_, content). FieldsFunc content (\<lambda>r. \<not> isLetter r)) inputs)"

lemma wc_intermediate:
  "sequential_intermediate (wc_Map isLetter) inputs = map (\<lambda>w. \<lparr>Key = w, Value = ''1''\<rparr>) (words isLetter inputs)"
  by (induction inputs) (auto simp: sequential_intermediate_def wc_Map_def words_def)

lemma length_filter_count: "length (filter (\<lambda>y. y = x) xs) = count_list xs x"
  by (induction xs) auto

text \<open>
  Word count: the sequential program with \<^verbatim>\<open>wc.go\<close> prints, for every word that occurs in the input files and in increasing
  order, the number of its occurrences over all files.
\<close>

lemma word_count_correct:
  assumes "sorts srt"
  shows "mrsequential srt (wc_Map isLetter) wc_Reduce inputs =
    map (\<lambda>w. (w, Itoa (count_list (words isLetter inputs) w))) (sorted_list_of_set (set (words isLetter inputs)))"
proof -
  let ?kvs = "sequential_intermediate (wc_Map isLetter) inputs"
  note s = sortsD [OF assms, of ?kvs]
  have "length (filter (\<lambda>kv. Key kv = k) (srt ?kvs)) = count_list (words isLetter inputs) k" for k
  proof -
    have "length (filter (\<lambda>kv. Key kv = k) (srt ?kvs)) = length (filter (\<lambda>kv. Key kv = k) ?kvs)"
      by (metis mset_filter s(1) size_mset)
    then show ?thesis by (simp add: wc_intermediate filter_map o_def length_filter_count)
  qed
  moreover have "keys ?kvs = sorted_list_of_set (set (words isLetter inputs))"
    by (simp add: keys_def wc_intermediate image_image)
  ultimately show ?thesis
    unfolding mrsequential_def reduce_runs_by_key [OF s(2)] s(4) by (simp add: wc_Reduce_def)
qed

section \<open>The reduce task and the sequential program\<close>

definition uniform_values :: "KeyValue list \<Rightarrow> bool" where
  "uniform_values kvs \<longleftrightarrow> (\<forall>x \<in> set kvs. \<forall>y \<in> set kvs. Key x = Key y \<longrightarrow> x = y)"

lemma runs_cong:
  "(\<And>x y. x \<in> set l \<Longrightarrow> y \<in> set l \<Longrightarrow> same y x = same' y x) \<Longrightarrow> runs same l = runs same' l"
proof (induction same l rule: runs.induct)
  case (2 same x xs)
  have "takeWhile (\<lambda>y. same y x) xs = takeWhile (\<lambda>y. same' y x) xs"
    "dropWhile (\<lambda>y. same y x) xs = dropWhile (\<lambda>y. same' y x) xs"
    using 2(2) by (auto intro: takeWhile_cong dropWhile_cong)
  moreover have "runs same (dropWhile (\<lambda>y. same y x) xs) = runs same' (dropWhile (\<lambda>y. same y x) xs)"
    using 2(2) by (intro 2(1)) (auto dest: set_dropWhileD)
  ultimately show ?case by simp
qed simp

lemma filter_key_uniform:
  assumes "uniform_values kvs" "mset l = mset kvs"
  shows "filter (\<lambda>kv. Key kv = k) l = filter (\<lambda>kv. Key kv = k) kvs"
proof -
  have set: "set l = set kvs" using assms(2) by (rule mset_eq_setD)
  have len: "length (filter (\<lambda>kv. Key kv = k) l) = length (filter (\<lambda>kv. Key kv = k) kvs)"
    using assms(2) by (metis mset_filter size_mset)
  show ?thesis
  proof (rule nth_equalityI [OF len])
    fix i assume i: "i < length (filter (\<lambda>kv. Key kv = k) l)"
    have "filter (\<lambda>kv. Key kv = k) l ! i \<in> set kvs \<and> Key (filter (\<lambda>kv. Key kv = k) l ! i) = k"
      using nth_mem [OF i] set by auto
    moreover have "filter (\<lambda>kv. Key kv = k) kvs ! i \<in> set kvs \<and> Key (filter (\<lambda>kv. Key kv = k) kvs ! i) = k"
      using nth_mem [of i "filter (\<lambda>kv. Key kv = k) kvs"] i len by auto
    ultimately show "filter (\<lambda>kv. Key kv = k) l ! i = filter (\<lambda>kv. Key kv = k) kvs ! i"
      using assms(1) by (auto simp: uniform_values_def)
  qed
qed

definition reduce_spec :: "(string \<Rightarrow> string list \<Rightarrow> string) \<Rightarrow> KeyValue list \<Rightarrow> string \<Rightarrow> string \<times> string" where
  "reduce_spec reducef kvs k = (k, reducef k (map Value (filter (\<lambda>kv. Key kv = k) kvs)))"

lemma reduce_uniform:
  assumes "sorts srt" "uniform_values kvs"
  shows "reduce_runs reducef (runs (\<lambda>y x. y = x) (srt kvs)) = map (reduce_spec reducef kvs) (keys kvs)"
    "reduce_runs reducef (runs (\<lambda>y x. Key y = Key x) (srt kvs)) = map (reduce_spec reducef kvs) (keys kvs)"
proof -
  note s = sortsD [OF assms(1), of kvs]
  show k: "reduce_runs reducef (runs (\<lambda>y x. Key y = Key x) (srt kvs)) = map (reduce_spec reducef kvs) (keys kvs)"
    unfolding reduce_runs_by_key [OF s(2)] s(4)
    using filter_key_uniform [OF assms(2) s(1)] by (simp add: reduce_spec_def)
  have "runs (\<lambda>y x. y = x) (srt kvs) = runs (\<lambda>y x. Key y = Key x) (srt kvs)"
    using assms(2) s(3) by (intro runs_cong) (auto simp: uniform_values_def)
  then show "reduce_runs reducef (runs (\<lambda>y x. y = x) (srt kvs)) = map (reduce_spec reducef kvs) (keys kvs)"
    using k by simp
qed

section \<open>The distributed job\<close>

text \<open>
  The map phase runs every map task of the coordinator in an empty directory; the reduce task of reducer \<open>r\<close>
  then gets the files that \<^verbatim>\<open>selectReduceName\<close> picks from the listing \<open>names\<close> of the directory.
\<close>

definition map_phase ::
  "(string \<Rightarrow> string \<Rightarrow> KeyValue list) \<Rightarrow> nat \<Rightarrow> (string \<times> string) list \<Rightarrow> dir res" where
  "map_phase mapf rn inputs =
     foldR (DoMapTask mapf (map_of inputs)) []
       (map (map_task (map fst inputs) rn) [0..<length inputs])"

definition reduce_task :: "string list \<Rightarrow> nat \<Rightarrow> nat \<Rightarrow> Task" where
  "reduce_task names i r = \<lparr>TaskType = ReduceTask, TaskId = i, t_ReducerNum = 0, FileSlice = selectReduceName names r\<rparr>"

definition part :: "nat \<Rightarrow> nat \<Rightarrow> KeyValue list \<Rightarrow> KeyValue list" where
  "part rn r kvs = filter (\<lambda>kv. bucket rn (Key kv) = r) kvs"

definition map_output :: "(string \<Rightarrow> string \<Rightarrow> KeyValue list) \<Rightarrow> (string \<times> string) list \<Rightarrow> nat \<Rightarrow> KeyValue list" where
  "map_output mapf inputs t = mapf (fst (inputs ! t)) (snd (inputs ! t))"

definition task_files :: "(string \<Rightarrow> string \<Rightarrow> KeyValue list) \<Rightarrow> nat \<Rightarrow> (string \<times> string) list \<Rightarrow> nat \<Rightarrow> dir" where
  "task_files mapf rn inputs t = map (\<lambda>i. (tmp_name t i, part rn i (map_output mapf inputs t))) [0..<rn]"

lemma foldl_cons: "foldl (\<lambda>d i. f i # d) d is = rev (map f is) @ d"
  by (induction "is" arbitrary: d) auto

lemma DoMapTask_ok:
  assumes "0 < rn" "distinct (map fst inputs)" "t < length inputs"
  shows "DoMapTask mapf (map_of inputs) d (map_task (map fst inputs) rn t) =
    Inr (rev (task_files mapf rn inputs t) @ d)"
proof -
  have "(fst (inputs ! t), snd (inputs ! t)) \<in> set inputs" using assms(3) by simp
  then have "map_of inputs (fst (inputs ! t)) = Some (snd (inputs ! t))"
    using assms(2) map_of_is_SomeI by metis
  moreover have "partition_kvs rn kvs = Inr (map (\<lambda>r. part rn r kvs) [0..<rn])" for kvs
    using assms(1) by (simp add: partition_kvs_def partition_fold part_def)
  ultimately show ?thesis
    using assms(1,3)
    by (auto simp: DoMapTask_def map_task_def task_files_def map_output_def foldl_cons)
qed

lemma map_phase_ok:
  assumes "0 < rn" "distinct (map fst inputs)"
  shows "map_phase mapf rn inputs = Inr (rev (concat (map (task_files mapf rn inputs) [0..<length inputs])))"
proof -
  have "foldR (DoMapTask mapf (map_of inputs)) [] (map (map_task (map fst inputs) rn) [0..<m]) =
      Inr (rev (concat (map (task_files mapf rn inputs) [0..<m])))" if "m \<le> length inputs" for m
    using that by (induction m) (simp_all add: foldR_append DoMapTask_ok [OF assms])
  then show ?thesis by (simp add: map_phase_def)
qed

lemma Itoa_inject: "Itoa m = Itoa n \<longleftrightarrow> m = n"
proof (induction m arbitrary: n rule: Itoa.induct)
  case (1 m)
  have ne: "Itoa k \<noteq> []" for k by (subst Itoa.simps) simp
  show ?case
  proof (cases "m < 10 \<longleftrightarrow> n < 10")
    case True
    show ?thesis
    proof (cases "m < 10")
      case False
      with True have "Itoa m = Itoa n \<longleftrightarrow> m div 10 = n div 10 \<and> digit (m mod 10) = digit (n mod 10)"
        using 1 by (subst (1 2) Itoa.simps) simp
      then show ?thesis by (metis digit_inject div_mult_mod_eq mod_less_divisor zero_less_numeral)
    qed (use True digit_inject in \<open>simp add: Itoa.simps\<close>)
  next
    case False
    then show ?thesis using ne [of "m div 10"] ne [of "n div 10"] by (subst (1 2) Itoa.simps) (auto dest: sym)
  qed
qed

lemma tmp_name_inject:
  assumes "i < 10" "j < 10"
  shows "tmp_name t i = tmp_name u j \<longleftrightarrow> t = u \<and> i = j"
  using assms digit_inject Itoa_inject by (auto simp: tmp_name_def Itoa.simps [of i] Itoa.simps [of j])

lemma read_files_ok:
  "(\<And>f. f \<in> set fs \<Longrightarrow> map_of d f = Some (c f)) \<Longrightarrow> read_files d fs = Some (concat (map c fs))"
  by (induction fs) auto

lemma mset_concat_map_cong:
  assumes "mset xs = mset ys"
  shows "mset (concat (map f xs)) = mset (concat (map f ys))"
proof -
  have "mset (concat (map f zs)) = sum_mset (image_mset (\<lambda>z. mset (f z)) (mset zs))" for zs
    by (induction zs) auto
  then show ?thesis using assms by simp
qed

lemma map_output_concat:
  "concat (map (map_output mapf inputs) [0..<length inputs]) = sequential_intermediate mapf inputs"
proof -
  have "map (map_output mapf inputs) [0..<length inputs] = map (\<lambda>(f, c). mapf f c) inputs"
    by (rule nth_equalityI) (auto simp: map_output_def case_prod_beta)
  then show ?thesis by (simp add: sequential_intermediate_def)
qed

lemma concat_part: "concat (map (\<lambda>t. part rn r (f t)) ts) = part rn r (concat (map f ts))"
  by (induction ts) (auto simp: part_def)

lemma mset_concat_parts:
  assumes "\<And>x. x \<in> set xs \<Longrightarrow> b x < rn"
  shows "mset (concat (map (\<lambda>r. filter (\<lambda>x. b x = r) xs) [0..<rn])) = mset xs"
  using assms
proof (induction xs)
  case (Cons x xs)
  have "mset (concat (map (\<lambda>r. filter (\<lambda>y. b y = r) (x # xs)) [0..<m])) =
      (if b x < m then {#x#} else {#}) + mset (concat (map (\<lambda>r. filter (\<lambda>y. b y = r) xs) [0..<m]))" for m
    by (induction m) auto
  then show ?case using Cons by simp
qed (simp add: concat_eq_Nil_conv [THEN iffD2])

lemma in_task_files:
  "(f, v) \<in> set (concat (map (task_files mapf rn inputs) [0..<m])) \<longleftrightarrow>
     (\<exists>t < m. \<exists>i < rn. f = tmp_name t i \<and> v = part rn i (map_output mapf inputs t))"
proof -
  have "(f, v) \<in> set (task_files mapf rn inputs t) \<longleftrightarrow>
      (\<exists>i < rn. f = tmp_name t i \<and> v = part rn i (map_output mapf inputs t))" for t
    unfolding task_files_def by auto
  then show ?thesis by (simp add: Bex_def)
qed

text \<open>The files that reducer \<open>r\<close> reads hold exactly the pairs of its partition.\<close>

lemma reducer_input:
  assumes rn: "0 < rn" "rn \<le> 10" "r < rn" and d: "map_phase mapf rn inputs = Inr d"
    and ds: "distinct (map fst inputs)" and names: "distinct names" "set names = fst ` set d"
  shows "\<exists>kvs. read_files d (selectReduceName names r) = Some kvs \<and>
    mset kvs = mset (part rn r (sequential_intermediate mapf inputs))"
proof -
  let ?M = "length inputs"
  let ?c = "\<lambda>t i. part rn i (map_output mapf inputs t)"
  have d_eq: "d = rev (concat (map (task_files mapf rn inputs) [0..<?M]))"
    using d map_phase_ok [OF rn(1) ds] by simp
  have in_d: "(f, v) \<in> set d \<longleftrightarrow> (\<exists>t < ?M. \<exists>i < rn. f = tmp_name t i \<and> v = ?c t i)" for f v
    unfolding d_eq set_rev by (rule in_task_files)
  have look: "map_of d (tmp_name t i) = Some (?c t i)" if "t < ?M" "i < rn" for t i
  proof -
    have "(tmp_name t i, ?c t i) \<in> set d" using that in_d by blast
    then obtain v where v: "map_of d (tmp_name t i) = Some v" by (metis weak_map_of_SomeI)
    then have "(tmp_name t i, v) \<in> set d" by (rule map_of_SomeD)
    then obtain u j where u: "j < rn" "tmp_name t i = tmp_name u j" "v = ?c u j" using in_d by blast
    then have "t = u \<and> i = j" using rn(2) that(2) by (simp add: tmp_name_inject)
    then show ?thesis using v u(3) by simp
  qed
  let ?sel = "selectReduceName names r"
  let ?mine = "map (\<lambda>t. tmp_name t r) [0..<?M]"
  have in_names: "f \<in> set names \<longleftrightarrow> (\<exists>t < ?M. \<exists>i < rn. f = tmp_name t i)" for f
    unfolding names(2) by (simp add: image_iff Bex_def in_d) blast
  have sel: "HasPrefix (tmp_name t i) ''mr-tmp'' \<and> HasSuffix (tmp_name t i) (Itoa r) \<longleftrightarrow> i = r" if "i < rn" for t i
    using selectReduceName_tmp that rn by simp
  have "f \<in> set ?sel \<longleftrightarrow> (\<exists>t < ?M. f = tmp_name t r)" for f
    unfolding selectReduceName_def set_filter mem_Collect_eq in_names using sel rn(3) by blast
  then have "set ?sel = set ?mine" by auto
  moreover have "distinct ?sel" using names(1) by (simp add: selectReduceName_def)
  moreover have "distinct ?mine" using rn by (simp add: distinct_map inj_on_def tmp_name_inject)
  ultimately have perm: "mset ?sel = mset ?mine" using set_eq_iff_mset_eq_distinct by blast
  then have "set ?sel = set ?mine" by (rule mset_eq_setD)
  then have "read_files d ?sel = Some (concat (map (\<lambda>f. the (map_of d f)) ?sel))"
    by (intro read_files_ok) (auto simp: look [OF _ rn(3)])
  moreover have "mset (concat (map (\<lambda>f. the (map_of d f)) ?sel)) = mset (concat (map (\<lambda>f. the (map_of d f)) ?mine))"
    using perm by (rule mset_concat_map_cong)
  moreover have "concat (map (\<lambda>f. the (map_of d f)) ?mine) = concat (map (\<lambda>t. ?c t r) [0..<?M])"
    unfolding map_map o_def by (intro arg_cong [of _ _ concat] map_cong) (simp_all add: look [OF _ rn(3)])
  ultimately show ?thesis by (simp add: concat_part map_output_concat)
qed

lemma uniform_values_mono: "uniform_values kvs \<Longrightarrow> set l \<subseteq> set kvs \<Longrightarrow> uniform_values l"
  unfolding uniform_values_def by blast

lemma part_reduced:
  assumes "uniform_values kvs" "mset l = mset (part rn r kvs)"
  shows "map (reduce_spec reducef l) (keys l) =
    map (reduce_spec reducef kvs) (filter (\<lambda>k. bucket rn k = r) (keys kvs))"
proof -
  have set: "set l = {kv \<in> set kvs. bucket rn (Key kv) = r}"
    using mset_eq_setD [OF assms(2)] by (auto simp: part_def)
  have "set (filter (\<lambda>k. bucket rn k = r) (keys kvs)) = set (keys l)"
    by (auto simp: keys_def set)
  moreover have "sorted (filter P (keys kvs)) \<and> distinct (filter P (keys kvs))" for P
    by (simp add: keys_def sorted_wrt_filter)
  moreover have "sorted (keys l) \<and> distinct (keys l)" by (simp add: keys_def)
  ultimately have keys: "keys l = filter (\<lambda>k. bucket rn k = r) (keys kvs)"
    using sorted_distinct_set_unique by metis
  have "reduce_spec reducef l k = reduce_spec reducef kvs k" if "bucket rn k = r" for k
  proof -
    have "uniform_values (part rn r kvs)" using assms(1) by (rule uniform_values_mono) (auto simp: part_def)
    then have "filter (\<lambda>kv. Key kv = k) l = filter (\<lambda>kv. Key kv = k) (part rn r kvs)"
      using assms(2) by (rule filter_key_uniform)
    also have "\<dots> = filter (\<lambda>kv. Key kv = k) kvs"
      using that by (auto simp: part_def intro!: filter_cong)
    finally show ?thesis by (simp add: reduce_spec_def)
  qed
  then show ?thesis by (simp add: keys)
qed


text \<open>Word count satisfies the hypothesis on the values.\<close>

lemma wc_uniform: "uniform_values (sequential_intermediate (wc_Map isLetter) inputs)"
  by (auto simp: wc_intermediate uniform_values_def)


text \<open>
  With several values per key the reduce task is wrong: it ends a group where the whole pair changes, not the key, so
  that the inverted index of a word in two documents has two lines for the word, each with one document, where the
  sequential program has one line with both.
\<close>

lemma reduce_splits_key:
  "let a = \<lparr>Key = ''w'', Value = ''d1''\<rparr>; b = \<lparr>Key = ''w'', Value = ''d2''\<rparr>;
       d = [(''mr-tmp-0-0'', [a]), (''mr-tmp-1-0'', [b])];
       task = reduce_task [''mr-tmp-0-0'', ''mr-tmp-1-0''] 2 0
   in DoReduceTask (sort_key Key) indexer_Reduce d task = [(''w'', ''1 d1''), (''w'', ''1 d2'')] \<and>
      mrsequential (sort_key Key) (\<lambda>f c. [\<lparr>Key = c, Value = f\<rparr>]) indexer_Reduce [(''d1'', ''w''), (''d2'', ''w'')] =
        [(''w'', ''2 d1,d2'')]"
  by code_simp

end
