(* ===== verification/MR_Apps.thy ===== *)
theory MR_Apps
  imports MR_Worker
begin

text \<open>
  The applications with which the tests exercise the MapReduce system: src/mrapps/nocrash.go, crash.go, early_exit.go, jobcount.go,
  mtiming.go and rtiming.go, the calls of the workers (src/mr/worker.go), and the two programs src/main/mrcoordinator.go and
  mrworker.go.

  Random numbers, process ids, clocks and the processes that are alive are arguments. How long a function sleeps is part of its
  result where the function sleeps in some of its cases only. A directory is the list of its file names.
\<close>

section \<open>Applications that do not depend on the order of the values\<close>

text \<open>
  The shuffle leaves the values of a key in an order that depends on the unstable sort and on the names of the
  intermediate files. A reduce function that depends on the values as a multiset only gives the same output for all of them.
\<close>

locale order_free =
  fixes reducef :: "string \<Rightarrow> string list \<Rightarrow> string"
  assumes perm: "mset vs = mset ws \<Longrightarrow> reducef k vs = reducef k ws"
begin

lemma sequential_eq:
  assumes "sorts srt"
  shows "mrsequential srt mapf reducef inputs =
    map (\<lambda>k. (k, reducef k (map Value (filter (\<lambda>kv. Key kv = k) (sequential_intermediate mapf inputs)))))
      (keys (sequential_intermediate mapf inputs))"
proof -
  from mrsequential_correct [OF assms, of mapf inputs reducef]
  obtain vals where v: "\<forall>k. mset (vals k) = mset (map Value (filter (\<lambda>kv. Key kv = k) (sequential_intermediate mapf inputs)))"
    "mrsequential srt mapf reducef inputs = map (\<lambda>k. (k, reducef k (vals k))) (keys (sequential_intermediate mapf inputs))"
    by (elim exE conjE)
  show ?thesis unfolding v(2) by (rule map_cong [OF refl]) (use perm v(1) in blast)
qed

lemma sequential_deterministic:
  assumes "sorts srt" "sorts srt'"
  shows "mrsequential srt mapf reducef inputs = mrsequential srt' mapf reducef inputs"
  by (simp only: sequential_eq [OF assms(1)] sequential_eq [OF assms(2)])

end

lemma sort_mset_cong: "mset vs = mset ws \<Longrightarrow> sort vs = sort (ws :: string list)"
  by (rule properties_for_sort) simp_all

interpretation wc: order_free wc_Reduce
  by unfold_locales (simp only: wc_Reduce_def, drule mset_eq_length, simp only:)

interpretation indexer: order_free indexer_Reduce
  by unfold_locales (simp only: indexer_Reduce_def, frule mset_eq_length, drule sort_mset_cong, simp only:)

section \<open>nocrash and crash\<close>

text \<open>\<^verbatim>\<open>os.Exit\<close> ends the process with a code, \<open>Inl\<close>.\<close>

type_synonym 'a process = "int + 'a"

definition nocrash_maybeCrash :: "int \<Rightarrow> unit process" where
  "nocrash_maybeCrash rr = (if False \<and> rr < 500 then Inl 1 else Inr ())"

definition four_facts :: "string \<Rightarrow> string \<Rightarrow> KeyValue list" where
  "four_facts filename contents =
     [\<lparr>Key = ''a'', Value = filename\<rparr>, \<lparr>Key = ''b'', Value = Itoa (length filename)\<rparr>,
      \<lparr>Key = ''c'', Value = Itoa (length contents)\<rparr>, \<lparr>Key = ''d'', Value = ''xyzzy''\<rparr>]"

definition nocrash_Map :: "int \<Rightarrow> string \<Rightarrow> string \<Rightarrow> KeyValue list process" where
  "nocrash_Map rr filename contents =
     (case nocrash_maybeCrash rr of Inl e \<Rightarrow> Inl e | Inr _ \<Rightarrow> Inr (four_facts filename contents))"

text \<open>The sorted copy of the values, joined.\<close>

definition sorted_join :: "string list \<Rightarrow> string" where
  "sorted_join values =
     (let vv = copy_into (replicate (length values) '''') values in Join (sort vv) '' '')"

definition nocrash_Reduce :: "int \<Rightarrow> string \<Rightarrow> string list \<Rightarrow> string process" where
  "nocrash_Reduce rr key values = (case nocrash_maybeCrash rr of Inl e \<Rightarrow> Inl e | Inr _ \<Rightarrow> Inr (sorted_join values))"

text \<open>The milliseconds that \<^verbatim>\<open>maybeCrash\<close> sleeps; the second random number is drawn only in the middle case.\<close>

definition crash_maybeCrash :: "int \<Rightarrow> int \<Rightarrow> int process" where
  "crash_maybeCrash rr ms = (if rr < 330 then Inl 1 else if rr < 660 then Inr ms else Inr 0)"

definition crash_Map :: "int \<Rightarrow> int \<Rightarrow> string \<Rightarrow> string \<Rightarrow> KeyValue list process" where
  "crash_Map rr ms filename contents =
     (case crash_maybeCrash rr ms of Inl e \<Rightarrow> Inl e | Inr _ \<Rightarrow> Inr (four_facts filename contents))"

definition crash_Reduce :: "int \<Rightarrow> int \<Rightarrow> string \<Rightarrow> string list \<Rightarrow> string process" where
  "crash_Reduce rr ms key values = (case crash_maybeCrash rr ms of Inl e \<Rightarrow> Inl e | Inr _ \<Rightarrow> Inr (sorted_join values))"

lemma sorted_join_eq: "sorted_join values = Join (sort values) '' ''"
  by (simp add: sorted_join_def)

interpretation nocrash: order_free "\<lambda>k vs. sorted_join vs"
  by unfold_locales (simp only: sorted_join_eq, drule sort_mset_cong, simp only:)

text \<open>
  A task that crashes and is run again until it does not crash has the result of nocrash: whatever the random numbers,
  the process either ends or computes the same.
\<close>

lemma crash_or_same:
  "crash_Map rr ms f c = Inr kvs \<Longrightarrow> nocrash_Map rr' f c = Inr kvs"
  "crash_Reduce rr ms k vs = Inr r \<Longrightarrow> nocrash_Reduce rr' k vs = Inr r"
  "crash_Map rr ms f c = Inl e \<longleftrightarrow> rr < 330 \<and> e = 1"
  by (auto simp: crash_Map_def crash_Reduce_def nocrash_Map_def nocrash_Reduce_def crash_maybeCrash_def nocrash_maybeCrash_def
      split: if_splits)

section \<open>early\_exit\<close>

definition early_exit_Map :: "string \<Rightarrow> string \<Rightarrow> KeyValue list" where
  "early_exit_Map filename contents = [\<lparr>Key = filename, Value = ''1''\<rparr>]"

text \<open>\<^verbatim>\<open>strings.Contains\<close>\<close>

fun Contains :: "string \<Rightarrow> string \<Rightarrow> bool" where
  "Contains s p = (HasPrefix s p \<or> (case s of [] \<Rightarrow> False | _ # s' \<Rightarrow> Contains s' p))"

declare Contains.simps [simp del]

text \<open>The result and the seconds that the function sleeps.\<close>

definition early_exit_Reduce :: "string \<Rightarrow> string list \<Rightarrow> string \<times> nat" where
  "early_exit_Reduce key values =
     (Itoa (length values), if Contains key ''sherlock'' \<or> Contains key ''tom'' then 3 else 0)"

interpretation early_exit: order_free "\<lambda>k vs. fst (early_exit_Reduce k vs)"
  by unfold_locales (simp only: early_exit_Reduce_def fst_conv, drule mset_eq_length, simp only:)

lemma Contains_iff: "Contains s p \<longleftrightarrow> (\<exists>a b. s = a @ p @ b)"
proof (induction s)
  case Nil
  show ?case by (subst Contains.simps) (auto simp: HasPrefix_def)
next
  case (Cons c s)
  have "HasPrefix (c # s) p \<longleftrightarrow> (\<exists>b. c # s = p @ b)"
    by (auto simp: HasPrefix_def) (metis append_take_drop_id, metis length_append length_Cons le_add1)
  then show ?case using Cons by (subst Contains.simps) (auto simp: Cons_eq_append_conv)
qed

lemma early_exit_uniform: "uniform_values (sequential_intermediate early_exit_Map inputs)"
  by (auto simp: uniform_values_def sequential_intermediate_def early_exit_Map_def)

section \<open>Decimal numbers read back\<close>

definition is_digit :: "char \<Rightarrow> bool" where
  "is_digit c \<longleftrightarrow> 48 \<le> (of_char c :: nat) \<and> (of_char c :: nat) \<le> 57"

definition Atoi :: "string \<Rightarrow> nat" where
  "Atoi ds = foldl (\<lambda>a c. 10 * a + (of_char c - 48)) 0 ds"

lemma of_char_digit [simp]: "d < 10 \<Longrightarrow> of_char (digit d) = 48 + d"
  by (simp add: digit_def of_char_of)

lemma is_digit_digit [simp]: "d < 10 \<Longrightarrow> is_digit (digit d)"
  by (simp add: is_digit_def)

lemma Itoa_digits: "c \<in> set (Itoa n) \<Longrightarrow> is_digit c"
  by (induction n rule: Itoa.induct) (subst (asm) (2) Itoa.simps, auto split: if_splits)

lemma Itoa_no_dash: "CHR ''-'' \<notin> set (Itoa n)" "CHR ''+'' \<notin> set (Itoa n)" "CHR '' '' \<notin> set (Itoa n)"
  using Itoa_digits [of "CHR ''-''" n] Itoa_digits [of "CHR ''+''" n] Itoa_digits [of "CHR '' ''" n] by (auto simp: is_digit_def)

lemma Itoa_nonempty [simp]: "Itoa n \<noteq> []"
  by (subst Itoa.simps) simp

lemma Atoi_Itoa: "Atoi (Itoa n) = n"
proof (induction n rule: Itoa.induct)
  case (1 n)
  show ?case
  proof (cases "n < 10")
    case True
    then show ?thesis by (subst Itoa.simps) (simp add: Atoi_def)
  next
    case False
    then have "Atoi (Itoa (n div 10)) = n div 10" by (rule 1)
    then show ?thesis using False by (subst Itoa.simps) (simp add: Atoi_def)
  qed
qed

section \<open>jobcount\<close>

definition jobcount_name :: "nat \<Rightarrow> nat \<Rightarrow> string" where
  "jobcount_name pid cnt = ''mr-worker-jobcount-'' @ Itoa pid @ ''-'' @ Itoa cnt"

text \<open>\<^verbatim>\<open>ioutil.WriteFile\<close> creates the file or overwrites it.\<close>

definition create :: "string \<Rightarrow> string list \<Rightarrow> string list" where
  "create name names = (if name \<in> set names then names else names @ [name])"

text \<open>\<open>cnt\<close> is the variable \<^verbatim>\<open>count\<close> of the process, \<open>wrote\<close> whether the file could be written.\<close>

definition jobcount_Map :: "bool \<Rightarrow> nat \<Rightarrow> string list \<Rightarrow> nat \<Rightarrow> (string list \<times> nat \<times> KeyValue list) res" where
  "jobcount_Map wrote pid names cnt =
     (if \<not> wrote then Inl (ExplicitPanic ''WriteFile'')
      else Inr (create (jobcount_name pid cnt) names, cnt + 1, [\<lparr>Key = ''a'', Value = ''x''\<rparr>]))"

definition jobcount_Reduce :: "string list \<Rightarrow> string \<Rightarrow> string list \<Rightarrow> string" where
  "jobcount_Reduce names key values = Itoa (length (filter (\<lambda>f. HasPrefix f ''mr-worker-jobcount'') names))"

text \<open>Map calls in the processes \<open>pids\<close>, one after the other, with the counter of every process.\<close>

fun jobcount_calls :: "string list \<Rightarrow> (nat \<Rightarrow> nat) \<Rightarrow> nat list \<Rightarrow> string list res" where
  "jobcount_calls names cnt [] = Inr names"
| "jobcount_calls names cnt (p # ps) =
     bindR (jobcount_Map True p names (cnt p)) (\<lambda>(names', c, _). jobcount_calls names' (cnt(p := c)) ps)"

lemma split_at_dash:
  assumes "CHR ''-'' \<notin> set a" "CHR ''-'' \<notin> set b"
  shows "a @ ''-'' @ x = b @ ''-'' @ y \<longleftrightarrow> a = b \<and> x = y"
proof
  assume e: "a @ ''-'' @ x = b @ ''-'' @ y"
  have t: "takeWhile (\<lambda>c. c \<noteq> CHR ''-'') (zs @ ''-'' @ w) = zs" if "CHR ''-'' \<notin> set zs" for zs w
    using that by (induction zs) auto
  have "a = b" using arg_cong [OF e, of "takeWhile (\<lambda>c. c \<noteq> CHR ''-'')"] unfolding t [OF assms(1)] t [OF assms(2)] .
  then show "a = b \<and> x = y" using e by simp
qed simp

lemma jobcount_name_inject: "jobcount_name p c = jobcount_name q d \<longleftrightarrow> p = q \<and> c = d"
proof -
  have "jobcount_name p c = jobcount_name q d \<longleftrightarrow> Itoa p @ ''-'' @ Itoa c = Itoa q @ ''-'' @ Itoa d"
    by (simp add: jobcount_name_def)
  then show ?thesis by (simp only: split_at_dash [OF Itoa_no_dash(1) Itoa_no_dash(1)] Itoa_inject)
qed

lemma jobcount_calls_count:
  assumes "\<And>p c. jobcount_name p c \<in> set names \<Longrightarrow> c < cnt p"
  shows "\<exists>names'. jobcount_calls names cnt ps = Inr names' \<and>
    length (filter (\<lambda>f. HasPrefix f ''mr-worker-jobcount'') names') =
    length (filter (\<lambda>f. HasPrefix f ''mr-worker-jobcount'') names) + length ps"
  using assms
proof (induction ps arbitrary: names cnt)
  case (Cons p ps)
  let ?n = "jobcount_name p (cnt p)"
  have new: "?n \<notin> set names" using Cons.prems by blast
  have "c < (cnt(p := cnt p + 1)) q" if "jobcount_name q c \<in> set (names @ [?n])" for q c
  proof (cases "jobcount_name q c = ?n")
    case True
    then show ?thesis unfolding jobcount_name_inject by simp
  next
    case False
    then have "c < cnt q" using that Cons.prems by auto
    then show ?thesis by auto
  qed
  from Cons.IH [of "names @ [?n]" "cnt(p := cnt p + 1)", OF this] obtain names' where "jobcount_calls (names @ [?n]) (cnt(p := cnt p + 1)) ps = Inr names'"
    "length (filter (\<lambda>f. HasPrefix f ''mr-worker-jobcount'') names') =
      length (filter (\<lambda>f. HasPrefix f ''mr-worker-jobcount'') (names @ [?n])) + length ps"
    by blast
  moreover have "HasPrefix ?n ''mr-worker-jobcount''" by (simp add: HasPrefix_def jobcount_name_def)
  ultimately show ?case using new by (simp add: jobcount_Map_def create_def)
qed simp

text \<open>
  The application counts what it promises: in a directory without its files, after any number of Map calls in any
  processes, Reduce returns the number of the calls.
\<close>

lemma jobcount_counts_calls:
  assumes "\<And>f. f \<in> set names \<Longrightarrow> \<not> HasPrefix f ''mr-worker-jobcount''"
  shows "\<exists>names'. jobcount_calls names (\<lambda>_. 0) ps = Inr names' \<and> jobcount_Reduce names' k vs = Itoa (length ps)"
proof -
  have "c < 0" if "jobcount_name p c \<in> set names" for p c :: nat
    using assms [OF that] by (simp add: HasPrefix_def jobcount_name_def)
  then have "\<exists>names'. jobcount_calls names (\<lambda>_. 0) ps = Inr names' \<and>
    length (filter (\<lambda>f. HasPrefix f ''mr-worker-jobcount'') names') =
    length (filter (\<lambda>f. HasPrefix f ''mr-worker-jobcount'') names) + length ps"
    by (intro jobcount_calls_count)
  moreover have "filter (\<lambda>f. HasPrefix f ''mr-worker-jobcount'') names = []" using assms by (simp add: filter_empty_conv)
  ultimately show ?thesis by (auto simp: jobcount_Reduce_def)
qed

section \<open>mtiming and rtiming\<close>

definition worker_name :: "string \<Rightarrow> nat \<Rightarrow> string" where
  "worker_name phase pid = ''mr-worker-'' @ phase @ ''-'' @ Itoa pid"

text \<open>
  \<^verbatim>\<open>fmt.Sscanf(name, "mr-worker-<phase>-%d", &xpid)\<close>, \<open>Some\<close> when one number is read without an error: blanks and a sign may
  come before the digits, anything after them, and the number has to be in range.
\<close>

definition Sscanf_pid :: "string \<Rightarrow> string \<Rightarrow> int option" where
  "Sscanf_pid phase name =
     (let lit = ''mr-worker-'' @ phase @ ''-'' in
      if \<not> HasPrefix name lit then None
      else let rest = dropWhile (\<lambda>c. c = CHR '' '') (drop (length lit) name);
               neg = (case rest of c # _ \<Rightarrow> c = CHR ''-'' | [] \<Rightarrow> False);
               signed = (case rest of c # _ \<Rightarrow> c = CHR ''-'' \<or> c = CHR ''+'' | [] \<Rightarrow> False);
               ds = takeWhile is_digit (if signed then tl rest else rest);
               n = (if neg then - int (Atoi ds) else int (Atoi ds))
           in if ds = [] \<or> n < - (2 ^ 63) \<or> 2 ^ 63 \<le> n then None else Some n)"

text \<open>\<^verbatim>\<open>syscall.Kill(xpid, 0)\<close> succeeds for the processes that are alive.\<close>

definition count_alive :: "string \<Rightarrow> (int \<Rightarrow> bool) \<Rightarrow> string list \<Rightarrow> nat" where
  "count_alive phase alive names =
     length (filter (\<lambda>name. case Sscanf_pid phase name of Some xpid \<Rightarrow> alive xpid | None \<Rightarrow> False) names)"

text \<open>
  \<^verbatim>\<open>nparallel\<close>, which mtiming and rtiming share: \<open>others1\<close> and \<open>others2\<close> are what other processes do to the directory before it
  is read and while the function sleeps.
\<close>

definition nparallel ::
  "bool \<Rightarrow> (string list \<Rightarrow> string list) \<Rightarrow> (string list \<Rightarrow> string list) \<Rightarrow> (int \<Rightarrow> bool) \<Rightarrow> nat \<Rightarrow> string \<Rightarrow> string list \<Rightarrow>
     (string list \<times> nat) res" where
  "nparallel wrote others1 others2 alive pid phase files0 =
     (let myfilename = worker_name phase pid in
      if \<not> wrote then Inl (ExplicitPanic ''WriteFile'')
      else let names = others1 (create myfilename files0);
               ret = count_alive phase alive names;
               files1 = others2 names
           in if myfilename \<notin> set files1 then Inl (ExplicitPanic ''Remove'')
              else Inr (filter (\<lambda>f. f \<noteq> myfilename) files1, ret))"

text \<open>\<open>ts\<close> is the start time as \<^verbatim>\<open>"%.1f"\<close> prints it.\<close>

definition mtiming_Map :: "string \<Rightarrow> nat \<Rightarrow> nat \<Rightarrow> KeyValue list" where
  "mtiming_Map ts pid n = [\<lparr>Key = ''times-'' @ Itoa pid, Value = ts\<rparr>, \<lparr>Key = ''parallel-'' @ Itoa pid, Value = Itoa n\<rparr>]"

definition mtiming_Reduce :: "string \<Rightarrow> string list \<Rightarrow> string" where
  "mtiming_Reduce key values = sorted_join values"

definition rtiming_Map :: "string \<Rightarrow> string \<Rightarrow> KeyValue list" where
  "rtiming_Map filename contents =
     [\<lparr>Key = ''a'', Value = ''1''\<rparr>, \<lparr>Key = ''b'', Value = ''1''\<rparr>, \<lparr>Key = ''c'', Value = ''1''\<rparr>, \<lparr>Key = ''d'', Value = ''1''\<rparr>,
      \<lparr>Key = ''e'', Value = ''1''\<rparr>, \<lparr>Key = ''f'', Value = ''1''\<rparr>, \<lparr>Key = ''g'', Value = ''1''\<rparr>, \<lparr>Key = ''h'', Value = ''1''\<rparr>,
      \<lparr>Key = ''i'', Value = ''1''\<rparr>, \<lparr>Key = ''j'', Value = ''1''\<rparr>]"

definition rtiming_Reduce :: "nat \<Rightarrow> string \<Rightarrow> string list \<Rightarrow> string" where
  "rtiming_Reduce n key values = Itoa n"

interpretation mtiming: order_free mtiming_Reduce
  by unfold_locales (simp only: mtiming_Reduce_def, erule nocrash.perm)

lemma rtiming_uniform: "uniform_values (sequential_intermediate rtiming_Map inputs)"
  by (auto simp: uniform_values_def sequential_intermediate_def rtiming_Map_def)

lemma Sscanf_worker_name:
  assumes "int pid < 2 ^ 63"
  shows "Sscanf_pid phase (worker_name phase pid) = Some (int pid)"
proof -
  let ?lit = "''mr-worker-'' @ phase @ ''-''"
  have p: "HasPrefix (worker_name phase pid) ?lit" "drop (length ?lit) (worker_name phase pid) = Itoa pid"
    by (simp_all add: worker_name_def HasPrefix_def)
  obtain c cs where c: "Itoa pid = c # cs" by (cases "Itoa pid") simp_all
  then have n: "c \<noteq> CHR ''-''" "c \<noteq> CHR ''+''" "c \<noteq> CHR '' ''" using Itoa_no_dash [of pid] by auto
  have d: "is_digit c" "takeWhile is_digit cs = cs" unfolding takeWhile_eq_all_conv using Itoa_digits [of _ pid] c by simp_all
  have a: "Atoi (c # cs) = pid" using Atoi_Itoa [of pid] c by simp
  show ?thesis
    unfolding Sscanf_pid_def Let_def p(2) c by (simp add: p(1) [simplified] n d a) (use assms in simp)
qed

text \<open>
  A worker always counts itself: unless another process removes its file or the file cannot be written, \<^verbatim>\<open>nparallel\<close> returns at least 1,
  and its file is gone afterwards.
\<close>

lemma nparallel_counts_itself:
  assumes "worker_name phase pid \<in> set (others1 (create (worker_name phase pid) files0))"
    "worker_name phase pid \<in> set (others2 (others1 (create (worker_name phase pid) files0)))"
    "alive (int pid)" "int pid < 2 ^ 63"
  shows "\<exists>files1 n. nparallel True others1 others2 alive pid phase files0 = Inr (files1, n) \<and> 1 \<le> n \<and>
    worker_name phase pid \<notin> set files1"
proof -
  let ?P = "\<lambda>name. case Sscanf_pid phase name of Some xpid \<Rightarrow> alive xpid | None \<Rightarrow> False"
  have "?P (worker_name phase pid)" using assms(3) Sscanf_worker_name [OF assms(4)] by simp
  then have "worker_name phase pid \<in> set (filter ?P (others1 (create (worker_name phase pid) files0)))" using assms(1) by simp
  then have "1 \<le> count_alive phase alive (others1 (create (worker_name phase pid) files0))"
    unfolding count_alive_def by (metis One_nat_def Suc_leI length_pos_if_in_set)
  then show ?thesis using assms(2) by (simp add: nparallel_def Let_def)
qed

section \<open>The calls of the workers\<close>

text \<open>
  \<^verbatim>\<open>call\<close>: \<open>None\<close> when the coordinator cannot be reached, \<open>Some None\<close> when the call fails, in which case the variable for
  the reply keeps its value.
\<close>

definition call :: "'r option option \<Rightarrow> 'r \<Rightarrow> (bool \<times> 'r) res" where
  "call answer var =
     (case answer of
        None \<Rightarrow> Inl (LogFatal ''dialing:'')
      | Some None \<Rightarrow> Inr (False, var)
      | Some (Some r) \<Rightarrow> Inr (True, r))"

definition GetTask :: "Task option option \<Rightarrow> Task res" where
  "GetTask answer = bindR (call answer zero_task) (\<lambda>(ok, reply). Inr reply)"

definition Example :: "int \<Rightarrow> int" where
  "Example x = x + 1"

text \<open>\<^verbatim>\<open>CallExample\<close> against the handler, with the text that it prints.\<close>

definition CallExample :: "bool \<Rightarrow> bool \<Rightarrow> string res" where
  "CallExample dialed good =
     bindR (call (if \<not> dialed then None else Some (if good then Some (Example 99) else None)) 0)
       (\<lambda>(ok, y). Inr (if ok then ''reply.Y '' @ Itoa (nat y) else ''call failed!''))"

lemma CallExample_100: "CallExample True True = Inr ''reply.Y 100''"
  by code_simp

text \<open>
  A failed poll is not noticed: the zero task is a map task without a file, and the worker panics when it takes the
  file's name.
\<close>

lemma failed_poll_panics:
  "GetTask (Some None) = Inr zero_task" "DoMapTask mapf input d zero_task = Inl IndexOutOfRange"
  by (simp_all add: GetTask_def call_def DoMapTask_def zero_task_def index_def)

section \<open>The programs\<close>

text \<open>\<^verbatim>\<open>mrcoordinator\<close> up to the loop that waits for the end of the job; the arguments include the name of the program.\<close>

definition mrcoordinator_main :: "string list \<Rightarrow> Coordinator process" where
  "mrcoordinator_main argv = (if length argv < 2 then Inl 1 else Inr (MakeCoordinator (drop 1 argv) 10))"

text \<open>The plugin is a parameter: whether the file can be loaded, and the functions \<^verbatim>\<open>Map\<close> and \<^verbatim>\<open>Reduce\<close> in it.\<close>

definition loadPlugin :: "(string \<Rightarrow> ('m option \<times> 'r option) option) \<Rightarrow> string \<Rightarrow> ('m \<times> 'r) res" where
  "loadPlugin plugins filename =
     (case plugins filename of
        None \<Rightarrow> Inl (LogFatal ''cannot load plugin'')
      | Some (None, _) \<Rightarrow> Inl (LogFatal ''cannot find Map'')
      | Some (Some mapf, None) \<Rightarrow> Inl (LogFatal ''cannot find Reduce'')
      | Some (Some mapf, Some reducef) \<Rightarrow> Inr (mapf, reducef))"

definition mrworker_main :: "(string \<Rightarrow> ('m option \<times> 'r option) option) \<Rightarrow> string list \<Rightarrow> ('m \<times> 'r) res process" where
  "mrworker_main plugins argv = (if length argv \<noteq> 2 then Inl 1 else Inr (loadPlugin plugins (argv ! 1)))"

section \<open>The output that the crash test expects\<close>

lemma four_sorted: "sorted [''a'', ''b'', ''c'', ''d'']" "distinct [''a'', ''b'', ''c'', ''d'']"
  by code_simp+

lemma four_facts_keys:
  assumes "inputs \<noteq> []"
  shows "keys (sequential_intermediate four_facts inputs) = [''a'', ''b'', ''c'', ''d'']"
proof -
  have "Key ` set (sequential_intermediate four_facts inputs) = set [''a'', ''b'', ''c'', ''d'']"
    using assms
  proof (induction inputs)
    case (Cons i inputs)
    have "Key ` set (sequential_intermediate four_facts (i # inputs)) =
        set [''a'', ''b'', ''c'', ''d''] \<union> Key ` set (sequential_intermediate four_facts inputs)"
      by (cases i) (simp add: sequential_intermediate_def four_facts_def)
    moreover have "sequential_intermediate four_facts [] = []" by (simp add: sequential_intermediate_def)
    ultimately show ?case using Cons.IH by (cases "inputs = []") simp_all
  qed simp
  then show ?thesis
    unfolding keys_def using sorted_list_of_set.idem_if_sorted_distinct [OF four_sorted] by simp
qed

lemma four_facts_values:
  "map Value (filter (\<lambda>kv. Key kv = ''a'') (sequential_intermediate four_facts inputs)) = map fst inputs"
  "map Value (filter (\<lambda>kv. Key kv = ''b'') (sequential_intermediate four_facts inputs)) = map (\<lambda>i. Itoa (length (fst i))) inputs"
  "map Value (filter (\<lambda>kv. Key kv = ''c'') (sequential_intermediate four_facts inputs)) = map (\<lambda>i. Itoa (length (snd i))) inputs"
  "map Value (filter (\<lambda>kv. Key kv = ''d'') (sequential_intermediate four_facts inputs)) = map (\<lambda>i. ''xyzzy'') inputs"
  by (induction inputs) (auto simp: sequential_intermediate_def four_facts_def)

text \<open>
  Runs of the crash application in which every task was repeated until it did not crash: the sequential program prints four
  lines, with the sorted names, lengths of the names, lengths of the contents, and one word per input.
\<close>

lemma crash_output:
  assumes "sorts srt" "inputs \<noteq> []" "\<And>f c. \<exists>rr ms. crash_Map rr ms f c = Inr (mapf f c)"
    "\<And>k vs. \<exists>rr ms. crash_Reduce rr ms k vs = Inr (reducef k vs)"
  shows "mrsequential srt mapf reducef inputs =
    [(''a'', sorted_join (map fst inputs)), (''b'', sorted_join (map (\<lambda>i. Itoa (length (fst i))) inputs)),
     (''c'', sorted_join (map (\<lambda>i. Itoa (length (snd i))) inputs)), (''d'', sorted_join (map (\<lambda>i. ''xyzzy'') inputs))]"
proof -
  have "mapf f c = four_facts f c" for f c
    using assms(3) [of f c] by (auto simp: crash_Map_def crash_maybeCrash_def split: if_splits)
  then have m: "mapf = four_facts" by blast
  have "reducef k vs = sorted_join vs" for k vs
    using assms(4) [of k vs] by (auto simp: crash_Reduce_def crash_maybeCrash_def split: if_splits)
  then have r: "reducef = (\<lambda>k vs. sorted_join vs)" by blast
  show ?thesis
    unfolding m r nocrash.sequential_eq [OF assms(1)] four_facts_keys [OF assms(2)] by (simp only: list.map four_facts_values)
qed

end
