(* ===== verification/Porc_Visual.thy ===== *)
theory Porc_Visual
  imports Porc_Top
begin

text \<open>
  The data behind the visualization of a check, \<^verbatim>\<open>computeVisualizationData\<close> of src/porcupine/visualization.go. The rest of
  that file is the HTML and JavaScript that shows the data.

  The function replays every partial linearization that the checker reported and panics if the model refuses a step. The theorem
  is that this cannot happen on the information that \<^verbatim>\<open>checkParallel\<close> returns, and what the data are. \<^verbatim>\<open>sort.Slice\<close> is not
  stable and is a parameter; \<open>nilv\<close> is the value nil, which a missing key of a map gives.
\<close>

record historyElement =
  he_ClientId :: int
  Start :: int
  End :: int
  Description :: string

record linearizationStep =
  ls_Index :: int
  StateDescription :: string

record partitionVisualizationData =
  History :: "historyElement list"
  pv_PartialLinearizations :: "linearizationStep list list"
  Largest :: "int \<rightharpoonup> int"

definition zero_element :: historyElement where
  "zero_element = \<lparr>he_ClientId = 0, Start = 0, End = 0, Description = []\<rparr>"

definition describe_op :: "('s, 'v) Model \<Rightarrow> 'v \<Rightarrow> 'v \<Rightarrow> string res" where
  "describe_op m v w = (case DescribeOperation m of None \<Rightarrow> Inl NilDereference | Some d \<Rightarrow> d v w)"

definition describe_state :: "('s, 'v) Model \<Rightarrow> 's \<Rightarrow> string res" where
  "describe_state m s = (case DescribeState m of None \<Rightarrow> Inl NilDereference | Some d \<Rightarrow> Inr (d s))"

definition get_or :: "'v \<Rightarrow> (int \<rightharpoonup> 'v) \<Rightarrow> int \<Rightarrow> 'v" where
  "get_or nilv m k = (case m k of None \<Rightarrow> nilv | Some v \<Rightarrow> v)"

text \<open>One entry of the history.\<close>

definition visual_entry ::
  "'v \<Rightarrow> ('s, 'v) Model \<Rightarrow> historyElement list \<times> (int \<rightharpoonup> 'v) \<times> (int \<rightharpoonup> 'v) \<Rightarrow> 'v entry \<Rightarrow>
     (historyElement list \<times> (int \<rightharpoonup> 'v) \<times> (int \<rightharpoonup> 'v)) res" where
  "visual_entry nilv m st elem =
     (case st of (hs, callValue, returnValue) \<Rightarrow>
        bindR (index hs (eid elem)) (\<lambda>h.
          if kind elem = callEntry then
            bindR (set_index hs (eid elem) (h\<lparr>he_ClientId := eclientId elem, Start := etime elem\<rparr>)) (\<lambda>hs1.
              Inr (hs1, callValue(eid elem \<mapsto> evalue elem), returnValue))
          else
            bindR (describe_op m (get_or nilv callValue (eid elem)) (evalue elem)) (\<lambda>d.
            bindR (set_index hs (eid elem) (h\<lparr>End := etime elem, Description := d\<rparr>)) (\<lambda>hs1.
              Inr (hs1, callValue, returnValue(eid elem \<mapsto> evalue elem))))))"

text \<open>One operation of a partial linearization; \<open>i\<close> is the number of the linearization and \<open>len\<close> its length.\<close>

record 's replay =
  r_steps :: "linearizationStep list"
  r_state :: 's
  largestSize :: "int \<Rightarrow> int"
  largestIndex :: "int \<rightharpoonup> int"

definition visual_step ::
  "'v \<Rightarrow> ('s, 'v) Model \<Rightarrow> (int \<rightharpoonup> 'v) \<Rightarrow> (int \<rightharpoonup> 'v) \<Rightarrow> int \<Rightarrow> int \<Rightarrow> 's replay \<Rightarrow> int \<Rightarrow> 's replay res" where
  "visual_step nilv m callValue returnValue i len r histId =
     bindR (Step m (r_state r) (get_or nilv callValue histId) (get_or nilv returnValue histId)) (\<lambda>(good, st).
       if good \<noteq> True then Inl (ExplicitPanic ''valid partial linearization returned non-ok result from model step'')
       else
         bindR (describe_state m st) (\<lambda>stateDesc.
           let r1 = r\<lparr>r_steps := r_steps r @ [\<lparr>ls_Index = histId, StateDescription = stateDesc\<rparr>], r_state := st\<rparr>
           in Inr (if largestSize r histId < len
                   then r1\<lparr>largestSize := (largestSize r)(histId := len), largestIndex := (largestIndex r)(histId \<mapsto> i)\<rparr>
                   else r1)))"

definition visual_partial ::
  "'v \<Rightarrow> ('s, 'v) Model \<Rightarrow> (int \<rightharpoonup> 'v) \<Rightarrow> (int \<rightharpoonup> 'v) \<Rightarrow>
     linearizationStep list list \<times> (int \<Rightarrow> int) \<times> (int \<rightharpoonup> int) \<Rightarrow> int list \<Rightarrow>
     (linearizationStep list list \<times> (int \<Rightarrow> int) \<times> (int \<rightharpoonup> int)) res" where
  "visual_partial nilv m callValue returnValue acc partial =
     (case acc of (lins, sizes, idx) \<Rightarrow>
        bindR (foldR (visual_step nilv m callValue returnValue (int (length lins)) (int (length partial)))
                 \<lparr>r_steps = [], r_state = Init m, largestSize = sizes, largestIndex = idx\<rparr> partial) (\<lambda>r.
          Inr (lins @ [r_steps r], largestSize r, largestIndex r)))"

definition visual_partition ::
  "'v \<Rightarrow> (int list list \<Rightarrow> int list list) \<Rightarrow> ('s, 'v) Model \<Rightarrow> 'v entry list \<Rightarrow> int list list \<Rightarrow>
     partitionVisualizationData res" where
  "visual_partition nilv srt m hist partials =
     bindR (foldR (visual_entry nilv m) (replicate (length hist div 2) zero_element, Map.empty, Map.empty) hist)
       (\<lambda>(hs, callValue, returnValue).
     bindR (foldR (visual_partial nilv m callValue returnValue) ([], (\<lambda>_. 0), Map.empty) (srt partials))
       (\<lambda>(lins, _, largest).
       Inr \<lparr>History = hs, pv_PartialLinearizations = lins, Largest = largest\<rparr>))"

definition computeVisualizationData ::
  "'v \<Rightarrow> (int list list \<Rightarrow> int list list) \<Rightarrow> ('v \<Rightarrow> 'v \<Rightarrow> string) \<Rightarrow> ('s \<Rightarrow> string) \<Rightarrow> ('s, 'v) Model \<Rightarrow>
     'v linearizationInfo \<Rightarrow> partitionVisualizationData list res" where
  "computeVisualizationData nilv srt so sp model info =
     (let m = fillDefault so sp model
      in mapR (\<lambda>p. bindR (index (history info) (int p)) (\<lambda>h.
               bindR (index (partialLinearizations info) (int p)) (\<lambda>ps.
                 visual_partition nilv srt m h ps))) [0..<length (history info)])"

text \<open>\<^verbatim>\<open>sort.Slice\<close> by decreasing length\<close>

definition sorts_partials :: "(int list list \<Rightarrow> int list list) \<Rightarrow> bool" where
  "sorts_partials srt \<longleftrightarrow>
     (\<forall>ps. mset (srt ps) = mset ps \<and> sorted_wrt (\<lambda>a b. \<not> length b > length a) (srt ps))"

section \<open>The replay of a history\<close>

definition values_ok :: "'v entry list \<Rightarrow> nat \<Rightarrow> (int \<rightharpoonup> 'v) \<Rightarrow> (int \<rightharpoonup> 'v) \<Rightarrow> bool" where
  "values_ok H m cv rv \<longleftrightarrow> (\<forall>i < num_ops H.
     (cpos H i < m \<longrightarrow> cv (int i) = Some (evalue (H ! cpos H i))) \<and>
     (rpos H i < m \<longrightarrow> rv (int i) = Some (evalue (H ! rpos H i))))"

lemma visual_history:
  assumes wf: "wf_history H" and "m \<le> length H"
    and d: "\<And>i. i < num_ops H \<Longrightarrow> returns (describe_op M (evalue (H ! cpos H i)) (evalue (H ! rpos H i)))"
  shows "\<exists>hs cv rv. foldR (visual_entry nilv M) (replicate (num_ops H) zero_element, Map.empty, Map.empty) (take m H) =
      Inr (hs, cv, rv) \<and> length hs = num_ops H \<and> values_ok H m cv rv"
  using assms(2)
proof (induction m)
  case 0
  then show ?case by (simp add: values_ok_def)
next
  case (Suc m)
  then obtain hs cv rv where ih: "foldR (visual_entry nilv M) (replicate (num_ops H) zero_element, Map.empty, Map.empty) (take m H) =
      Inr (hs, cv, rv)" "length hs = num_ops H" "values_ok H m cv rv" by auto
  have m: "m < length H" using Suc.prems by simp
  define i where "i = op_id H m"
  have i: "i < num_ops H" "eid (H ! m) = int i" "m = pos H (kind (H ! m)) i"
    using wf_op_id [OF wf m] by (simp_all add: i_def)
  have other: "pos H k j = m \<longleftrightarrow> k = kind (H ! m) \<and> j = i" if "j < num_ops H" for k j
    using wf_pos [OF wf that, of k] i by auto
  have unf: "foldR (visual_entry nilv M) (replicate (num_ops H) zero_element, Map.empty, Map.empty) (take (Suc m) H) =
      visual_entry nilv M (hs, cv, rv) (H ! m)"
    using m by (simp add: take_Suc_conv_app_nth foldR_append ih(1)) (simp add: bindR_def split: sum.splits)
  show ?case
  proof (cases "kind (H ! m)")
    case callEntry
    have "values_ok H (Suc m) (cv(int i \<mapsto> evalue (H ! m))) rv"
      using ih(3) other callEntry i by (auto simp: values_ok_def less_Suc_eq)
    then show ?thesis unfolding unf
      using ih(2) i callEntry by (auto simp: visual_entry_def index_def set_index_def)
  next
    case returnEntry
    then have "cpos H i < m" using wf_call_before_return [OF wf i(1)] i(3) by simp
    then have cv: "get_or nilv cv (int i) = evalue (H ! cpos H i)"
      using ih(3) i(1) by (simp add: values_ok_def get_or_def)
    have "returns (describe_op M (evalue (H ! cpos H i)) (evalue (H ! m)))"
      using d [OF i(1)] i(3) returnEntry by simp
    then obtain s where s: "describe_op M (get_or nilv cv (int i)) (evalue (H ! m)) = Inr s"
      unfolding cv by (auto simp: returns_iff)
    have "values_ok H (Suc m) cv (rv(int i \<mapsto> evalue (H ! m)))"
      using ih(3) other returnEntry i by (auto simp: values_ok_def less_Suc_eq)
    then show ?thesis unfolding unf
      using ih(2) i returnEntry s by (auto simp: visual_entry_def index_def set_index_def)
  qed
qed

section \<open>The replay of the partial linearizations\<close>

fun replay_steps :: "('s \<Rightarrow> string) \<Rightarrow> ('s, 'v) Model \<Rightarrow> 'v entry list \<Rightarrow> 's \<Rightarrow> nat list \<Rightarrow> linearizationStep list" where
  "replay_steps ds M H s [] = []"
| "replay_steps ds M H s (i # T) =
     \<lparr>ls_Index = int i, StateDescription = ds (snd (stepf M H s i))\<rparr> # replay_steps ds M H (snd (stepf M H s i)) T"

lemma visual_replay:
  assumes wf: "wf_history H" and vals: "values_ok H (length H) cv rv" and ds: "DescribeState M = Some ds"
    and T: "set T \<subseteq> {..<num_ops H}" "legal M H (r_state r) T"
  shows "\<exists>r'. foldR (visual_step nilv M cv rv k len) r (map int T) = Inr r' \<and>
    r_steps r' = r_steps r @ replay_steps ds M H (r_state r) T \<and>
    (\<forall>h. largestSize r' h = (if h \<in> int ` set T \<and> largestSize r h < len then len else largestSize r h)) \<and>
    (\<forall>h. largestIndex r' h = (if h \<in> int ` set T \<and> largestSize r h < len then Some k else largestIndex r h))"
  using T
proof (induction T arbitrary: r)
  case Nil
  then show ?case by simp
next
  case (Cons i T)
  let ?s = "r_state r"
  have i: "i < num_ops H" and leg: "fst (stepf M H ?s i)" "legal M H (snd (stepf M H ?s i)) T"
    using Cons.prems by auto
  have cv: "get_or nilv cv (int i) = evalue (H ! cpos H i)" and rv: "get_or nilv rv (int i) = evalue (H ! rpos H i)"
    using vals i wf_pos(1) [OF wf i] by (simp_all add: values_ok_def get_or_def)
  have st: "Step M ?s (evalue (H ! cpos H i)) (evalue (H ! rpos H i)) = Inr (True, snd (stepf M H ?s i))"
    using leg(1) by (auto simp: stepf_def split: sum.splits)
  define r1 where "r1 = r\<lparr>r_steps := r_steps r @ [\<lparr>ls_Index = int i, StateDescription = ds (snd (stepf M H ?s i))\<rparr>],
      r_state := snd (stepf M H ?s i)\<rparr>"
  define r2 where "r2 = (if largestSize r (int i) < len
      then r1\<lparr>largestSize := (largestSize r)(int i := len), largestIndex := (largestIndex r)(int i \<mapsto> k)\<rparr> else r1)"
  have vs: "visual_step nilv M cv rv k len r (int i) = Inr r2"
    by (simp add: visual_step_def cv rv st describe_state_def ds r1_def r2_def Let_def)
  have r2: "r_state r2 = snd (stepf M H ?s i)"
    "r_steps r2 = r_steps r @ [\<lparr>ls_Index = int i, StateDescription = ds (snd (stepf M H ?s i))\<rparr>]"
    by (simp_all add: r1_def r2_def)
  have sub: "set T \<subseteq> {..<num_ops H}" using Cons.prems(1) by simp
  from Cons.IH [OF sub, of r2] leg(2) r2 obtain r' where
    r': "foldR (visual_step nilv M cv rv k len) r2 (map int T) = Inr r'"
      "r_steps r' = r_steps r2 @ replay_steps ds M H (snd (stepf M H ?s i)) T"
      "\<forall>h. largestSize r' h = (if h \<in> int ` set T \<and> largestSize r2 h < len then len else largestSize r2 h)"
      "\<forall>h. largestIndex r' h = (if h \<in> int ` set T \<and> largestSize r2 h < len then Some k else largestIndex r2 h)" by auto
  show ?case
    using r' vs r2 by (intro exI [of _ r']) (auto simp: r2_def r1_def)
qed

text \<open>The map of the largest partial linearization of each operation, among \<open>ps\<close>.\<close>

definition largest_ok :: "int list list \<Rightarrow> (int \<Rightarrow> int) \<Rightarrow> (int \<rightharpoonup> int) \<Rightarrow> bool" where
  "largest_ok ps sizes idx \<longleftrightarrow>
     (\<forall>h. (case idx h of
             None \<Rightarrow> sizes h = 0 \<and> (\<forall>p \<in> set ps. h \<notin> set p)
           | Some k \<Rightarrow> 0 \<le> k \<and> k < int (length ps) \<and> h \<in> set (ps ! nat k) \<and> sizes h = int (length (ps ! nat k))) \<and>
          (\<forall>p \<in> set ps. h \<in> set p \<longrightarrow> int (length p) \<le> sizes h))"

lemma largest_ok_snoc:
  assumes "largest_ok ps sizes idx"
    and "\<And>h. sizes' h = (if h \<in> set p \<and> sizes h < int (length p) then int (length p) else sizes h)"
    and "\<And>h. idx' h = (if h \<in> set p \<and> sizes h < int (length p) then Some (int (length ps)) else idx h)"
  shows "largest_ok (ps @ [p]) sizes' idx'"
  unfolding largest_ok_def
proof
  fix h
  have old: "case idx h of None \<Rightarrow> sizes h = 0 \<and> (\<forall>p \<in> set ps. h \<notin> set p)
      | Some k \<Rightarrow> 0 \<le> k \<and> k < int (length ps) \<and> h \<in> set (ps ! nat k) \<and> sizes h = int (length (ps ! nat k))"
    "\<forall>p \<in> set ps. h \<in> set p \<longrightarrow> int (length p) \<le> sizes h"
    using assms(1) unfolding largest_ok_def by blast+
  have pos: "h \<in> set p \<Longrightarrow> 0 < length p" by (cases p) auto
  show "(case idx' h of None \<Rightarrow> sizes' h = 0 \<and> (\<forall>p \<in> set (ps @ [p]). h \<notin> set p)
      | Some k \<Rightarrow> 0 \<le> k \<and> k < int (length (ps @ [p])) \<and> h \<in> set ((ps @ [p]) ! nat k) \<and>
          sizes' h = int (length ((ps @ [p]) ! nat k))) \<and>
      (\<forall>p \<in> set (ps @ [p]). h \<in> set p \<longrightarrow> int (length p) \<le> sizes' h)"
    using old pos by (auto simp: assms(2,3) nth_append nat_less_iff split: option.splits)
qed

lemma visual_partials:
  assumes wf: "wf_history H" and vals: "values_ok H (length H) cv rv" and ds: "DescribeState M = Some ds"
    and T: "\<forall>T \<in> set Ts. set T \<subseteq> {..<num_ops H} \<and> legal M H (Init M) T"
  shows "\<exists>sizes idx. foldR (visual_partial nilv M cv rv) ([], (\<lambda>_. 0), Map.empty) (map (map int) Ts) =
      Inr (map (replay_steps ds M H (Init M)) Ts, sizes, idx) \<and> largest_ok (map (map int) Ts) sizes idx"
  using T
proof (induction Ts rule: rev_induct)
  case Nil
  then show ?case by (simp add: largest_ok_def)
next
  case (snoc T Ts)
  then obtain sizes idx where ih: "foldR (visual_partial nilv M cv rv) ([], (\<lambda>_. 0), Map.empty) (map (map int) Ts) =
      Inr (map (replay_steps ds M H (Init M)) Ts, sizes, idx)" "largest_ok (map (map int) Ts) sizes idx" by auto
  let ?r = "\<lparr>r_steps = [], r_state = Init M, largestSize = sizes, largestIndex = idx\<rparr>"
  have leg: "set T \<subseteq> {..<num_ops H}" "legal M H (r_state ?r) T" using snoc.prems by simp_all
  from visual_replay [OF wf vals ds leg, of nilv "int (length Ts)" "int (length T)"]
  obtain r' where r': "foldR (visual_step nilv M cv rv (int (length Ts)) (int (length T))) ?r (map int T) = Inr r'"
      "r_steps r' = replay_steps ds M H (Init M) T"
      "\<And>h. largestSize r' h = (if h \<in> int ` set T \<and> sizes h < int (length T) then int (length T) else sizes h)"
      "\<And>h. largestIndex r' h = (if h \<in> int ` set T \<and> sizes h < int (length T) then Some (int (length Ts)) else idx h)" by auto
  have "largest_ok (map (map int) Ts @ [map int T]) (largestSize r') (largestIndex r')"
    by (rule largest_ok_snoc [OF ih(2)]) (simp_all add: r'(3,4))
  moreover have "visual_partial nilv M cv rv (map (replay_steps ds M H (Init M)) Ts, sizes, idx) (map int T) =
      Inr (map (replay_steps ds M H (Init M)) Ts @ [replay_steps ds M H (Init M) T], largestSize r', largestIndex r')"
    using r'(1,2) by (simp add: visual_partial_def)
  ultimately show ?case
    by (simp add: foldR_append ih(1))
qed

lemma replay_steps_ids: "map ls_Index (replay_steps ds M H s T) = map int T"
  by (induction ds M H s T rule: replay_steps.induct) auto

lemma fillDefault_describes: "\<exists>ds. DescribeState (fillDefault so sp model) = Some ds"
  by (auto simp: fillDefault_def Let_def)

text \<open>The sequences that the checker reports can be replayed.\<close>

lemma unique_partials_legal:
  assumes "longest_ok M H l" "\<forall>l. set (ord l) = set l" "ids \<in> set (unique_partials ord l)"
  shows "\<exists>T. ids = map int T \<and> set T \<subseteq> {..<num_ops H} \<and> legal M H (Init M) T"
proof -
  obtain k p where "k < length l" "l ! k = Some (p, ids)"
    using assms(2,3) by (force simp: unique_partials_def in_set_conv_nth split: option.splits)
  then obtain T where "ids = map int T" "plin M H T" using assms(1) unfolding longest_ok_def by blast
  with plin_facts(2,3) [OF this(2)] show ?thesis by blast
qed

lemma visual_partition_ok:
  assumes wf: "wf_history H" and ds: "DescribeState M = Some ds"
    and d: "\<And>i. i < num_ops H \<Longrightarrow> returns (describe_op M (evalue (H ! cpos H i)) (evalue (H ! rpos H i)))"
    and ps: "\<And>ids. ids \<in> set ps \<Longrightarrow> \<exists>T. ids = map int T \<and> set T \<subseteq> {..<num_ops H} \<and> legal M H (Init M) T"
    and srt: "set (srt ps) = set ps"
  shows "\<exists>v sizes. visual_partition nilv srt M H ps = Inr v \<and> map (map ls_Index) (pv_PartialLinearizations v) = srt ps \<and>
    largest_ok (srt ps) sizes (Largest v)"
proof -
  have "\<exists>hs cv rv. foldR (visual_entry nilv M) (replicate (num_ops H) zero_element, Map.empty, Map.empty) H =
      Inr (hs, cv, rv) \<and> values_ok H (length H) cv rv"
    using visual_history [OF wf order_refl d, of nilv] by auto
  then obtain hs cv rv where h: "foldR (visual_entry nilv M) (replicate (num_ops H) zero_element, Map.empty, Map.empty) H =
      Inr (hs, cv, rv)" "values_ok H (length H) cv rv" by blast
  define Ts where "Ts = map (map nat) (srt ps)"
  have conv: "map int (map nat ids) = ids \<and> set (map nat ids) \<subseteq> {..<num_ops H} \<and> legal M H (Init M) (map nat ids)"
    if mem: "ids \<in> set (srt ps)" for ids
  proof -
    have "ids \<in> set ps" using mem srt by simp
    from ps [OF this] obtain T where "ids = map int T" "set T \<subseteq> {..<num_ops H}" "legal M H (Init M) T"
      by blast
    then show ?thesis by (simp add: comp_def)
  qed
  have "map (map int) Ts = srt ps"
    unfolding Ts_def map_map by (rule map_idI) (use conv in \<open>simp add: comp_def\<close>)
  moreover have "\<forall>T \<in> set Ts. set T \<subseteq> {..<num_ops H} \<and> legal M H (Init M) T"
    using conv by (auto simp: Ts_def)
  ultimately obtain sizes idx where r: "foldR (visual_partial nilv M cv rv) ([], (\<lambda>_. 0), Map.empty) (srt ps) =
      Inr (map (replay_steps ds M H (Init M)) Ts, sizes, idx)" "largest_ok (srt ps) sizes idx"
    using visual_partials [OF wf h(2) ds, of Ts nilv] by auto
  have "visual_partition nilv srt M H ps =
      Inr \<lparr>History = hs, pv_PartialLinearizations = map (replay_steps ds M H (Init M)) Ts, Largest = idx\<rparr>"
    using h(1) r(1) by (simp add: visual_partition_def num_ops_def)
  moreover have "map (map ls_Index) (map (replay_steps ds M H (Init M)) Ts) = srt ps"
    using \<open>map (map int) Ts = srt ps\<close> by (simp add: replay_steps_ids comp_def)
  ultimately show ?thesis using r(2) by auto
qed


lemma filled_counter:
  "fillDefault so sp counter_model = counter_model\<lparr>Partition := Some NoPartition, PartitionEvent := Some NoPartitionEvent,
     DescribeOperation := Some (\<lambda>i w. Inr (so i w)), DescribeState := Some sp\<rparr>"
  by (simp add: fillDefault_def counter_model_def Let_def)

lemma filled_checkable: "checkable (fillDefault so sp counter_model) (two_adds a b)"
  using two_adds_checkable [of a b] unfolding filled_counter
  by (simp add: checkable_def respects_equal_def)

definition by_length :: "int list list \<Rightarrow> int list list" where
  "by_length ps = sort_key (\<lambda>p. - int (length p)) ps"

lemma by_length_sorts: "sorts_partials by_length"
  unfolding sorts_partials_def by_length_def
  by (auto intro: sorted_wrt_mono_rel [OF _ sorted_sort_key [unfolded sorted_map]])


end
