(* ===== verification/LabGob.thy ===== *)
theory LabGob
  imports Go_Prelude
begin

text \<open>
  The wrapper of encoding/gob, src/labgob/labgob.go: before a value is encoded or decoded, its type is searched for fields
  whose names are not capitalized, and a variable to decode into is searched for values that are not the default.

  The types of a program are a table, in which a type is named by its position: types refer to each other in cycles
  (a struct with a pointer to itself), and the search avoids to run for ever by the set \<open>checked\<close> of types it has seen. The
  search is given a bound on the depth of its recursion; that the number of types is bound enough is the
  first part of the theorem. Field names are ASCII, and what is printed is recorded in a list.
\<close>

section \<open>Types\<close>

datatype gotype =
    Struct "(string \<times> nat) list"
  | ElemOf nat             \<comment> \<open>slice, array or pointer\<close>
  | MapType nat nat        \<comment> \<open>element and key\<close>
  | Plain

datatype warning =
    LowerCase string nat
  | NonDefault string

record gobstate =
  checked :: "nat set"
  errorCount :: int
  printed :: "warning list"

definition first_upper :: "string \<Rightarrow> bool" where
  "first_upper name = (case name of [] \<Rightarrow> False | c # _ \<Rightarrow> c \<in> set ''ABCDEFGHIJKLMNOPQRSTUVWXYZ'')"

definition type_at :: "gotype list \<Rightarrow> nat \<Rightarrow> gotype" where
  "type_at ts t = (if t < length ts then ts ! t else Plain)"

definition check_field :: "nat \<Rightarrow> string \<Rightarrow> gobstate \<Rightarrow> gobstate" where
  "check_field t name s =
     (if first_upper name = False
      then s\<lparr>printed := printed s @ [LowerCase name t], errorCount := errorCount s + 1\<rparr> else s)"

text \<open>\<^verbatim>\<open>checkType\<close> and its loop over the fields of a struct.\<close>

fun checkType :: "nat \<Rightarrow> gotype list \<Rightarrow> gobstate \<Rightarrow> nat \<Rightarrow> gobstate option"
  and checkFields :: "nat \<Rightarrow> gotype list \<Rightarrow> gobstate \<Rightarrow> nat \<Rightarrow> (string \<times> nat) list \<Rightarrow> gobstate option" where
  "checkType 0 ts s t = None"
| "checkType (Suc d) ts s t =
     (if t \<in> checked s then Some s
      else
        let s1 = s\<lparr>checked := insert t (checked s)\<rparr>
        in case type_at ts t of
             Struct fds \<Rightarrow> checkFields d ts s1 t fds
           | ElemOf e \<Rightarrow> checkType d ts s1 e
           | MapType e k \<Rightarrow>
               (case checkType d ts s1 e of None \<Rightarrow> None | Some s2 \<Rightarrow> checkType d ts s2 k)
           | Plain \<Rightarrow> Some s1)"
| "checkFields d ts s t [] = Some s"
| "checkFields d ts s t ((name, ft) # fs) =
     (case checkType d ts (check_field t name s) ft of
        None \<Rightarrow> None
      | Some s2 \<Rightarrow> checkFields d ts s2 t fs)"

text \<open>\<^verbatim>\<open>checkValue\<close>: the type of the value nil is nil, which has no kind.\<close>

definition checkValue :: "gotype list \<Rightarrow> gobstate \<Rightarrow> nat option \<Rightarrow> gobstate res option" where
  "checkValue ts s ty =
     (case ty of None \<Rightarrow> Some (Inl NilDereference) | Some t \<Rightarrow> map_option Inr (checkType (Suc (length ts)) ts s t))"

section \<open>Values\<close>

datatype goval =
    VStruct "(string \<times> goval) list"
  | VPtr "goval option"
  | VBasic string bool     \<comment> \<open>the name of the type, and whether the value is the zero value\<close>
  | VOther

text \<open>
  \<^verbatim>\<open>checkDefault1\<close> and its loop over the fields. A value that was reached through a field that is not exported cannot be turned
  into an interface value: \<^verbatim>\<open>value.Interface()\<close> panics. The flag \<open>ro\<close> of package reflect that says so is passed on to the fields and
  the element of a value. No field is embedded.
\<close>

fun checkDefault1 :: "gobstate \<Rightarrow> bool \<Rightarrow> goval \<Rightarrow> nat \<Rightarrow> string \<Rightarrow> gobstate res"
  and checkDefaultFields :: "gobstate \<Rightarrow> bool \<Rightarrow> (string \<times> goval) list \<Rightarrow> nat \<Rightarrow> string \<Rightarrow> gobstate res" where
  "checkDefault1 s ro v depth name =
     (if depth > 3 then Inr s
      else case v of
        VStruct fds \<Rightarrow> checkDefaultFields s ro fds depth name
      | VPtr None \<Rightarrow> Inr s
      | VPtr (Some w) \<Rightarrow> checkDefault1 s ro w (depth + 1) name
      | VBasic tname is_zero \<Rightarrow>
          if ro then Inl (ExplicitPanic ''reflect.Value.Interface'')
          else if is_zero = False then
            let s1 = (if errorCount s < 1
                      then s\<lparr>printed := printed s @ [NonDefault (if name = '''' then tname else name)]\<rparr> else s)
            in Inr (s1\<lparr>errorCount := errorCount s1 + 1\<rparr>)
          else Inr s
      | VOther \<Rightarrow> Inr s)"
| "checkDefaultFields s ro [] depth name = Inr s"
| "checkDefaultFields s ro ((fname, vv) # fds) depth name =
     bindR (checkDefault1 s (ro \<or> \<not> first_upper fname) vv (depth + 1) (if name \<noteq> '''' then name @ ''.'' @ fname else fname))
       (\<lambda>s1. checkDefaultFields s1 ro fds depth name)"

declare checkDefault1.simps [simp del]

definition checkDefault :: "gobstate \<Rightarrow> goval option \<Rightarrow> gobstate res" where
  "checkDefault s v = (case v of None \<Rightarrow> Inr s | Some w \<Rightarrow> checkDefault1 s False w 1 '''')"

text \<open>
  \<^verbatim>\<open>Encode\<close>, \<^verbatim>\<open>Decode\<close> and \<^verbatim>\<open>Register\<close>: the checks, then the function of encoding/gob, which is a parameter. \<open>None\<close> would mean
  that the search does not end.
\<close>

definition Encode :: "gotype list \<Rightarrow> ('g \<Rightarrow> 'v \<Rightarrow> 'g \<times> 'e) \<Rightarrow> gobstate \<Rightarrow> 'g \<Rightarrow> nat option \<Rightarrow> 'v \<Rightarrow>
    (gobstate \<times> 'g \<times> 'e) res option" where
  "Encode ts gob_Encode s g ty v =
     map_option (\<lambda>r. bindR r (\<lambda>s1. case gob_Encode g v of (g1, e) \<Rightarrow> Inr (s1, g1, e))) (checkValue ts s ty)"

text \<open>\<^verbatim>\<open>EncodeValue\<close> does the same for a \<^verbatim>\<open>reflect.Value\<close>, whose contents it checks.\<close>

definition EncodeValue :: "gotype list \<Rightarrow> ('g \<Rightarrow> 'v \<Rightarrow> 'g \<times> 'e) \<Rightarrow> gobstate \<Rightarrow> 'g \<Rightarrow> nat option \<Rightarrow> 'v \<Rightarrow>
    (gobstate \<times> 'g \<times> 'e) res option" where
  "EncodeValue ts gob_EncodeValue s g ty v =
     map_option (\<lambda>r. bindR r (\<lambda>s1. case gob_EncodeValue g v of (g1, e) \<Rightarrow> Inr (s1, g1, e))) (checkValue ts s ty)"

definition Decode :: "gotype list \<Rightarrow> ('g \<Rightarrow> 'v \<Rightarrow> 'g \<times> 'v \<times> 'e) \<Rightarrow> ('v \<Rightarrow> goval option) \<Rightarrow> gobstate \<Rightarrow> 'g \<Rightarrow> nat option \<Rightarrow> 'v \<Rightarrow>
    (gobstate \<times> 'g \<times> 'v \<times> 'e) res option" where
  "Decode ts gob_Decode view s g ty v =
     map_option (\<lambda>r. bindR r (\<lambda>s1. bindR (checkDefault s1 (view v))
         (\<lambda>s2. case gob_Decode g v of (g1, v1, e) \<Rightarrow> Inr (s2, g1, v1, e))))
       (checkValue ts s ty)"

definition Register :: "gotype list \<Rightarrow> ('g \<Rightarrow> 'v \<Rightarrow> 'g) \<Rightarrow> gobstate \<Rightarrow> 'g \<Rightarrow> nat option \<Rightarrow> 'v \<Rightarrow> (gobstate \<times> 'g) res option" where
  "Register ts gob_Register s g ty v =
     map_option (\<lambda>r. bindR r (\<lambda>s1. Inr (s1, gob_Register g v))) (checkValue ts s ty)"

definition RegisterName :: "gotype list \<Rightarrow> ('g \<Rightarrow> string \<Rightarrow> 'v \<Rightarrow> 'g) \<Rightarrow> gobstate \<Rightarrow> 'g \<Rightarrow> string \<Rightarrow> nat option \<Rightarrow> 'v \<Rightarrow>
    (gobstate \<times> 'g) res option" where
  "RegisterName ts gob_RegisterName s g name ty v =
     map_option (\<lambda>r. bindR r (\<lambda>s1. Inr (s1, gob_RegisterName g name v))) (checkValue ts s ty)"

section \<open>The search\<close>

definition succs :: "gotype list \<Rightarrow> nat \<Rightarrow> nat set" where
  "succs ts t =
     (case type_at ts t of
        Struct fds \<Rightarrow> snd ` set fds | ElemOf e \<Rightarrow> {e} | MapType e k \<Rightarrow> {e, k} | Plain \<Rightarrow> {})"

definition lower_fields :: "gotype list \<Rightarrow> nat \<Rightarrow> nat" where
  "lower_fields ts t =
     (case type_at ts t of Struct fds \<Rightarrow> length (filter (\<lambda>(name, _). \<not> first_upper name) fds) | _ \<Rightarrow> 0)"

definition type_refs :: "gotype list \<Rightarrow> (nat \<times> nat) set" where
  "type_refs ts = {(t, u). u \<in> succs ts t}"

lemma check_field_simps [simp]:
  "checked (check_field t name s) = checked s"
  "errorCount (check_field t name s) = errorCount s + (if first_upper name then 0 else 1)"
  by (simp_all add: check_field_def)

text \<open>
  What a part of the search from \<open>s\<close> to \<open>s'\<close> does: types are added, those that a new type refers to are there, and the errors
  are \<open>k\<close> more than the lower-case fields of the new types.
\<close>

definition adds :: "gotype list \<Rightarrow> gobstate \<Rightarrow> gobstate \<Rightarrow> nat \<Rightarrow> bool" where
  "adds ts s s' k \<longleftrightarrow> checked s \<subseteq> checked s' \<and> finite (checked s' - checked s) \<and>
     (\<forall>u \<in> checked s' - checked s. succs ts u \<subseteq> checked s') \<and>
     errorCount s' = errorCount s + int k + (\<Sum>u \<in> checked s' - checked s. int (lower_fields ts u))"

lemma adds_refl: "adds ts s s 0"
  by (simp add: adds_def)

lemma adds_trans:
  assumes "adds ts s s1 k" "adds ts s1 s2 l"
  shows "adds ts s s2 (k + l)"
proof -
  have new: "checked s2 - checked s = (checked s1 - checked s) \<union> (checked s2 - checked s1)"
    using assms by (auto simp: adds_def)
  have "(\<Sum>u \<in> checked s2 - checked s. int (lower_fields ts u)) =
      (\<Sum>u \<in> checked s1 - checked s. int (lower_fields ts u)) + (\<Sum>u \<in> checked s2 - checked s1. int (lower_fields ts u))"
    unfolding new by (rule sum.union_disjoint) (use assms in \<open>auto simp: adds_def\<close>)
  moreover have "finite (checked s2 - checked s)" unfolding new using assms by (simp add: adds_def)
  moreover have "succs ts u \<subseteq> checked s2" if "u \<in> checked s2 - checked s" for u
    using assms that by (cases "u \<in> checked s1") (auto simp: adds_def)
  ultimately show ?thesis using assms by (auto simp: adds_def)
qed

lemma adds_field: "adds ts s (check_field t name s) (if first_upper name then 0 else 1)"
  by (simp add: adds_def)

lemma adds_insert:
  assumes "t \<notin> checked s" "adds ts (s\<lparr>checked := insert t (checked s)\<rparr>) s' (lower_fields ts t)" "succs ts t \<subseteq> checked s'"
  shows "adds ts s s' 0" "t \<in> checked s'"
proof -
  let ?new = "checked s' - insert t (checked s)"
  have g: "insert t (checked s) \<subseteq> checked s'" "finite ?new" "\<forall>u \<in> ?new. succs ts u \<subseteq> checked s'"
    "errorCount s' = errorCount s + int (lower_fields ts t) + (\<Sum>u \<in> ?new. int (lower_fields ts u))"
    using assms(2) by (simp_all add: adds_def)
  have new: "checked s' - checked s = insert t ?new" using g(1) assms(1) by auto
  show "adds ts s s' 0"
    unfolding adds_def new using g assms(3) by auto
  show "t \<in> checked s'" using g(1) by simp
qed

lemma search_grows:
  "checkType d ts s t = Some s' \<Longrightarrow> adds ts s s' 0 \<and> t \<in> checked s'"
  "checkFields d ts s t fs = Some s' \<Longrightarrow>
     adds ts s s' (length (filter (\<lambda>(name, _). \<not> first_upper name) fs)) \<and> snd ` set fs \<subseteq> checked s'"
proof (induction d ts s t and d ts s t fs arbitrary: s' and s' rule: checkType_checkFields.induct)
  case (2 d ts s t)
  show ?case
  proof (cases "t \<in> checked s")
    case True
    then show ?thesis using 2(5) by (simp add: adds_refl)
  next
    case False
    let ?s1 = "s\<lparr>checked := insert t (checked s)\<rparr>"
    have "adds ts ?s1 s' (lower_fields ts t) \<and> succs ts t \<subseteq> checked s'"
    proof (cases "type_at ts t")
      case (Struct fds)
      then show ?thesis using 2(1) [OF False refl Struct, of s'] 2(5) False by (simp add: lower_fields_def succs_def)
    next
      case (ElemOf e)
      then show ?thesis using 2(2) [OF False refl ElemOf, of s'] 2(5) False by (simp add: lower_fields_def succs_def)
    next
      case (MapType e k)
      then obtain s2 where s2: "checkType d ts ?s1 e = Some s2" "checkType d ts s2 k = Some s'"
        using 2(5) False by (auto split: option.splits)
      note a = 2(3) [OF False refl MapType s2(1)] and b = 2(4) [OF False refl MapType s2]
      show ?thesis using adds_trans [OF conjunct1 [OF a] conjunct1 [OF b]] a b MapType
        by (auto simp: lower_fields_def succs_def adds_def)
    next
      case Plain
      then show ?thesis using 2(5) False adds_refl by (auto simp: lower_fields_def succs_def)
    qed
    then show ?thesis using adds_insert [OF False] by blast
  qed
next
  case (4 d ts s t name ft fs)
  obtain s2 where s2: "checkType d ts (check_field t name s) ft = Some s2" "checkFields d ts s2 t fs = Some s'"
    using "4.prems" by (auto split: option.splits)
  note a = "4.IH"(1) [OF s2(1)] and b = "4.IH"(2) [OF s2]
  have "adds ts s s' ((if first_upper name then 0 else 1) + 0 + length (filter (\<lambda>(name, _). \<not> first_upper name) fs))"
    by (rule adds_trans [OF adds_trans [OF adds_field conjunct1 [OF a]] conjunct1 [OF b]])
  moreover have "ft \<in> checked s'" using a b by (auto simp: adds_def)
  ultimately show ?case using b by (auto split: if_splits)
qed (simp_all add: adds_refl)

text \<open>Only types that can be reached are added.\<close>

lemma search_reach:
  "checkType d ts s t = Some s' \<Longrightarrow> checked s' \<subseteq> checked s \<union> (type_refs ts)\<^sup>* `` {t}"
  "checkFields d ts s t fs = Some s' \<Longrightarrow> checked s' \<subseteq> checked s \<union> (type_refs ts)\<^sup>* `` (snd ` set fs)"
proof (induction d ts s t and d ts s t fs arbitrary: s' and s' rule: checkType_checkFields.induct)
  case (2 d ts s t)
  show ?case
  proof (cases "t \<in> checked s")
    case True
    then show ?thesis using 2(5) by simp
  next
    case False
    let ?s1 = "s\<lparr>checked := insert t (checked s)\<rparr>" and ?R = "(type_refs ts)\<^sup>*"
    have step: "?R `` succs ts t \<subseteq> ?R `` {t}" by (auto simp: type_refs_def intro: converse_rtrancl_into_rtrancl)
    have "checked s' \<subseteq> checked ?s1 \<union> ?R `` succs ts t"
    proof (cases "type_at ts t")
      case (Struct fds)
      then show ?thesis using 2(1) [OF False refl Struct, of s'] 2(5) False by (simp add: succs_def)
    next
      case (ElemOf e)
      then show ?thesis using 2(2) [OF False refl ElemOf, of s'] 2(5) False by (simp add: succs_def)
    next
      case (MapType e k)
      then obtain s2 where s2: "checkType d ts ?s1 e = Some s2" "checkType d ts s2 k = Some s'"
        using 2(5) False by (auto split: option.splits)
      show ?thesis using 2(3) [OF False refl MapType s2(1)] 2(4) [OF False refl MapType s2] MapType
        by (auto simp: succs_def)
    next
      case Plain
      then show ?thesis using 2(5) False by auto
    qed
    then show ?thesis using step by auto
  qed
next
  case (4 d ts s t name ft fs)
  obtain s2 where s2: "checkType d ts (check_field t name s) ft = Some s2" "checkFields d ts s2 t fs = Some s'"
    using "4.prems" by (auto split: option.splits)
  show ?case using "4.IH"(1) [OF s2(1)] "4.IH"(2) [OF s2] by auto
qed simp_all

text \<open>The depth of the recursion is bounded by the number of types that are not yet checked.\<close>

definition closed_types :: "gotype list \<Rightarrow> bool" where
  "closed_types ts \<longleftrightarrow> (\<forall>t. succs ts t \<subseteq> {..<length ts})"

lemma search_ends:
  "closed_types ts \<Longrightarrow> t < length ts \<Longrightarrow> card ({..<length ts} - checked s) < d \<Longrightarrow> \<exists>s'. checkType d ts s t = Some s'"
  "closed_types ts \<Longrightarrow> snd ` set fs \<subseteq> {..<length ts} \<Longrightarrow> card ({..<length ts} - checked s) < d \<Longrightarrow>
     \<exists>s'. checkFields d ts s t fs = Some s'"
proof (induction d ts s t and d ts s t fs rule: checkType_checkFields.induct)
  case (2 d ts s t)
  show ?case
  proof (cases "t \<in> checked s")
    case False
    let ?s1 = "s\<lparr>checked := insert t (checked s)\<rparr>"
    have "{..<length ts} - checked ?s1 \<subset> {..<length ts} - checked s" using False 2(6) by auto
    then have lt: "card ({..<length ts} - checked ?s1) < d"
      using psubset_card_mono [of "{..<length ts} - checked s" "{..<length ts} - checked ?s1"] 2(7) by simp
    have sub: "succs ts t \<subseteq> {..<length ts}" using 2(5) by (simp add: closed_types_def)
    show ?thesis
    proof (cases "type_at ts t")
      case (Struct fds)
      then show ?thesis using 2(1) [OF False refl Struct 2(5) _ lt] sub False by (auto simp: succs_def)
    next
      case (ElemOf e)
      then show ?thesis using 2(2) [OF False refl ElemOf 2(5) _ lt] sub False by (auto simp: succs_def)
    next
      case (MapType e k)
      then obtain s2 where s2: "checkType d ts ?s1 e = Some s2"
        using 2(3) [OF False refl MapType 2(5) _ lt] sub by (auto simp: succs_def)
      have "{..<length ts} - checked s2 \<subseteq> {..<length ts} - checked ?s1"
        using search_grows(1) [OF s2] by (auto simp: adds_def)
      then have "card ({..<length ts} - checked s2) < d"
        using card_mono [of "{..<length ts} - checked ?s1" "{..<length ts} - checked s2"] lt by (meson finite_Diff finite_lessThan le_less_trans)
      then obtain s3 where "checkType d ts s2 k = Some s3"
        using 2(4) [OF False refl MapType s2 2(5)] sub MapType by (auto simp: succs_def)
      then show ?thesis using s2 MapType False by simp
    next
      case Plain
      then show ?thesis using False by simp
    qed
  qed simp
next
  case (4 d ts s t name ft fs)
  then obtain s2 where s2: "checkType d ts (check_field t name s) ft = Some s2" by auto
  have "{..<length ts} - checked s2 \<subseteq> {..<length ts} - checked s"
    using search_grows(1) [OF s2] by (auto simp: adds_def)
  then have "card ({..<length ts} - checked s2) < d"
    using card_mono [of "{..<length ts} - checked s" "{..<length ts} - checked s2"] "4.prems"(3)
    by (meson finite_Diff finite_lessThan le_less_trans)
  then show ?case using "4.IH"(2) [OF s2] "4.prems" s2 by auto
qed simp_all

lemma search_closed:
  assumes "adds ts s s' k" "\<And>u. u \<in> checked s \<Longrightarrow> succs ts u \<subseteq> checked s" "t \<in> checked s'"
  shows "(type_refs ts)\<^sup>* `` {t} \<subseteq> checked s'"
proof
  fix u assume "u \<in> (type_refs ts)\<^sup>* `` {t}"
  then have "(t, u) \<in> (type_refs ts)\<^sup>*" by simp
  then show "u \<in> checked s'"
  proof (induction rule: rtrancl_induct)
    case base
    show ?case by (fact assms(3))
  next
    case (step v w)
    then have "w \<in> succs ts v" by (simp add: type_refs_def)
    moreover have "succs ts v \<subseteq> checked s'"
      using assms(1,2) step(3) by (cases "v \<in> checked s") (auto simp: adds_def)
    ultimately show ?case by blast
  qed
qed

lemma checkValue_ends:
  assumes "closed_types ts" "t < length ts"
  shows "\<exists>s'. checkValue ts s (Some t) = Some (Inr s') \<and> checkType (Suc (length ts)) ts s t = Some s'"
proof -
  have "card ({..<length ts} - checked s) \<le> card {..<length ts}" by (rule card_mono) auto
  then have "card ({..<length ts} - checked s) < Suc (length ts)" by simp
  from search_ends(1) [OF assms this] show ?thesis by (auto simp: checkValue_def)
qed

text \<open>
  C35. The search of a type ends whatever cycles the types form, it marks exactly the types that can be reached from
  it by fields, elements and keys, it counts every lower-case field of the types not seen before once, and a second search
  of the same type changes nothing.
\<close>

theorem checkValue_complete:
  assumes "closed_types ts" "t < length ts" "\<And>u. u \<in> checked s \<Longrightarrow> succs ts u \<subseteq> checked s"
  shows "\<exists>s'. checkValue ts s (Some t) = Some (Inr s') \<and>
    checked s' = checked s \<union> (type_refs ts)\<^sup>* `` {t} \<and>
    errorCount s' = errorCount s + (\<Sum>u \<in> (type_refs ts)\<^sup>* `` {t} - checked s. int (lower_fields ts u)) \<and>
    checkValue ts s' (Some t) = Some (Inr s')"
proof -
  obtain s' where s': "checkValue ts s (Some t) = Some (Inr s')" "checkType (Suc (length ts)) ts s t = Some s'"
    using checkValue_ends [OF assms(1,2)] by blast
  have g: "adds ts s s' 0" "t \<in> checked s'" using search_grows(1) [OF s'(2)] by auto
  have all: "checked s' = checked s \<union> (type_refs ts)\<^sup>* `` {t}"
    using search_reach(1) [OF s'(2)] search_closed [OF g(1) assms(3) g(2)] g(1) by (auto simp: adds_def)
  then have "checked s' - checked s = (type_refs ts)\<^sup>* `` {t} - checked s" by auto
  with g(1) have "errorCount s' = errorCount s + (\<Sum>u \<in> (type_refs ts)\<^sup>* `` {t} - checked s. int (lower_fields ts u))"
    by (simp add: adds_def)
  moreover have "checkValue ts s' (Some t) = Some (Inr s')" using g(2) by (simp add: checkValue_def)
  ultimately show ?thesis using s'(1) all by blast
qed

text \<open>
  The witness is a list whose nodes have the lower-case field \<open>val\<close>: the struct, the pointer to it, and int.
\<close>

theorem checkValue_complete_witness:
  "\<exists>s'. checkValue [Struct [(''val'', 2), (''Next'', 1)], ElemOf 0, Plain] \<lparr>checked = {}, errorCount = 0, printed = []\<rparr> (Some 0)
      = Some (Inr s') \<and> checked s' = {0, 1, 2} \<and> errorCount s' = 1"
proof -
  let ?ts = "[Struct [(''val'', 2), (''Next'', 1)], ElemOf 0, Plain]"
  let ?s = "\<lparr>checked = {}, errorCount = 0, printed = []\<rparr>"
  have "closed_types ?ts" by (auto simp: closed_types_def succs_def type_at_def nth_Cons split: nat.splits)
  then have "\<exists>s'. checkValue ?ts ?s (Some 0) = Some (Inr s') \<and> checkValue ?ts s' (Some 0) = Some (Inr s')"
    using checkValue_complete [of ?ts 0 ?s] by auto
  then obtain s' where s': "checkValue ?ts ?s (Some 0) = Some (Inr s')" by blast
  moreover have "checked s' = {0, 1, 2} \<and> errorCount s' = 1" using s'
    by (auto simp: checkValue_def type_at_def check_field_def first_upper_def numeral_2_eq_2)
  ultimately show ?thesis by blast
qed

text \<open>
  A struct with a lower-case field of a basic type cannot be decoded into at all: the search for values that are not the default
  reads the field, and reading it panics.
\<close>

lemma Decode_unexported_panics:
  assumes "closed_types ts" "t < length ts" "view v = Some (VPtr (Some (VStruct ((name, VBasic tname z) # fds))))"
    "\<not> first_upper name"
  shows "Decode ts gob_Decode view s g (Some t) v = Some (Inl (ExplicitPanic ''reflect.Value.Interface''))"
  using checkValue_ends [OF assms(1,2), of s] assms(3,4)
  by (auto simp: Decode_def checkDefault_def checkDefault1.simps)

end
