(* ===== verification/Raft_Harness.thy ===== *)
theory Raft_Harness
  imports Raft_Step LabRPC
begin

text \<open>
  The test harness of Raft, src/raft/config.go: how it starts, crashes, connects and partitions the nodes on the simulated
  network, and how it checks what they do.

  The Raft objects and the persisters are kept by value. A persister is shared by \<^verbatim>\<open>cfg.saved[i]\<close> and the running node, so its
  contents are those in the node while there is one (\<open>saved_now\<close>). Random names and times are arguments. Snapshots of the tests
  are encoded with encoding/gob; \<open>dec\<close> and \<open>enc\<close> stand for it. \<^verbatim>\<open>t.Fatalf\<close> and \<^verbatim>\<open>log.Fatalf\<close> are both \<open>LogFatal\<close>.
\<close>

section \<open>The state\<close>

record 'c config =
  finished :: int
  cfg_net :: Network
  cfg_n :: nat
  rafts :: "'c Raft option list"
  applyErr :: "string list"
  connected :: "bool list"
  saved :: "'c Persister option list"
  endnames :: "string list option list"
  cfg_logs :: "(int \<rightharpoonup> 'c option) list"
  cfg_lastApplied :: "int list"
  rpcs0 :: int
  cmds0 :: int
  bytes0 :: int
  maxIndex :: int
  maxIndex0 :: int
  allocated :: nat \<comment> \<open>the number of \<^verbatim>\<open>labrpc.Server\<close> objects made so far\<close>

type_synonym 'c snap_dec = "8 word list \<Rightarrow> (int \<times> 'c option list) option"

type_synonym 'c snap_enc = "int \<Rightarrow> 'c option list \<Rightarrow> 8 word list"

section \<open>Connecting and disconnecting\<close>

text \<open>\<^verbatim>\<open>endname := cfg.endnames[a][b]; cfg.net.Enable(endname, x)\<close>, for one pair and for a loop over pairs\<close>

definition set_end :: "'c config \<Rightarrow> nat \<Rightarrow> nat \<Rightarrow> bool \<Rightarrow> 'c config res" where
  "set_end cfg a b x =
     bindR (index (endnames cfg) (int a)) (\<lambda>ns.
     bindR (index (slice_elems ns) (int b)) (\<lambda>e.
       Inr (cfg\<lparr>cfg_net := Enable (cfg_net cfg) (Str e) x\<rparr>)))"

definition set_ends :: "'c config \<Rightarrow> bool \<Rightarrow> (nat \<times> nat) list \<Rightarrow> 'c config res" where
  "set_ends cfg x ps = foldR (\<lambda>c (a, b). set_end c a b x) cfg ps"

definition connect :: "'c config \<Rightarrow> nat \<Rightarrow> 'c config res" where
  "connect cfg i =
     bindR (set_index (connected cfg) (int i) True) (\<lambda>cs.
     bindR (set_ends (cfg\<lparr>connected := cs\<rparr>) True
              (map (\<lambda>j. (i, j)) (filter (\<lambda>j. cs ! j) [0..<cfg_n cfg]))) (\<lambda>c1.
       set_ends c1 True (map (\<lambda>j. (j, i)) (filter (\<lambda>j. cs ! j) [0..<cfg_n cfg]))))"

definition disconnect :: "'c config \<Rightarrow> nat \<Rightarrow> 'c config res" where
  "disconnect cfg i =
     bindR (set_index (connected cfg) (int i) False) (\<lambda>cs.
     bindR (set_ends (cfg\<lparr>connected := cs\<rparr>) False
              (map (\<lambda>j. (i, j)) (filter (\<lambda>j. endnames cfg ! i \<noteq> None) [0..<cfg_n cfg]))) (\<lambda>c1.
       set_ends c1 False (map (\<lambda>j. (j, i)) (filter (\<lambda>j. endnames cfg ! j \<noteq> None) [0..<cfg_n cfg]))))"

section \<open>Crash and start\<close>

definition saved_now :: "'c config \<Rightarrow> nat \<Rightarrow> 'c Persister option" where
  "saved_now cfg i =
     (case saved cfg ! i of
        None \<Rightarrow> None
      | Some ps \<Rightarrow> (case rafts cfg ! i of None \<Rightarrow> Some ps | Some rf \<Rightarrow> Some (persister rf)))"

definition resave :: "'c Persister \<Rightarrow> 'c Persister" where
  "resave ps = SaveStateAndSnapshot MakePersister (ReadRaftState ps) (ReadSnapshot ps)"

definition crash1 :: "'c config \<Rightarrow> nat \<Rightarrow> 'c config res" where
  "crash1 cfg i =
     bindR (disconnect cfg i) (\<lambda>c1.
       let c2 = c1\<lparr>cfg_net := DeleteServer (cfg_net c1) (Num (int i))\<rparr>;
           c3 = c2\<lparr>saved := (saved c2)[i := map_option Persister_Copy (saved_now c2 i)]\<rparr>;
           c4 = c3\<lparr>rafts := (rafts c3)[i := None]\<rparr>
       in Inr (c4\<lparr>saved := (saved c4)[i := map_option resave (saved c4 ! i)]\<rparr>))"

text \<open>The string that \<^verbatim>\<open>ingestSnap\<close> returns is empty if all is well.\<close>

definition ingestSnap :: "'c snap_dec \<Rightarrow> 'c config \<Rightarrow> nat \<Rightarrow> bytes \<Rightarrow> int \<Rightarrow> ('c config \<times> string) res" where
  "ingestSnap dec cfg i snap idx =
     (case snap of
        None \<Rightarrow> Inl (LogFatal ''nil snapshot'')
      | Some bs \<Rightarrow>
          (case dec bs of
             None \<Rightarrow> Inl (LogFatal ''snapshot decode error'')
           | Some (lastIncludedIndex, xlog) \<Rightarrow>
               if idx \<noteq> -1 \<and> idx \<noteq> lastIncludedIndex
               then Inr (cfg, ''snapshot does not match m.SnapshotIndex'')
               else Inr (cfg\<lparr>cfg_logs := (cfg_logs cfg)[i :=
                           (\<lambda>j. if 0 \<le> j \<and> j < int (length xlog) then Some (xlog ! nat j) else None)],
                             cfg_lastApplied := (cfg_lastApplied cfg)[i := lastIncludedIndex]\<rparr>, '''')))"

text \<open>The part of \<^verbatim>\<open>start1\<close> that prepares the persister.\<close>

definition start1_persister :: "'c snap_dec \<Rightarrow> 'c config \<Rightarrow> nat \<Rightarrow> 'c config res" where
  "start1_persister dec cfg i =
     (let c1 = cfg\<lparr>cfg_lastApplied := (cfg_lastApplied cfg)[i := 0]\<rparr>
      in case saved c1 ! i of
           None \<Rightarrow> Inr (c1\<lparr>saved := (saved c1)[i := Some MakePersister]\<rparr>)
         | Some ps \<Rightarrow>
             let c2 = c1\<lparr>saved := (saved c1)[i := Some (Persister_Copy ps)]\<rparr>;
                 snap = ReadSnapshot (Persister_Copy ps)
             in if snap \<noteq> None \<and> slice_elems snap \<noteq> [] then
                  bindR (ingestSnap dec c2 i snap (-1)) (\<lambda>(c3, err).
                    if err \<noteq> [] then Inl (LogFatal err) else Inr c3)
                else Inr c2)"

text \<open>A fresh end point for each peer, connected to its server.\<close>

definition make_ends :: "'c config \<Rightarrow> string list \<Rightarrow> 'c config res" where
  "make_ends cfg names =
     foldR (\<lambda>c j. bindR (MakeEnd (cfg_net c) (Str (names ! j))) (\<lambda>nt.
              Inr (c\<lparr>cfg_net := Connect nt (Str (names ! j)) (Num (int j))\<rparr>)))
       cfg [0..<cfg_n cfg]"

definition start1 :: "'c snap_dec \<Rightarrow> 'c config \<Rightarrow> nat \<Rightarrow> string list \<Rightarrow> 'c config res" where
  "start1 dec cfg i names =
     bindR (crash1 cfg i) (\<lambda>c1.
     bindR (make_ends (c1\<lparr>endnames := (endnames c1)[i := Some names]\<rparr>) names) (\<lambda>c2.
     bindR (start1_persister dec c2 i) (\<lambda>c3.
     bindR (Make (cfg_n c3) (int i) (the (saved c3 ! i))) (\<lambda>rf.
       Inr (c3\<lparr>rafts := (rafts c3)[i := Some rf],
               cfg_net := AddServer (cfg_net c3) (Num (int i)) (allocated c3),
               allocated := Suc (allocated c3)\<rparr>)))))"

definition setunreliable :: "'c config \<Rightarrow> bool \<Rightarrow> 'c config" where
  "setunreliable cfg unrel = cfg\<lparr>cfg_net := Reliable (cfg_net cfg) (\<not> unrel)\<rparr>"

definition setlongreordering :: "'c config \<Rightarrow> bool \<Rightarrow> 'c config" where
  "setlongreordering cfg longrel = cfg\<lparr>cfg_net := LongReordering (cfg_net cfg) longrel\<rparr>"

definition empty_config :: "nat \<Rightarrow> 'c config" where
  "empty_config n =
     \<lparr>finished = 0, cfg_net = MakeNetwork, cfg_n = n, rafts = replicate n None, applyErr = replicate n '''',
      connected = replicate n False, saved = replicate n None, endnames = replicate n None,
      cfg_logs = replicate n Map.empty, cfg_lastApplied = replicate n 0,
      rpcs0 = 0, cmds0 = 0, bytes0 = 0, maxIndex = 0, maxIndex0 = 0, allocated = 0\<rparr>"

definition make_config :: "'c snap_dec \<Rightarrow> nat \<Rightarrow> bool \<Rightarrow> string list list \<Rightarrow> 'c config res" where
  "make_config dec n unreliable names =
     (let c0 = setunreliable (empty_config n) unreliable;
          c1 = c0\<lparr>cfg_net := LongDelays (cfg_net c0) True\<rparr>
      in bindR (foldR (\<lambda>c i. start1 dec (c\<lparr>cfg_logs := (cfg_logs c)[i := Map.empty]\<rparr>) i (names ! i)) c1 [0..<n]) (\<lambda>c2.
         foldR connect c2 [0..<n]))"

definition cleanup :: "'c config \<Rightarrow> 'c config res" where
  "cleanup cfg =
     bindR (Cleanup (cfg_net cfg)) (\<lambda>nt.
       Inr (cfg\<lparr>finished := 1, rafts := map (map_option Kill) (rafts cfg), cfg_net := nt\<rparr>))"

definition checkFinished :: "'c config \<Rightarrow> bool" where
  "checkFinished cfg \<longleftrightarrow> finished cfg \<noteq> 0"

section \<open>The partition invariant\<close>

definition end_of :: "'c config \<Rightarrow> nat \<Rightarrow> nat \<Rightarrow> iname option" where
  "end_of cfg i j = (case endnames cfg ! i of None \<Rightarrow> None | Some ns \<Rightarrow> Some (Str (ns ! j)))"

definition is_end :: "'c config \<Rightarrow> nat \<Rightarrow> nat \<Rightarrow> iname \<Rightarrow> bool" where
  "is_end cfg i j e \<longleftrightarrow> i < cfg_n cfg \<and> j < cfg_n cfg \<and> end_of cfg i j = Some e"

definition shape_ok :: "'c config \<Rightarrow> bool" where
  "shape_ok cfg \<longleftrightarrow>
     length (connected cfg) = cfg_n cfg \<and> length (endnames cfg) = cfg_n cfg \<and>
     (\<forall>i < cfg_n cfg. \<forall>ns. endnames cfg ! i = Some ns \<longrightarrow> length ns = cfg_n cfg) \<and>
     (\<forall>i < cfg_n cfg. connected cfg ! i \<longrightarrow> endnames cfg ! i \<noteq> None)"

definition ends_ok :: "'c config \<Rightarrow> bool" where
  "ends_ok cfg \<longleftrightarrow>
     (\<forall>i j e. is_end cfg i j e \<longrightarrow> e \<in> ends (cfg_net cfg) \<and> connections (cfg_net cfg) e = Some (Num (int j))) \<and>
     (\<forall>i j i' j' e. is_end cfg i j e \<longrightarrow> is_end cfg i' j' e \<longrightarrow> i = i' \<and> j = j')"

definition enabled_ok :: "'c config \<Rightarrow> bool" where
  "enabled_ok cfg \<longleftrightarrow>
     (\<forall>e. enabled (cfg_net cfg) e \<longleftrightarrow> (\<exists>i j. is_end cfg i j e \<and> connected cfg ! i \<and> connected cfg ! j))"

lemma index_nat: "a < length xs \<Longrightarrow> index xs (int a) = Inr (xs ! a)"
  by (simp add: index_def)

lemma set_end_Inr:
  assumes "shape_ok cfg" "set_end cfg a b x = Inr c" "a < cfg_n cfg"
  shows "\<exists>e. is_end cfg a b e \<and> c = cfg\<lparr>cfg_net := Enable (cfg_net cfg) e x\<rparr>"
proof -
  have "\<exists>ns. endnames cfg ! a = Some ns \<and> b < cfg_n cfg"
    using assms by (cases "endnames cfg ! a") (auto simp: set_end_def shape_ok_def index_def split: if_splits)
  then show ?thesis
    using assms by (auto simp: set_end_def is_end_def end_of_def shape_ok_def index_def split: if_splits)
qed

text \<open>What a loop over pairs of nodes does: the end points of the pairs get the value, nothing else changes.\<close>

lemma set_ends_Inr:
  assumes "shape_ok cfg" "set_ends cfg x ps = Inr c" "\<forall>(a, b) \<in> set ps. a < cfg_n cfg"
  shows "c = cfg\<lparr>cfg_net := (cfg_net cfg)\<lparr>enabled :=
      (\<lambda>e. if \<exists>(a, b) \<in> set ps. is_end cfg a b e then x else enabled (cfg_net cfg) e)\<rparr>\<rparr>"
  using assms
proof (induction ps arbitrary: cfg)
  case Nil
  then show ?case by (simp add: set_ends_def)
next
  case (Cons p ps)
  obtain a b where p: "p = (a, b)" by (cases p)
  from Cons.prems(2) obtain c1 where c1: "set_end cfg a b x = Inr c1" "set_ends c1 x ps = Inr c"
    by (auto simp: set_ends_def p)
  with set_end_Inr [OF Cons.prems(1) c1(1)] Cons.prems(3) p obtain e where
    e: "is_end cfg a b e" "c1 = cfg\<lparr>cfg_net := Enable (cfg_net cfg) e x\<rparr>" by auto
  have same: "is_end c1 = is_end cfg" "shape_ok c1"
    using Cons.prems(1) by (auto simp: e is_end_def end_of_def shape_ok_def fun_eq_iff split: option.splits)
  have e1: "is_end cfg a b e' \<longleftrightarrow> e' = e" for e'
    using e(1) by (auto simp: is_end_def)
  have "c = c1\<lparr>cfg_net := (cfg_net c1)\<lparr>enabled :=
      (\<lambda>e. if \<exists>(a, b) \<in> set ps. is_end c1 a b e then x else enabled (cfg_net c1) e)\<rparr>\<rparr>"
    by (rule Cons.IH [OF same(2) c1(2)]) (use Cons.prems(3) e in auto)
  then show ?case
    unfolding same by (auto simp: e(2) Enable_def p e1 fun_eq_iff intro!: arg_cong [where f = "\<lambda>f. cfg\<lparr>cfg_net := (cfg_net cfg)\<lparr>enabled := f\<rparr>\<rparr>"])
qed

definition harness_inv :: "'c config \<Rightarrow> bool" where
  "harness_inv cfg \<longleftrightarrow> shape_ok cfg \<and> ends_ok cfg \<and> enabled_ok cfg"

text \<open>The invariant depends on the network, the names and the flags only.\<close>

lemma harness_inv_cong:
  assumes "harness_inv cfg" "cfg_n c = cfg_n cfg" "connected c = connected cfg" "endnames c = endnames cfg"
    "ends (cfg_net c) = ends (cfg_net cfg)" "connections (cfg_net c) = connections (cfg_net cfg)"
    "enabled (cfg_net c) = enabled (cfg_net cfg)"
  shows "harness_inv c"
proof -
  have "is_end c = is_end cfg"
    by (simp add: is_end_def end_of_def assms fun_eq_iff)
  then show ?thesis
    using assms by (simp add: harness_inv_def shape_ok_def ends_ok_def enabled_ok_def)
qed

lemma is_end_connected [simp]: "is_end (cfg\<lparr>connected := cs\<rparr>) = is_end cfg"
  by (simp add: is_end_def end_of_def fun_eq_iff)

lemma is_end_net [simp]: "is_end (cfg\<lparr>cfg_net := nt\<rparr>) = is_end cfg"
  by (simp add: is_end_def end_of_def fun_eq_iff)

text \<open>Both loops of \<^verbatim>\<open>connect\<close> and \<^verbatim>\<open>disconnect\<close> at once.\<close>

lemma two_loops_Inr:
  assumes "shape_ok (cfg\<lparr>connected := cs\<rparr>)" "i < cfg_n cfg"
    and "bindR (set_ends (cfg\<lparr>connected := cs\<rparr>) x (map (\<lambda>j. (i, j)) (filter P [0..<cfg_n cfg])))
           (\<lambda>c1. set_ends c1 x (map (\<lambda>j. (j, i)) (filter Q [0..<cfg_n cfg]))) = Inr c"
  shows "c = cfg\<lparr>connected := cs, cfg_net := (cfg_net cfg)\<lparr>enabled := (\<lambda>e.
      if (\<exists>j. P j \<and> is_end cfg i j e) \<or> (\<exists>j. Q j \<and> is_end cfg j i e) then x else enabled (cfg_net cfg) e)\<rparr>\<rparr>"
proof -
  let ?c0 = "cfg\<lparr>connected := cs\<rparr>"
  from assms(3) obtain c1 where
    c1: "set_ends ?c0 x (map (\<lambda>j. (i, j)) (filter P [0..<cfg_n cfg])) = Inr c1"
    and c: "set_ends c1 x (map (\<lambda>j. (j, i)) (filter Q [0..<cfg_n cfg])) = Inr c" by auto
  note c1' = set_ends_Inr [OF assms(1) c1]
  have sh: "shape_ok c1" and "cfg_n c1 = cfg_n cfg"
    using assms(1,2) by (auto simp: c1' shape_ok_def)
  then have c': "c = c1\<lparr>cfg_net := (cfg_net c1)\<lparr>enabled :=
      (\<lambda>e. if \<exists>(a, b) \<in> set (map (\<lambda>j. (j, i)) (filter Q [0..<cfg_n cfg])). is_end c1 a b e then x
           else enabled (cfg_net c1) e)\<rparr>\<rparr>"
    by (intro set_ends_Inr [OF sh c]) auto
  have row: "(\<exists>(a, b) \<in> set (map (\<lambda>j. (i, j)) (filter P [0..<cfg_n cfg])). is_end cfg a b e) \<longleftrightarrow> (\<exists>j. P j \<and> is_end cfg i j e)"
    and col: "(\<exists>(a, b) \<in> set (map (\<lambda>j. (j, i)) (filter Q [0..<cfg_n cfg])). is_end cfg a b e) \<longleftrightarrow> (\<exists>j. Q j \<and> is_end cfg j i e)"
    for e by (auto simp: is_end_def)
  have c1_eq: "c1 = cfg\<lparr>connected := cs, cfg_net := (cfg_net cfg)\<lparr>enabled :=
      (\<lambda>e. if \<exists>j. P j \<and> is_end cfg i j e then x else enabled (cfg_net cfg) e)\<rparr>\<rparr>"
    using c1' assms(2) by (simp only: is_end_connected row) simp
  have "is_end c1 = is_end cfg"
    by (simp only: c1_eq is_end_net is_end_connected)
  then have f: "(\<lambda>e. if \<exists>(a, b) \<in> set (map (\<lambda>j. (j, i)) (filter Q [0..<cfg_n cfg])). is_end c1 a b e then x
        else enabled (cfg_net c1) e) =
      (\<lambda>e. if (\<exists>j. P j \<and> is_end cfg i j e) \<or> (\<exists>j. Q j \<and> is_end cfg j i e) then x else enabled (cfg_net cfg) e)"
    by (intro ext) (simp only: col, auto simp: c1_eq)
  show ?thesis
    using c' unfolding f by (simp add: c1_eq split del: if_split)
qed

lemma connect_inv:
  assumes "harness_inv cfg" "connect cfg i = Inr c" "endnames cfg ! i \<noteq> None"
  shows "harness_inv c"
proof -
  from assms(2) obtain cs where cs: "set_index (connected cfg) (int i) True = Inr cs"
    and two: "bindR (set_ends (cfg\<lparr>connected := cs\<rparr>) True (map (\<lambda>j. (i, j)) (filter (\<lambda>j. cs ! j) [0..<cfg_n cfg])))
           (\<lambda>c1. set_ends c1 True (map (\<lambda>j. (j, i)) (filter (\<lambda>j. cs ! j) [0..<cfg_n cfg]))) = Inr c"
    by (auto simp: connect_def simp del: bindR_eq_Inr_iff)
  have i: "i < cfg_n cfg" "cs = (connected cfg)[i := True]"
    using cs assms(1) by (auto simp: set_index_eq_Inr_iff harness_inv_def shape_ok_def)
  have sh: "shape_ok (cfg\<lparr>connected := cs\<rparr>)"
    using assms i by (auto simp: harness_inv_def shape_ok_def nth_list_update)
  note c = two_loops_Inr [OF sh i(1) two]
  have len: "length (connected cfg) = cfg_n cfg"
    using assms(1) by (simp add: harness_inv_def shape_ok_def)
  have lt: "is_end cfg a b e \<Longrightarrow> a < cfg_n cfg \<and> b < cfg_n cfg" for a b e
    by (simp add: is_end_def)
  have en: "enabled (cfg_net cfg) e \<longleftrightarrow> (\<exists>i j. is_end cfg i j e \<and> connected cfg ! i \<and> connected cfg ! j)" for e
    using assms(1) by (simp add: harness_inv_def enabled_ok_def)
  have "shape_ok c" "ends_ok c"
    using sh assms(1) by (auto simp: c harness_inv_def shape_ok_def ends_ok_def)
  moreover have "enabled_ok c"
    unfolding enabled_ok_def c i(2) using len i(1) by (auto simp: en nth_list_update dest: lt)
  ultimately show ?thesis by (simp add: harness_inv_def)
qed

lemma disconnect_inv:
  assumes "harness_inv cfg" "disconnect cfg i = Inr c"
  shows "harness_inv c" and "i < cfg_n cfg" and "\<not> connected c ! i" and "endnames c = endnames cfg"
    and "\<exists>f. c = cfg\<lparr>connected := (connected cfg)[i := False], cfg_net := (cfg_net cfg)\<lparr>enabled := f\<rparr>\<rparr>"
proof -
  from assms(2) obtain cs where cs: "set_index (connected cfg) (int i) False = Inr cs"
    and two: "bindR (set_ends (cfg\<lparr>connected := cs\<rparr>) False
             (map (\<lambda>j. (i, j)) (filter (\<lambda>j. endnames cfg ! i \<noteq> None) [0..<cfg_n cfg])))
           (\<lambda>c1. set_ends c1 False (map (\<lambda>j. (j, i)) (filter (\<lambda>j. endnames cfg ! j \<noteq> None) [0..<cfg_n cfg]))) = Inr c"
    by (auto simp: disconnect_def simp del: bindR_eq_Inr_iff)
  have i: "i < cfg_n cfg" "cs = (connected cfg)[i := False]"
    using cs assms(1) by (auto simp: set_index_eq_Inr_iff harness_inv_def shape_ok_def)
  have sh: "shape_ok (cfg\<lparr>connected := cs\<rparr>)"
    using assms i by (auto simp: harness_inv_def shape_ok_def nth_list_update)
  note c = two_loops_Inr [OF sh i(1) two]
  have len: "length (connected cfg) = cfg_n cfg"
    using assms(1) by (simp add: harness_inv_def shape_ok_def)
  have nn: "is_end cfg a b e \<Longrightarrow> a < cfg_n cfg \<and> b < cfg_n cfg \<and> endnames cfg ! a \<noteq> None" for a b e
    by (auto simp: is_end_def end_of_def split: option.splits)
  have en: "enabled (cfg_net cfg) e \<longleftrightarrow> (\<exists>i j. is_end cfg i j e \<and> connected cfg ! i \<and> connected cfg ! j)" for e
    using assms(1) by (simp add: harness_inv_def enabled_ok_def)
  have inj: "is_end cfg a b e \<Longrightarrow> is_end cfg a' b' e \<Longrightarrow> a = a' \<and> b = b'" for a b a' b' e
    using assms(1) unfolding harness_inv_def ends_ok_def by blast
  have "shape_ok c" "ends_ok c"
    using sh assms(1) by (auto simp: c harness_inv_def shape_ok_def ends_ok_def)
  moreover have off: "enabled (cfg_net c) e \<longleftrightarrow> enabled (cfg_net cfg) e \<and> \<not> (\<exists>j. is_end cfg i j e) \<and> \<not> (\<exists>j. is_end cfg j i e)" for e
    by (simp add: c del: not_None_eq) (metis nn)
  moreover have conn: "connected c ! a \<longleftrightarrow> connected cfg ! a \<and> a \<noteq> i" for a
    using len i(1) by (auto simp: c i(2) nth_list_update)
  moreover have "enabled (cfg_net c) e \<longleftrightarrow> (\<exists>i j. is_end c i j e \<and> connected c ! i \<and> connected c ! j)" for e
  proof -
    have "is_end c = is_end cfg" by (simp add: c)
    then show ?thesis unfolding off conn en by (metis inj)
  qed
  ultimately show "harness_inv c" by (simp add: harness_inv_def enabled_ok_def)
  show "i < cfg_n cfg" "\<not> connected c ! i" "endnames c = endnames cfg"
    "\<exists>f. c = cfg\<lparr>connected := (connected cfg)[i := False], cfg_net := (cfg_net cfg)\<lparr>enabled := f\<rparr>\<rparr>"
    using i len by (auto simp: c)
qed

lemma saved_now_net [simp]: "saved_now (cfg\<lparr>cfg_net := nt\<rparr>) i = saved_now cfg i"
  by (simp add: saved_now_def cong: option.case_cong)

lemma crash1_Inr:
  assumes "harness_inv cfg" "crash1 cfg i = Inr c"
  shows "harness_inv c" "i < cfg_n cfg" "\<not> connected c ! i" "endnames c = endnames cfg" "cfg_n c = cfg_n cfg"
    "saved c = (saved cfg)[i := map_option (resave \<circ> Persister_Copy) (saved_now cfg i)]"
    "rafts c = (rafts cfg)[i := None]" "servers (cfg_net c) (Num (int i)) = None"
    "cfg_logs c = cfg_logs cfg" "cfg_lastApplied c = cfg_lastApplied cfg"
proof -
  from assms(2) obtain c1 where c1: "disconnect cfg i = Inr c1"
    and c: "c = c1\<lparr>cfg_net := DeleteServer (cfg_net c1) (Num (int i)),
              rafts := (rafts c1)[i := None],
              saved := (saved c1)[i := map_option resave ((saved c1)[i := map_option Persister_Copy (saved_now c1 i)] ! i)]\<rparr>"
    by (auto simp: crash1_def Let_def)
  note d = disconnect_inv [OF assms(1) c1]
  show "harness_inv c"
    by (rule harness_inv_cong [OF d(1)]) (simp_all add: c DeleteServer_def)
  obtain f where f: "c1 = cfg\<lparr>connected := (connected cfg)[i := False], cfg_net := (cfg_net cfg)\<lparr>enabled := f\<rparr>\<rparr>"
    using d(5) by blast
  have "saved_now c1 i = saved_now cfg i" by (simp add: f) (simp add: saved_now_def cong: option.case_cong)
  then show "saved c = (saved cfg)[i := map_option (resave \<circ> Persister_Copy) (saved_now cfg i)]"
    by (cases "i < length (saved cfg)") (simp_all add: c f option.map_comp list_update_beyond)
  show "i < cfg_n cfg" "\<not> connected c ! i" "endnames c = endnames cfg" "cfg_n c = cfg_n cfg"
    "rafts c = (rafts cfg)[i := None]" "servers (cfg_net c) (Num (int i)) = None"
    "cfg_logs c = cfg_logs cfg" "cfg_lastApplied c = cfg_lastApplied cfg"
    using d(2-4) by (simp_all add: c f DeleteServer_def)
qed

text \<open>Fresh end points: their names are new and different, they are disabled and connected to the right server.\<close>

definition fresh_ends :: "Network \<Rightarrow> Network \<Rightarrow> string list \<Rightarrow> nat \<Rightarrow> bool" where
  "fresh_ends nt nt' names m \<longleftrightarrow>
     ends nt' = ends nt \<union> (\<lambda>j. Str (names ! j)) ` {..<m} \<and>
     inj_on (\<lambda>j. Str (names ! j)) {..<m} \<and> (\<forall>j < m. Str (names ! j) \<notin> ends nt) \<and>
     (\<forall>j < m. connections nt' (Str (names ! j)) = Some (Num (int j))) \<and>
     (\<forall>e. e \<notin> (\<lambda>j. Str (names ! j)) ` {..<m} \<longrightarrow> connections nt' e = connections nt e) \<and>
     (\<forall>e. enabled nt' e \<longleftrightarrow> enabled nt e \<and> e \<notin> (\<lambda>j. Str (names ! j)) ` {..<m}) \<and>
     servers nt' = servers nt"

lemma make_ends_loop:
  assumes "foldR (\<lambda>c j. bindR (MakeEnd (cfg_net c) (Str (names ! j))) (\<lambda>nt.
              Inr (c\<lparr>cfg_net := Connect nt (Str (names ! j)) (Num (int j))\<rparr>))) cfg [0..<m] = Inr c"
  shows "\<exists>nt. c = cfg\<lparr>cfg_net := nt\<rparr> \<and> fresh_ends (cfg_net cfg) nt names m"
  using assms
proof (induction m arbitrary: c)
  case 0
  then show ?case by (intro exI [of _ "cfg_net cfg"]) (simp add: fresh_ends_def)
next
  case (Suc m)
  let ?e = "Str (names ! m)"
  from Suc.prems obtain c1 nt2 where c1: "foldR (\<lambda>c j. bindR (MakeEnd (cfg_net c) (Str (names ! j))) (\<lambda>nt.
              Inr (c\<lparr>cfg_net := Connect nt (Str (names ! j)) (Num (int j))\<rparr>))) cfg [0..<m] = Inr c1"
    and mk: "MakeEnd (cfg_net c1) ?e = Inr nt2" and c: "c = c1\<lparr>cfg_net := Connect nt2 ?e (Num (int m))\<rparr>"
    by (auto simp: foldR_append)
  obtain nt where nt: "c1 = cfg\<lparr>cfg_net := nt\<rparr>" "fresh_ends (cfg_net cfg) nt names m"
    using Suc.IH [OF c1] by blast
  have "?e \<notin> ends nt" and nt2: "nt2 = nt\<lparr>ends := insert ?e (ends nt), enabled := (enabled nt)(?e := False),
      connections := (connections nt)(?e := None)\<rparr>"
    using mk by (auto simp: MakeEnd_def nt split: if_splits)
  moreover have neq: "names ! j \<noteq> names ! m" if "j < m" for j
  proof -
    have "Str (names ! j) \<in> ends nt" using that nt(2) by (simp add: fresh_ends_def)
    with \<open>?e \<notin> ends nt\<close> show ?thesis by metis
  qed
  ultimately have "fresh_ends (cfg_net cfg) (Connect nt2 ?e (Num (int m))) names (Suc m)"
    using nt(2) unfolding fresh_ends_def Connect_def lessThan_Suc
    by (simp add: less_Suc_eq imp_disjL all_conj_distrib neq)
  then show ?case by (auto simp: c nt)
qed

lemma make_ends_Inr:
  "make_ends cfg names = Inr c \<Longrightarrow> \<exists>nt. c = cfg\<lparr>cfg_net := nt\<rparr> \<and> fresh_ends (cfg_net cfg) nt names (cfg_n cfg)"
  unfolding make_ends_def by (rule make_ends_loop)

lemma fresh_ends_inv:
  assumes inv: "harness_inv cfg" and i: "i < cfg_n cfg" "\<not> connected cfg ! i" "length names = cfg_n cfg"
    and fr: "fresh_ends (cfg_net cfg) nt names (cfg_n cfg)"
  shows "harness_inv (cfg\<lparr>endnames := (endnames cfg)[i := Some names], cfg_net := nt\<rparr>)" (is "harness_inv ?c")
proof -
  let ?new = "(\<lambda>j. Str (names ! j)) ` {..<cfg_n cfg}"
  have shape: "shape_ok ?c" and len: "length (endnames cfg) = cfg_n cfg"
    using inv i by (auto simp: harness_inv_def shape_ok_def nth_list_update)
  have is_end: "is_end (cfg\<lparr>endnames := (endnames cfg)[i := Some names]\<rparr>) a b e \<longleftrightarrow> (if a = i then b < cfg_n cfg \<and> e = Str (names ! b) else is_end cfg a b e)" for a b e
    using i(1) len by (auto simp: is_end_def end_of_def)
  have old: "is_end cfg a b e \<Longrightarrow> e \<in> ends (cfg_net cfg) \<and> connections (cfg_net cfg) e = Some (Num (int b))"
    and inj: "is_end cfg a b e \<Longrightarrow> is_end cfg a' b' e \<Longrightarrow> a = a' \<and> b = b'" for a b a' b' e
    using inv unfolding harness_inv_def ends_ok_def by blast+
  have fresh: "e \<in> ends (cfg_net cfg) \<Longrightarrow> e \<notin> ?new" for e
    using fr by (auto simp: fresh_ends_def)
  have "ends_ok ?c"
    unfolding ends_ok_def
  proof (intro conjI allI impI)
    fix a b e assume e: "is_end ?c a b e"
    show "e \<in> ends (cfg_net ?c)" "connections (cfg_net ?c) e = Some (Num (int b))"
      using e fr old [of a b e] fresh [of e] by (auto simp: is_end fresh_ends_def split: if_splits)
  next
    fix a b a' b' e assume e: "is_end ?c a b e" "is_end ?c a' b' e"
    have "inj_on (\<lambda>j. Str (names ! j)) {..<cfg_n cfg}" using fr by (simp add: fresh_ends_def)
    with e old fresh inj show "a = a'" "b = b'"
      by (auto simp: is_end inj_on_def split: if_splits) blast+
  qed
  moreover have "enabled_ok ?c"
    unfolding enabled_ok_def
  proof
    fix e
    have "enabled (cfg_net ?c) e \<longleftrightarrow> enabled (cfg_net cfg) e \<and> e \<notin> ?new"
      using fr by (simp add: fresh_ends_def)
    also have "\<dots> \<longleftrightarrow> (\<exists>a b. is_end cfg a b e \<and> connected cfg ! a \<and> connected cfg ! b)"
      using inv fresh [of e] old by (auto simp: harness_inv_def enabled_ok_def)
    also have "\<dots> \<longleftrightarrow> (\<exists>a b. is_end ?c a b e \<and> connected ?c ! a \<and> connected ?c ! b)"
      using i(2) by (auto simp: is_end split: if_splits)
    finally show "enabled (cfg_net ?c) e \<longleftrightarrow> (\<exists>a b. is_end ?c a b e \<and> connected ?c ! a \<and> connected ?c ! b)" .
  qed
  ultimately show ?thesis using shape by (simp add: harness_inv_def)
qed

lemma ingestSnap_keeps:
  assumes "ingestSnap dec cfg i snap idx = Inr (c, err)"
  shows "c = cfg\<lparr>cfg_logs := cfg_logs c, cfg_lastApplied := cfg_lastApplied c\<rparr>"
  using assms by (auto simp: ingestSnap_def split: option.splits prod.splits if_splits)

lemma start1_persister_keeps:
  assumes "start1_persister dec cfg i = Inr c"
  shows "c = cfg\<lparr>saved := (saved cfg)[i := Some (case saved cfg ! i of None \<Rightarrow> MakePersister | Some ps \<Rightarrow> Persister_Copy ps)],
      cfg_logs := cfg_logs c, cfg_lastApplied := cfg_lastApplied c\<rparr>"
proof (cases "saved cfg ! i")
  case None
  then show ?thesis
    using assms by (auto simp: start1_persister_def Let_def)
next
  case (Some ps)
  define c2 where "c2 = cfg\<lparr>cfg_lastApplied := (cfg_lastApplied cfg)[i := 0],
      saved := (saved cfg)[i := Some (Persister_Copy ps)]\<rparr>"
  have "c = c2 \<or> (\<exists>snap err. ingestSnap dec c2 i snap (-1) = Inr (c, err))"
    using assms Some by (auto simp: start1_persister_def Let_def c2_def split: if_splits)
  then have "c = c2\<lparr>cfg_logs := cfg_logs c, cfg_lastApplied := cfg_lastApplied c\<rparr>"
    using ingestSnap_keeps by auto
  then show ?thesis unfolding Some option.case by (simp add: c2_def)
qed

text \<open>The contents of the persister that \<^verbatim>\<open>start1\<close> gives to the new node.\<close>

definition restart_ps :: "'c config \<Rightarrow> nat \<Rightarrow> 'c Persister" where
  "restart_ps cfg i =
     (case saved_now cfg i of None \<Rightarrow> MakePersister | Some ps \<Rightarrow> Persister_Copy (resave (Persister_Copy ps)))"

lemma start1_Inr:
  assumes "harness_inv cfg" "start1 dec cfg i names = Inr c" "length names = cfg_n cfg"
  shows "harness_inv c" "endnames c = (endnames cfg)[i := Some names]" "cfg_n c = cfg_n cfg"
    "i < cfg_n cfg" "\<not> connected c ! i"
    "\<exists>rf. rafts c = (rafts cfg)[i := Some rf] \<and> saved c = (saved cfg)[i := Some (restart_ps cfg i)] \<and>
       (i < length (saved cfg) \<longrightarrow> Make (cfg_n cfg) (int i) (restart_ps cfg i) = Inr rf)"
proof -
  from assms(2) obtain c1 c2 c3 rf where c1: "crash1 cfg i = Inr c1"
    and c2: "make_ends (c1\<lparr>endnames := (endnames c1)[i := Some names]\<rparr>) names = Inr c2"
    and c3: "start1_persister dec c2 i = Inr c3" and rf: "Make (cfg_n c3) (int i) (the (saved c3 ! i)) = Inr rf"
    and c: "c = c3\<lparr>rafts := (rafts c3)[i := Some rf],
               cfg_net := AddServer (cfg_net c3) (Num (int i)) (allocated c3), allocated := Suc (allocated c3)\<rparr>"
    by (auto simp: start1_def)
  note cr = crash1_Inr [OF assms(1) c1]
  from make_ends_Inr [OF c2] obtain nt where
    nt: "c2 = c1\<lparr>endnames := (endnames c1)[i := Some names], cfg_net := nt\<rparr>"
      "fresh_ends (cfg_net c1) nt names (cfg_n c1)" by auto
  have inv2: "harness_inv c2"
    unfolding nt(1) by (rule fresh_ends_inv [OF cr(1) _ cr(3) _ nt(2)]) (simp_all add: cr assms(3))
  obtain l a where
    c3': "c3 = c2\<lparr>saved := (saved c2)[i := Some (case saved c2 ! i of
      None \<Rightarrow> MakePersister | Some ps \<Rightarrow> Persister_Copy ps)], cfg_logs := l, cfg_lastApplied := a\<rparr>" using start1_persister_keeps [OF c3] by blast
  show "harness_inv c"
    by (rule harness_inv_cong [OF inv2]) (simp_all add: c c3' AddServer_def)
  show "endnames c = (endnames cfg)[i := Some names]" "cfg_n c = cfg_n cfg" "i < cfg_n cfg" "\<not> connected c ! i"
    using cr(2,3) by (simp_all add: c c3' nt cr)
  have sv: "saved c3 = (saved cfg)[i := Some (restart_ps cfg i)]"
    by (cases "i < length (saved cfg)")
      (auto simp: c3' nt cr restart_ps_def list_update_beyond split: option.splits)
  show "\<exists>rf. rafts c = (rafts cfg)[i := Some rf] \<and> saved c = (saved cfg)[i := Some (restart_ps cfg i)] \<and>
       (i < length (saved cfg) \<longrightarrow> Make (cfg_n cfg) (int i) (restart_ps cfg i) = Inr rf)"
    using rf sv by (intro exI [of _ rf]) (auto simp: c c3' nt cr)
qed

section \<open>All executions of a test\<close>

text \<open>
  The operations that a test calls, and what happens beside them: the nodes run, messages are counted, the appliers record what
  they read.
\<close>

inductive harness_reach :: "'c snap_dec \<Rightarrow> 'c config \<Rightarrow> bool" for dec where
  HR_make: "make_config dec n unreliable names = Inr cfg \<Longrightarrow> \<forall>ns \<in> set names. length ns = n \<Longrightarrow>
    n \<le> length names \<Longrightarrow> harness_reach dec cfg"
| HR_connect: "harness_reach dec cfg \<Longrightarrow> connect cfg i = Inr c \<Longrightarrow> harness_reach dec c"
| HR_disconnect: "harness_reach dec cfg \<Longrightarrow> disconnect cfg i = Inr c \<Longrightarrow> harness_reach dec c"
| HR_crash: "harness_reach dec cfg \<Longrightarrow> crash1 cfg i = Inr c \<Longrightarrow> harness_reach dec c"
| HR_start: "harness_reach dec cfg \<Longrightarrow> start1 dec cfg i names = Inr c \<Longrightarrow> length names = cfg_n cfg \<Longrightarrow>
    harness_reach dec c"
| HR_unreliable: "harness_reach dec cfg \<Longrightarrow> harness_reach dec (setunreliable cfg b)"
| HR_longreordering: "harness_reach dec cfg \<Longrightarrow> harness_reach dec (setlongreordering cfg b)"
| HR_cleanup: "harness_reach dec cfg \<Longrightarrow> cleanup cfg = Inr c \<Longrightarrow> harness_reach dec c"
| HR_request: "harness_reach dec cfg \<Longrightarrow> harness_reach dec (cfg\<lparr>cfg_net := accept_req (cfg_net cfg) m\<rparr>)"
| HR_reply: "harness_reach dec cfg \<Longrightarrow> harness_reach dec (cfg\<lparr>cfg_net := send_reply (cfg_net cfg) r\<rparr>)"
| HR_node: "harness_reach dec cfg \<Longrightarrow> i < cfg_n cfg \<Longrightarrow> rafts cfg ! i = Some rf0 \<Longrightarrow> node_step rf0 rf \<Longrightarrow>
    harness_reach dec (cfg\<lparr>rafts := (rafts cfg)[i := Some rf]\<rparr>)"
| HR_applier: "harness_reach dec cfg \<Longrightarrow>
    harness_reach dec (cfg\<lparr>cfg_logs := l, cfg_lastApplied := a, maxIndex := m, applyErr := er\<rparr>)"

text \<open>The persisted state belongs to a well-formed node; only the elements of the byte slices matter.\<close>

definition ps_ok :: "nat \<Rightarrow> nat \<Rightarrow> 'c Persister \<Rightarrow> 'c Raft \<Rightarrow> bool" where
  "ps_ok n i ps rf \<longleftrightarrow> node_ok rf \<and> me rf = int i \<and> peers rf = n \<and>
     slice_elems (raftstate ps) = slice_elems (raftstate (persister rf))"

definition crash_inv :: "'c config \<Rightarrow> bool" where
  "crash_inv cfg \<longleftrightarrow> length (rafts cfg) = cfg_n cfg \<and> length (saved cfg) = cfg_n cfg \<and>
     (\<forall>i < cfg_n cfg. (\<forall>ps. saved_now cfg i = Some ps \<longrightarrow> (\<exists>rf. ps_ok (cfg_n cfg) i ps rf)) \<and>
        (\<forall>rf. rafts cfg ! i = Some rf \<longrightarrow> saved cfg ! i \<noteq> None \<and> ps_ok (cfg_n cfg) i (persister rf) rf))"

lemma crash_inv_cong:
  assumes "crash_inv cfg" "cfg_n c = cfg_n cfg" "rafts c = rafts cfg" "saved c = saved cfg"
  shows "crash_inv c"
proof -
  have "saved_now c = saved_now cfg" unfolding saved_now_def [abs_def] assms ..
  with assms show ?thesis by (simp add: crash_inv_def)
qed

lemma ps_ok_same:
  assumes "ps_ok n i ps rf" "slice_elems (raftstate ps') = slice_elems (raftstate ps)"
  shows "ps_ok n i ps' rf"
  using assms by (simp add: ps_ok_def)

lemma raftstate_copies [simp]:
  "slice_elems (raftstate (Persister_Copy ps)) = slice_elems (raftstate ps)"
  "slice_elems (raftstate (resave ps)) = slice_elems (raftstate ps)"
  by (simp_all add: Persister_Copy_def resave_def ReadRaftState_def clone_def)

text \<open>A node made from persisted state has the term, the vote and the log of the node that persisted it.\<close>

lemma Make_ps_ok:
  assumes "ps_ok n i ps rf" "Make n (int i) ps = Inr rf'"
  shows "currentTerm rf' = currentTerm rf" "votedFor rf' = votedFor rf" "logs rf' = logs rf"
    "state rf' = Follower" "ps_ok n i (persister rf') rf'"
proof -
  define rf1 where "rf1 = rf\<lparr>persister := ps\<rparr>"
  have ok1: "node_ok rf1"
    using assms(1) by (auto simp: rf1_def ps_ok_def node_ok_def wf_node_def durable_def role_ok_def encodeState_def
        split: list.splits)
  have mk: "Make (peers rf1) (me rf1) (persister rf1) = Inr rf'"
    using assms by (simp add: rf1_def ps_ok_def)
  have wd: "wf_node rf1" "durable rf1" using ok1 by (simp_all add: node_ok_def)
  note d = Make_durable [OF wd] and ok' = Make_ok [OF ok1 mk]
  show "currentTerm rf' = currentTerm rf" "votedFor rf' = votedFor rf" "logs rf' = logs rf" "state rf' = Follower"
    using d mk by (auto simp: rf1_def)
  show "ps_ok n i (persister rf') rf'"
    using ok' assms(1) by (simp add: ps_ok_def evolves_def rf1_def)
qed

lemma ps_ok_fresh: "i < n \<Longrightarrow> \<exists>rf. ps_ok n i MakePersister rf"
proof -
  assume "i < n"
  then obtain rf :: "'a Raft" where rf: "Make n (int i) MakePersister = Inr rf" "node_ok rf" "peers rf = n" "me rf = int i"
    using Make_fresh [of "int i" n] by auto
  then have "persister rf = MakePersister"
    by (auto simp: Make_def Let_def readPersist_def ReadRaftState_def clone_def MakePersister_def split: if_splits)
      (metis Raft.select_convs(2))
  with rf show ?thesis by (auto simp: ps_ok_def)
qed

lemma crash_inv_node:
  assumes "crash_inv cfg" "i < cfg_n cfg" "ps_ok (cfg_n cfg) i (persister rf) rf"
    and "length sv = cfg_n cfg" "\<And>j. j < cfg_n cfg \<Longrightarrow> j \<noteq> i \<Longrightarrow> sv ! j = saved cfg ! j" "sv ! i \<noteq> None"
  shows "crash_inv (cfg\<lparr>rafts := (rafts cfg)[i := Some rf], saved := sv\<rparr>)"
proof -
  let ?c = "cfg\<lparr>rafts := (rafts cfg)[i := Some rf], saved := sv\<rparr>"
  have len: "length (rafts cfg) = cfg_n cfg" using assms(1) by (simp add: crash_inv_def)
  have "saved_now ?c j = (if j = i then Some (persister rf) else saved_now cfg j)" if "j < cfg_n cfg" for j
    using assms(2,5,6) len that by (auto simp: saved_now_def split: option.splits)
  then show ?thesis
    using assms len by (auto simp: crash_inv_def nth_list_update)
qed

lemma crash1_crash_inv:
  assumes "harness_inv cfg" "crash_inv cfg" "crash1 cfg i = Inr c"
  shows "crash_inv c"
    and "rafts cfg ! i = Some rf \<Longrightarrow> \<exists>ps. saved_now c i = Some ps \<and> ps_ok (cfg_n cfg) i ps rf"
proof -
  note cr = crash1_Inr [OF assms(1,3)]
  have len: "length (rafts cfg) = cfg_n cfg" "length (saved cfg) = cfg_n cfg"
    using assms(2) by (simp_all add: crash_inv_def)
  have now: "saved_now c j = (if j = i then map_option (resave \<circ> Persister_Copy) (saved_now cfg i) else saved_now cfg j)"
    if "j < cfg_n cfg" for j
    using that cr(2) len by (auto simp: saved_now_def [of c] saved_now_def [of cfg j] cr split: option.splits)
  have "\<exists>rf. ps_ok (cfg_n cfg) j ps rf" if j: "j < cfg_n cfg" "saved_now c j = Some ps" for j ps
  proof -
    obtain ps0 where "saved_now cfg j = Some ps0" "slice_elems (raftstate ps) = slice_elems (raftstate ps0)"
      using j now [OF j(1)] by (auto split: if_splits)
    then show ?thesis using j(1) assms(2) ps_ok_same unfolding crash_inv_def by blast
  qed
  then show "crash_inv c"
    using assms(2) cr len by (auto simp: crash_inv_def nth_list_update)
  assume rf: "rafts cfg ! i = Some rf"
  then have "saved_now cfg i = Some (persister rf)" "ps_ok (cfg_n cfg) i (persister rf) rf"
    using assms(2) cr(2) by (auto simp: crash_inv_def saved_now_def split: option.splits)
  then show "\<exists>ps. saved_now c i = Some ps \<and> ps_ok (cfg_n cfg) i ps rf"
    using now [OF cr(2)] by (auto intro: ps_ok_same)
qed

lemma start1_crash_inv:
  assumes "harness_inv cfg" "crash_inv cfg" "start1 dec cfg i names = Inr c" "length names = cfg_n cfg"
  shows "crash_inv c"
    and "saved_now cfg i = Some ps \<Longrightarrow> ps_ok (cfg_n cfg) i ps rf \<Longrightarrow>
      \<exists>rf'. rafts c ! i = Some rf' \<and> currentTerm rf' = currentTerm rf \<and> votedFor rf' = votedFor rf \<and>
        logs rf' = logs rf \<and> state rf' = Follower"
proof -
  note st = start1_Inr [OF assms(1,3,4)]
  have len: "length (rafts cfg) = cfg_n cfg" "length (saved cfg) = cfg_n cfg"
    using assms(2) by (simp_all add: crash_inv_def)
  obtain rf1 where rf1: "rafts c = (rafts cfg)[i := Some rf1]"
    "saved c = (saved cfg)[i := Some (restart_ps cfg i)]" "Make (cfg_n cfg) (int i) (restart_ps cfg i) = Inr rf1"
    using st(4,6) len by auto
  have cong: "crash_inv (cfg\<lparr>rafts := rafts c, saved := saved c\<rparr>) \<Longrightarrow> crash_inv c"
    by (erule crash_inv_cong) (simp_all add: st(3))
  have ex: "\<exists>rf. ps_ok (cfg_n cfg) i (restart_ps cfg i) rf"
  proof (cases "saved_now cfg i")
    case None
    then show ?thesis using ps_ok_fresh [OF st(4)] by (simp add: restart_ps_def)
  next
    case (Some ps)
    then obtain rf where "ps_ok (cfg_n cfg) i ps rf" using assms(2) st(4) unfolding crash_inv_def by blast
    then have "ps_ok (cfg_n cfg) i (restart_ps cfg i) rf" by (rule ps_ok_same) (simp add: restart_ps_def Some)
    then show ?thesis ..
  qed
  then obtain rf0 where rf0: "ps_ok (cfg_n cfg) i (restart_ps cfg i) rf0" ..
  note mk = Make_ps_ok [OF rf0 rf1(3)]
  have "crash_inv (cfg\<lparr>rafts := (rafts cfg)[i := Some rf1], saved := (saved cfg)[i := Some (restart_ps cfg i)]\<rparr>)"
    by (rule crash_inv_node [OF assms(2) st(4) mk(5)]) (use len st(4) in auto)
  then show "crash_inv c" by (intro cong) (simp only: rf1)
  assume ps: "saved_now cfg i = Some ps" "ps_ok (cfg_n cfg) i ps rf"
  then have "ps_ok (cfg_n cfg) i (restart_ps cfg i) rf"
    by (intro ps_ok_same [OF ps(2)]) (simp add: restart_ps_def)
  from Make_ps_ok [OF this rf1(3)] show "\<exists>rf'. rafts c ! i = Some rf' \<and> currentTerm rf' = currentTerm rf \<and>
      votedFor rf' = votedFor rf \<and> logs rf' = logs rf \<and> state rf' = Follower"
    using st(4) len by (simp add: rf1)
qed

lemma start_all_inv:
  assumes "foldR (\<lambda>c i. start1 dec (c\<lparr>cfg_logs := (cfg_logs c)[i := Map.empty]\<rparr>) i (names ! i)) cfg [0..<m] = Inr c"
    "harness_inv cfg" "crash_inv cfg" "\<forall>ns \<in> set names. length ns = cfg_n cfg" "m \<le> cfg_n cfg" "cfg_n cfg \<le> length names"
  shows "harness_inv c \<and> crash_inv c \<and> cfg_n c = cfg_n cfg \<and> (\<forall>i < m. endnames c ! i \<noteq> None)"
  using assms
proof (induction m arbitrary: c)
  case (Suc m)
  then obtain c1 where c1: "foldR (\<lambda>c i. start1 dec (c\<lparr>cfg_logs := (cfg_logs c)[i := Map.empty]\<rparr>) i (names ! i)) cfg [0..<m] = Inr c1"
    and st: "start1 dec (c1\<lparr>cfg_logs := (cfg_logs c1)[m := Map.empty]\<rparr>) m (names ! m) = Inr c"
    by (auto simp: foldR_append)
  with Suc have ih: "harness_inv c1" "crash_inv c1" "cfg_n c1 = cfg_n cfg" "\<forall>i < m. endnames c1 ! i \<noteq> None" by auto
  have inv1: "harness_inv (c1\<lparr>cfg_logs := (cfg_logs c1)[m := Map.empty]\<rparr>)"
    "crash_inv (c1\<lparr>cfg_logs := (cfg_logs c1)[m := Map.empty]\<rparr>)"
    by (rule harness_inv_cong [OF ih(1)] crash_inv_cong [OF ih(2)]; simp)+
  note s = start1_Inr [OF inv1(1) st] start1_crash_inv(1) [OF inv1 st]
  have "length (names ! m) = cfg_n cfg" using Suc.prems by auto
  moreover have "length (endnames c1) = cfg_n cfg"
    using ih(1,3) by (simp add: harness_inv_def shape_ok_def)
  ultimately show ?case
    using s ih Suc.prems(5) by (auto simp: less_Suc_eq nth_list_update)
qed simp

lemma empty_config_inv:
  "harness_inv (empty_config n)" "crash_inv (empty_config n)"
  by (auto simp: harness_inv_def shape_ok_def ends_ok_def enabled_ok_def is_end_def end_of_def empty_config_def
      MakeNetwork_def crash_inv_def saved_now_def)

text \<open>The invariants together, for whole executions.\<close>

definition test_inv :: "'c config \<Rightarrow> bool" where
  "test_inv cfg \<longleftrightarrow> harness_inv cfg \<and> crash_inv cfg \<and> (\<forall>i < cfg_n cfg. endnames cfg ! i \<noteq> None)"

lemma disconnect_keeps:
  assumes "harness_inv cfg" "disconnect cfg i = Inr c"
  shows "cfg_n c = cfg_n cfg" "rafts c = rafts cfg" "saved c = saved cfg" "endnames c = endnames cfg"
  using disconnect_inv(5) [OF assms] by auto

lemma connect_keeps:
  assumes "harness_inv cfg" "connect cfg i = Inr c" "endnames cfg ! i \<noteq> None"
  shows "cfg_n c = cfg_n cfg" "rafts c = rafts cfg" "saved c = saved cfg" "endnames c = endnames cfg"
proof -
  from assms(2) obtain cs where cs: "set_index (connected cfg) (int i) True = Inr cs"
    and two: "bindR (set_ends (cfg\<lparr>connected := cs\<rparr>) True (map (\<lambda>j. (i, j)) (filter (\<lambda>j. cs ! j) [0..<cfg_n cfg])))
           (\<lambda>c1. set_ends c1 True (map (\<lambda>j. (j, i)) (filter (\<lambda>j. cs ! j) [0..<cfg_n cfg]))) = Inr c"
    by (auto simp: connect_def simp del: bindR_eq_Inr_iff)
  have i: "i < cfg_n cfg" "cs = (connected cfg)[i := True]"
    using cs assms(1) by (auto simp: set_index_eq_Inr_iff harness_inv_def shape_ok_def)
  have "shape_ok (cfg\<lparr>connected := cs\<rparr>)"
    using assms i by (auto simp: harness_inv_def shape_ok_def nth_list_update)
  from two_loops_Inr [OF this i(1) two]
  show "cfg_n c = cfg_n cfg" "rafts c = rafts cfg" "saved c = saved cfg" "endnames c = endnames cfg"
    by simp_all
qed

lemma connect_test_inv:
  assumes "test_inv cfg" "connect cfg i = Inr c"
  shows "test_inv c" "cfg_n c = cfg_n cfg"
proof -
  have inv: "harness_inv cfg" using assms(1) by (simp add: test_inv_def)
  then have "i < cfg_n cfg"
    using assms(2) by (auto simp: connect_def set_index_eq_Inr_iff harness_inv_def shape_ok_def)
  then have nn: "endnames cfg ! i \<noteq> None" using assms(1) by (simp add: test_inv_def)
  note k = connect_keeps [OF inv assms(2) nn]
  show "cfg_n c = cfg_n cfg" by (rule k(1))
  have "crash_inv c" by (rule crash_inv_cong [of cfg]) (use assms(1) k in \<open>auto simp: test_inv_def\<close>)
  then show "test_inv c" using connect_inv [OF inv assms(2) nn] assms(1) k by (simp add: test_inv_def)
qed

lemma connect_all_test_inv: "foldR connect cfg is = Inr c \<Longrightarrow> test_inv cfg \<Longrightarrow> test_inv c"
  by (induction "is" arbitrary: cfg) (auto dest: connect_test_inv(1))

lemma start1_test_inv:
  assumes "test_inv cfg" "start1 dec cfg i names = Inr c" "length names = cfg_n cfg"
  shows "test_inv c"
proof -
  have inv: "harness_inv cfg" "crash_inv cfg" using assms(1) by (simp_all add: test_inv_def)
  note st = start1_Inr [OF inv(1) assms(2,3)]
  have "length (endnames cfg) = cfg_n cfg" using inv by (simp add: harness_inv_def shape_ok_def)
  then show ?thesis
    using st(1-4) start1_crash_inv(1) [OF inv assms(2,3)] assms(1)
    by (simp add: test_inv_def nth_list_update del: not_None_eq)
qed

lemma make_config_test_inv:
  fixes cfg :: "'c config"
  assumes "make_config dec n unreliable names = Inr cfg" "\<forall>ns \<in> set names. length ns = n" "n \<le> length names"
  shows "test_inv cfg"
proof -
  define c0 :: "'c config" where "c0 = setunreliable (empty_config n) unreliable"
  define c1 where "c1 = c0\<lparr>cfg_net := LongDelays (cfg_net c0) True\<rparr>"
  from assms(1) obtain c2 where
    c2: "foldR (\<lambda>c i. start1 dec (c\<lparr>cfg_logs := (cfg_logs c)[i := Map.empty]\<rparr>) i (names ! i)) c1 [0..<n] = Inr c2"
    and cfg: "foldR connect c2 [0..<n] = Inr cfg"
    by (auto simp: make_config_def Let_def c1_def c0_def)
  have n: "cfg_n c1 = n" by (simp add: c1_def c0_def setunreliable_def empty_config_def)
  have inv: "harness_inv c1" "crash_inv c1"
    by (rule harness_inv_cong [OF empty_config_inv(1) [of n]] crash_inv_cong [OF empty_config_inv(2) [of n]];
        simp add: c1_def c0_def setunreliable_def LongDelays_def Reliable_def)+
  have "test_inv c2"
    using start_all_inv [OF c2 inv] assms(2,3) n by (simp add: test_inv_def)
  then show ?thesis by (rule connect_all_test_inv [OF cfg])
qed

lemma ps_ok_Kill: "ps_ok n i (persister rf) rf \<Longrightarrow> ps_ok n i (persister (Kill rf)) (Kill rf)"
  using Kill_ok [of rf] by (simp add: ps_ok_def Kill_def)

lemma harness_reach_inv: "harness_reach dec cfg \<Longrightarrow> test_inv cfg"
proof (induction rule: harness_reach.induct)
  case (HR_make n unreliable names cfg)
  then show ?case by (rule make_config_test_inv)
next
  case (HR_connect cfg i c)
  then show ?case using connect_test_inv(1) by blast
next
  case (HR_disconnect cfg i c)
  then have inv: "harness_inv cfg" "crash_inv cfg" by (simp_all add: test_inv_def)
  note k = disconnect_keeps [OF inv(1) HR_disconnect(2)]
  have "crash_inv c" by (rule crash_inv_cong [OF inv(2)]) (simp_all add: k)
  then show ?case using disconnect_inv(1) [OF inv(1) HR_disconnect(2)] HR_disconnect(3) k by (simp add: test_inv_def)
next
  case (HR_crash cfg i c)
  then have inv: "harness_inv cfg" "crash_inv cfg" by (simp_all add: test_inv_def)
  show ?case
    using crash1_Inr(1,4,5) [OF inv(1) HR_crash(2)] crash1_crash_inv(1) [OF inv HR_crash(2)] HR_crash(3)
    by (simp add: test_inv_def)
next
  case (HR_start cfg i names c)
  then show ?case using start1_test_inv by blast
next
  case (HR_node cfg i rf0 rf)
  then have inv: "harness_inv cfg" "crash_inv cfg" by (simp_all add: test_inv_def)
  have old: "ps_ok (cfg_n cfg) i (persister rf0) rf0" "saved cfg ! i \<noteq> None" and len: "length (saved cfg) = cfg_n cfg"
    using inv(2) HR_node(2,3) by (auto simp: crash_inv_def)
  then have "ps_ok (cfg_n cfg) i (persister rf) rf"
    using node_step_keeps [OF HR_node(4)] by (auto simp: ps_ok_def evolves_def)
  from crash_inv_node [OF inv(2) HR_node(2) this, of "saved cfg"] len old(2)
  have "crash_inv (cfg\<lparr>rafts := (rafts cfg)[i := Some rf]\<rparr>)" by simp
  moreover have "harness_inv (cfg\<lparr>rafts := (rafts cfg)[i := Some rf]\<rparr>)"
    by (rule harness_inv_cong [OF inv(1)]) simp_all
  ultimately show ?case using HR_node(5) by (simp add: test_inv_def)
next
  case (HR_cleanup cfg c)
  have inv: "harness_inv cfg" "crash_inv cfg" using HR_cleanup(3) by (simp_all add: test_inv_def)
  obtain nt where nt: "Cleanup (cfg_net cfg) = Inr nt"
    and c: "c = cfg\<lparr>finished := 1, rafts := map (map_option Kill) (rafts cfg), cfg_net := nt\<rparr>"
    using HR_cleanup(2) by (auto simp: cleanup_def)
  have "harness_inv c"
    by (rule harness_inv_cong [OF inv(1)]) (use nt in \<open>auto simp: c Cleanup_def split: if_splits\<close>)
  moreover have "crash_inv c"
  proof -
    have len: "length (rafts cfg) = cfg_n cfg" using inv(2) by (simp add: crash_inv_def)
    have "saved_now c i = saved_now cfg i" if "i < cfg_n cfg" for i
      using that len by (cases "rafts cfg ! i"; cases "saved cfg ! i") (simp_all add: c saved_now_def Kill_def)
    then show ?thesis
      using inv(2) len unfolding crash_inv_def by (auto simp: c ps_ok_Kill)
  qed
  ultimately show ?case using HR_cleanup(3) by (simp add: test_inv_def c)
qed (auto simp: test_inv_def setunreliable_def setlongreordering_def Reliable_def LongReordering_def accept_req_def
    send_reply_def elim!: harness_inv_cong crash_inv_cong)

section \<open>Properties\<close>

text \<open>A small test for the witnesses: one node, and a name for another incarnation of it.\<close>

definition no_snaps :: "nat snap_dec" where
  "no_snaps b = None"

lemma one_node_eval:
  "case make_config no_snaps 1 True [[''a'']] of
     Inl _ \<Rightarrow> False
   | Inr c \<Rightarrow> cfg_n c = 1 \<and> connected c = [True] \<and> \<not> Option.is_none (rafts c ! 0) \<and> endnames c = [Some [''a'']] \<and>
       (case disconnect c 0 of Inl _ \<Rightarrow> False | Inr d \<Rightarrow> connected d = [False]) \<and>
       (case crash1 c 0 of Inl _ \<Rightarrow> False | Inr d \<Rightarrow>
          (case start1 no_snaps d 0 [''b''] of Inl _ \<Rightarrow> False | Inr e \<Rightarrow> True))"
  by code_simp

lemma one_node:
  obtains c d e f where "harness_reach no_snaps c" "cfg_n c = 1" "connected c = [True]" "endnames c = [Some [''a'']]"
    "rafts c ! 0 \<noteq> None" "disconnect c 0 = Inr d" "connected d = [False]"
    "crash1 c 0 = Inr e" "start1 no_snaps e 0 [''b''] = Inr f"
proof -
  obtain c where c: "make_config no_snaps 1 True [[''a'']] = Inr c"
    using one_node_eval by (auto split: sum.splits)
  have "harness_reach no_snaps c"
    by (rule HR_make [OF c]) simp_all
  with one_node_eval [unfolded c sum.case] that show ?thesis
    by (auto simp: Option.is_none_def split: sum.splits)
qed

text \<open>
  C19. The harness makes exactly the partitions that it is asked for: in every state of every test an end point is enabled if
  and only if it is the current end point of one connected node for another one, so that end points of crashed
  incarnations stay cut off, and a request that gets past the network comes from a connected node and goes to the
  server of the connected node that the end point was made for.
\<close>

theorem partition_isolates:
  assumes "harness_reach dec cfg"
  shows "(\<forall>e. enabled (cfg_net cfg) e \<longleftrightarrow> (\<exists>i j. is_end cfg i j e \<and> connected cfg ! i \<and> connected cfg ! j)) \<and>
    (\<forall>rq lost s p rel lr. process_start (cfg_net cfg) rq lost = Waiting s p rel lr \<longrightarrow>
       (\<exists>i j. is_end cfg i j (endname rq) \<and> connected cfg ! i \<and> connected cfg ! j \<and> s = Num (int j)))"
proof -
  have inv: "harness_inv cfg" using harness_reach_inv [OF assms] by (simp add: test_inv_def)
  then have en: "enabled (cfg_net cfg) e \<longleftrightarrow> (\<exists>i j. is_end cfg i j e \<and> connected cfg ! i \<and> connected cfg ! j)" for e
    by (simp add: harness_inv_def enabled_ok_def)
  have con: "is_end cfg i j e \<Longrightarrow> connections (cfg_net cfg) e = Some (Num (int j))" for i j e
    using inv by (simp add: harness_inv_def ends_ok_def)
  have "enabled (cfg_net cfg) (endname rq)" "connections (cfg_net cfg) (endname rq) = Some s"
    if "process_start (cfg_net cfg) rq lost = Waiting s p rel lr" for rq lost s p rel lr
    using that by (auto simp: process_start_def readEndnameInfo_def Let_def split: option.splits if_splits)
  with en con show ?thesis by (metis option.inject)
qed

theorem partition_isolates_witness:
  "\<exists>c d :: nat config. harness_reach no_snaps c \<and> enabled (cfg_net c) (Str ''a'') \<and> disconnect c 0 = Inr d \<and>
     \<not> enabled (cfg_net d) (Str ''a'')"
proof -
  obtain c d e f where c: "harness_reach no_snaps c" "cfg_n c = 1" "connected c = [True]" "endnames c = [Some [''a'']]"
    "disconnect c 0 = Inr d" "connected d = [False]"
    by (rule one_node)
  have d: "harness_reach no_snaps d" by (rule HR_disconnect [OF c(1,5)])
  have n: "cfg_n d = 1"
    using disconnect_keeps(1) [OF _ c(5)] harness_reach_inv [OF c(1)] c(2) by (simp add: test_inv_def)
  have "is_end c 0 0 (Str ''a'')" using c by (simp add: is_end_def end_of_def)
  then have "enabled (cfg_net c) (Str ''a'')"
    using conjunct1 [OF partition_isolates [OF c(1)]] c(3) by (metis nth_Cons_0)
  moreover have "\<not> enabled (cfg_net d) (Str ''a'')"
    using conjunct1 [OF partition_isolates [OF d]] c(6) n by (auto simp: is_end_def)
  ultimately show ?thesis using c(1,5) by blast
qed



end
