(* ===== verification/Raft_Checks.thy ===== *)
theory Raft_Checks
  imports Raft_Harness Raft_Election
begin

text \<open>
  The checks of the Raft test harness, src/raft/config.go: what the readers of the apply channels record and compare, and the
  functions with which a test inspects the group (one leader, agreement on the term, number of commits, a complete
  agreement).

  The observations that a check makes one after the other are arguments: \<open>GetState\<close> of the connected nodes for the checks of
  leaders and terms, and for the loops that wait what happens to the harness during each sleep (the list is as long as the
  time allows). Messages are kept short: the strings carry no values.

  The theorems say what the checks decide: the appliers accept a sequence of messages if and only if there is one
  command per index and every node applies its indices without a gap, and the check for one leader never fails on an execution of
  the nodes because of two leaders.
\<close>

section \<open>The readers of the apply channels\<close>

definition conflict_at :: "'c config \<Rightarrow> 'c ApplyMsg \<Rightarrow> nat \<Rightarrow> bool" where
  "conflict_at cfg m j \<longleftrightarrow>
     (case (cfg_logs cfg ! j) (CommandIndex m) of None \<Rightarrow> False | Some old \<Rightarrow> old \<noteq> am_Command m)"

definition checkLogs :: "'c config \<Rightarrow> nat \<Rightarrow> 'c ApplyMsg \<Rightarrow> 'c config \<times> string \<times> bool" where
  "checkLogs cfg i m =
     (let err = foldl (\<lambda>e j. if conflict_at cfg m j then ''commit index: values differ'' else e) ''''
                  [0..<length (cfg_logs cfg)];
          prevok = ((cfg_logs cfg ! i) (CommandIndex m - 1) \<noteq> None);
          c1 = cfg\<lparr>cfg_logs := (cfg_logs cfg)[i := (cfg_logs cfg ! i)(CommandIndex m \<mapsto> am_Command m)]\<rparr>;
          c2 = (if CommandIndex m > maxIndex c1 then c1\<lparr>maxIndex := CommandIndex m\<rparr> else c1)
      in (c2, err, prevok))"

text \<open>One message of \<^verbatim>\<open>applier\<close> and of \<^verbatim>\<open>applierSnap\<close>.\<close>

definition applier1 :: "'c config \<Rightarrow> nat \<Rightarrow> 'c ApplyMsg \<Rightarrow> 'c config res" where
  "applier1 cfg i m =
     (if CommandValid m = False then Inr cfg
      else
        let (c1, err, prevok) = checkLogs cfg i m;
            err1 = (if CommandIndex m > 1 \<and> prevok = False then ''apply out of order'' else err)
        in if err1 \<noteq> '''' then Inl (LogFatal err1) else Inr c1)"

definition SnapShotInterval :: int where
  "SnapShotInterval = 10"

definition snap_log :: "(int \<rightharpoonup> 'c option) \<Rightarrow> int \<Rightarrow> 'c option list" where
  "snap_log l idx = map (\<lambda>j. case l (int j) of None \<Rightarrow> None | Some v \<Rightarrow> v) [0..<nat (idx + 1)]"

definition applierSnap1 ::
  "'c snap_dec \<Rightarrow> 'c snap_enc \<Rightarrow> 'c config \<Rightarrow> nat \<Rightarrow> 'c ApplyMsg \<Rightarrow> 'c config res" where
  "applierSnap1 dec enc cfg i m =
     (case rafts cfg ! i of
        None \<Rightarrow> Inr cfg
      | Some rf \<Rightarrow>
          if SnapshotValid m then
            bindR (CondInstallSnapshot rf (SnapshotTerm m) (SnapshotIndex m) (am_Snapshot m)) (\<lambda>(rf1, installed).
              let c1 = cfg\<lparr>rafts := (rafts cfg)[i := Some rf1]\<rparr>
              in if installed then
                   bindR (ingestSnap dec c1 i (am_Snapshot m) (SnapshotIndex m)) (\<lambda>(c2, err).
                     if err \<noteq> '''' then Inl (LogFatal err) else Inr c2)
                 else Inr c1)
          else if CommandValid m then
            let err0 = (if CommandIndex m \<noteq> cfg_lastApplied cfg ! i + 1 then ''apply out of order'' else '''');
                (c1, err1) =
                  (if err0 = '''' then
                     let (c, e, prevok) = checkLogs cfg i m
                     in (c, if CommandIndex m > 1 \<and> prevok = False then ''apply out of order'' else e)
                   else (cfg, err0));
                c2 = c1\<lparr>cfg_lastApplied := (cfg_lastApplied c1)[i := CommandIndex m]\<rparr>
            in bindR (if (CommandIndex m + 1) mod SnapShotInterval = 0 then
                        bindR (Snapshot rf (CommandIndex m)
                                 (Some (enc (CommandIndex m) (snap_log (cfg_logs c2 ! i) (CommandIndex m))))) (\<lambda>rf1.
                          Inr (c2\<lparr>rafts := (rafts c2)[i := Some rf1]\<rparr>))
                      else Inr c2) (\<lambda>c3.
                 if err1 \<noteq> '''' then Inl (LogFatal err1) else Inr c3)
          else Inr cfg)"

section \<open>Leaders and terms\<close>

text \<open>
  The map from terms to leaders, in the order in which the terms come up; \<open>samples\<close> are the results of \<^verbatim>\<open>GetState\<close> of the
  connected nodes in one round.
\<close>

fun add_leader :: "int \<Rightarrow> nat \<Rightarrow> (int \<times> nat list) list \<Rightarrow> (int \<times> nat list) list" where
  "add_leader t i [] = [(t, [i])]"
| "add_leader t i ((u, is) # ls) = (if u = t then (u, is @ [i]) # ls else (u, is) # add_leader t i ls)"

definition collect_leaders :: "(nat \<times> int \<times> bool) list \<Rightarrow> (int \<times> nat list) list" where
  "collect_leaders samples = foldl (\<lambda>ls (i, term, leader). if leader then add_leader term i ls else ls) [] samples"

definition last_term :: "(int \<times> nat list) list \<Rightarrow> int res" where
  "last_term ls =
     foldR (\<lambda>last (term, leaders).
       if length leaders > 1 then Inl (LogFatal ''term has more than one leader'')
       else Inr (if term > last then term else last)) (-1) ls"

definition leader_round :: "(nat \<times> int \<times> bool) list \<Rightarrow> nat option res" where
  "leader_round samples =
     (let leaders = collect_leaders samples
      in bindR (last_term leaders) (\<lambda>lastTermWithLeader.
           if leaders \<noteq> [] then
             (case map_of leaders lastTermWithLeader of
                None \<Rightarrow> Inl IndexOutOfRange
              | Some is \<Rightarrow> bindR (index is 0) (\<lambda>i. Inr (Some i)))
           else Inr None))"

fun checkOneLeader :: "(nat \<times> int \<times> bool) list list \<Rightarrow> nat res" where
  "checkOneLeader [] = Inl (LogFatal ''expected one leader, got none'')"
| "checkOneLeader (samples # rounds) =
     bindR (leader_round samples) (\<lambda>r. case r of Some i \<Rightarrow> Inr i | None \<Rightarrow> checkOneLeader rounds)"

definition checkTerms :: "(int \<times> bool) list \<Rightarrow> int res" where
  "checkTerms states =
     foldR (\<lambda>term (xterm, leader).
       if term = -1 then Inr xterm
       else if term \<noteq> xterm then Inl (LogFatal ''servers disagree on term'') else Inr term) (-1) states"

definition checkNoLeader :: "(int \<times> bool) list \<Rightarrow> unit res" where
  "checkNoLeader states =
     foldR (\<lambda>_ (term, is_leader).
       if is_leader then Inl (LogFatal ''expected no leader among connected servers'') else Inr ()) () states"

section \<open>Commits\<close>

definition nCommitted :: "'c config \<Rightarrow> int \<Rightarrow> (int \<times> 'c option) res" where
  "nCommitted cfg idx =
     foldR (\<lambda>(cnt, cmd) i.
       if applyErr cfg ! i \<noteq> '''' then Inl (LogFatal (applyErr cfg ! i))
       else (case (cfg_logs cfg ! i) idx of
               None \<Rightarrow> Inr (cnt, cmd)
             | Some cmd1 \<Rightarrow>
                 if cnt > 0 \<and> cmd \<noteq> cmd1 then Inl (LogFatal ''committed values do not match'')
                 else Inr (cnt + 1, cmd1))) (0, None) [0..<length (rafts cfg)]"

text \<open>\<^verbatim>\<open>wait\<close>: \<open>Inr None\<close> is the result -1, when a node has moved on to a later term.\<close>

definition moved_on :: "'c config \<Rightarrow> int \<Rightarrow> bool res" where
  "moved_on cfg startTerm =
     (if startTerm > -1 then
        foldR (\<lambda>b r. if b then Inr True
                     else (case r of None \<Rightarrow> Inl NilDereference | Some rf \<Rightarrow> Inr (fst (GetState rf) > startTerm)))
          False (rafts cfg)
      else Inr False)"

fun wait_loop :: "('c config \<Rightarrow> 'c config) list \<Rightarrow> 'c config \<Rightarrow> int \<Rightarrow> int \<Rightarrow> int \<Rightarrow> ('c config \<times> bool) res" where
  "wait_loop [] cfg idx n startTerm = Inr (cfg, False)"
| "wait_loop (w # ws) cfg idx n startTerm =
     bindR (nCommitted cfg idx) (\<lambda>(nd, _).
       if nd \<ge> n then Inr (cfg, False)
       else bindR (moved_on (w cfg) startTerm) (\<lambda>b.
              if b then Inr (w cfg, True) else wait_loop ws (w cfg) idx n startTerm))"

definition wait ::
  "('c config \<Rightarrow> 'c config) list \<Rightarrow> 'c config \<Rightarrow> int \<Rightarrow> int \<Rightarrow> int \<Rightarrow> ('c config \<times> 'c option option) res" where
  "wait ws cfg idx n startTerm =
     bindR (wait_loop ws cfg idx n startTerm) (\<lambda>(c1, moved).
       if moved then Inr (c1, None)
       else bindR (nCommitted c1 idx) (\<lambda>(nd, cmd).
              if nd < n then Inl (LogFatal ''only few decided'') else Inr (c1, Some cmd)))"

text \<open>The inner loop of \<^verbatim>\<open>one\<close>: the servers in turn, until one of them takes the command.\<close>

fun one_submit :: "nat \<Rightarrow> 'c config \<Rightarrow> nat \<Rightarrow> 'c option \<Rightarrow> ('c config \<times> nat \<times> int) res" where
  "one_submit 0 cfg starts cmd = Inr (cfg, starts, -1)"
| "one_submit (Suc k) cfg starts cmd =
     (let starts1 = (starts + 1) mod cfg_n cfg
      in case (if connected cfg ! starts1 then rafts cfg ! starts1 else None) of
           None \<Rightarrow> one_submit k cfg starts1 cmd
         | Some rf \<Rightarrow>
             bindR (Start rf cmd) (\<lambda>(rf1, (index1, t, isl), effs).
               let c1 = cfg\<lparr>rafts := (rafts cfg)[starts1 := Some rf1]\<rparr>
               in if isl then Inr (c1, starts1, index1) else one_submit k c1 starts1 cmd))"

fun one_wait :: "('c config \<Rightarrow> 'c config) list \<Rightarrow> 'c config \<Rightarrow> int \<Rightarrow> int \<Rightarrow> 'c option \<Rightarrow> ('c config \<times> bool) res" where
  "one_wait [] cfg idx expectedServers cmd = Inr (cfg, False)"
| "one_wait (w # ws) cfg idx expectedServers cmd =
     bindR (nCommitted cfg idx) (\<lambda>(nd, cmd1).
       if nd > 0 \<and> nd \<ge> expectedServers \<and> cmd1 = cmd then Inr (cfg, True)
       else one_wait ws (w cfg) idx expectedServers cmd)"

text \<open>A round of \<^verbatim>\<open>one\<close> comes with its sleeps: those of the wait for agreement, and the one when no leader was found.\<close>

fun one ::
  "(('c config \<Rightarrow> 'c config) list \<times> ('c config \<Rightarrow> 'c config)) list \<Rightarrow> 'c config \<Rightarrow> nat \<Rightarrow> 'c option \<Rightarrow> int \<Rightarrow> bool \<Rightarrow>
     ('c config \<times> int) res" where
  "one [] cfg starts cmd expectedServers retry =
     (if checkFinished cfg = False then Inl (LogFatal ''failed to reach agreement'') else Inr (cfg, -1))"
| "one ((ws, w) # rounds) cfg starts cmd expectedServers retry =
     (if checkFinished cfg then Inr (cfg, -1)
      else
        bindR (one_submit (cfg_n cfg) cfg starts cmd) (\<lambda>(c1, starts1, idx).
          if idx \<noteq> -1 then
            bindR (one_wait ws c1 idx expectedServers cmd) (\<lambda>(c2, agreed).
              if agreed then Inr (c2, idx)
              else if retry = False then Inl (LogFatal ''failed to reach agreement'')
              else one rounds c2 starts1 cmd expectedServers retry)
          else one rounds (w c1) starts1 cmd expectedServers retry))"

section \<open>Statistics\<close>

definition rpcTotal :: "'c config \<Rightarrow> int" where
  "rpcTotal cfg = GetTotalCount (cfg_net cfg)"

definition bytesTotal :: "'c config \<Rightarrow> int" where
  "bytesTotal cfg = GetTotalBytes (cfg_net cfg)"

definition begin_test :: "'c config \<Rightarrow> 'c config" where
  "begin_test cfg = cfg\<lparr>rpcs0 := rpcTotal cfg, bytes0 := bytesTotal cfg, cmds0 := 0, maxIndex0 := maxIndex cfg\<rparr>"

text \<open>The numbers that \<^verbatim>\<open>end\<close> prints: peers, RPCs, bytes, agreements.\<close>

definition end_test :: "'c config \<Rightarrow> nat \<times> int \<times> int \<times> int" where
  "end_test cfg = (cfg_n cfg, rpcTotal cfg - rpcs0 cfg, bytesTotal cfg - bytes0 cfg, maxIndex cfg - maxIndex0 cfg)"

section \<open>What the appliers accept\<close>

definition logged :: "(nat \<times> 'c ApplyMsg) list \<Rightarrow> nat \<Rightarrow> int \<Rightarrow> 'c option \<Rightarrow> bool" where
  "logged ms i idx v \<longleftrightarrow> (\<exists>m. (i, m) \<in> set ms \<and> CommandIndex m = idx \<and> am_Command m = v)"

definition agree :: "(nat \<times> 'c ApplyMsg) list \<Rightarrow> bool" where
  "agree ms \<longleftrightarrow> (\<forall>i j idx v w. logged ms i idx v \<longrightarrow> logged ms j idx w \<longrightarrow> v = w)"

definition no_gaps :: "(nat \<times> 'c ApplyMsg) list \<Rightarrow> bool" where
  "no_gaps ms \<longleftrightarrow> (\<forall>xs i m ys. ms = xs @ (i, m) # ys \<longrightarrow> 1 < CommandIndex m \<longrightarrow>
     (\<exists>v. logged xs i (CommandIndex m - 1) v))"

definition run_appliers :: "'c config \<Rightarrow> (nat \<times> 'c ApplyMsg) list \<Rightarrow> 'c config res" where
  "run_appliers cfg ms = foldR (\<lambda>c (i, m). applier1 c i m) cfg ms"

definition records :: "nat \<Rightarrow> 'c config \<Rightarrow> (nat \<times> 'c ApplyMsg) list \<Rightarrow> bool" where
  "records n c ms \<longleftrightarrow> length (cfg_logs c) = n \<and> (\<forall>i < n. \<forall>idx v. (cfg_logs c ! i) idx = Some v \<longleftrightarrow> logged ms i idx v)"

lemma foldl_last_error:
  "foldl (\<lambda>e j. if P j then er else e) e0 xs = (if \<exists>j \<in> set xs. P j then er else e0)"
  by (induction xs rule: rev_induct) auto

lemma logged_snoc:
  "logged (ms @ [(i, m)]) j idx v \<longleftrightarrow> logged ms j idx v \<or> j = i \<and> idx = CommandIndex m \<and> v = am_Command m"
  by (auto simp: logged_def)

lemma agree_snoc:
  "agree (ms @ [(i, m)]) \<longleftrightarrow> agree ms \<and> (\<forall>j v. logged ms j (CommandIndex m) v \<longrightarrow> v = am_Command m)"
  unfolding agree_def logged_snoc by metis

lemma no_gaps_snoc:
  "no_gaps (ms @ [(i, m)]) \<longleftrightarrow> no_gaps ms \<and> (1 < CommandIndex m \<longrightarrow> (\<exists>v. logged ms i (CommandIndex m - 1) v))"
proof
  assume l: "no_gaps (ms @ [(i, m)])"
  have "\<exists>v. logged xs j (CommandIndex m' - 1) v" if "ms = xs @ (j, m') # ys" "1 < CommandIndex m'" for xs j m' ys
    using l that unfolding no_gaps_def by (metis append_assoc append_Cons)
  moreover have "1 < CommandIndex m \<Longrightarrow> \<exists>v. logged ms i (CommandIndex m - 1) v"
    using l unfolding no_gaps_def by blast
  ultimately show "no_gaps ms \<and> (1 < CommandIndex m \<longrightarrow> (\<exists>v. logged ms i (CommandIndex m - 1) v))"
    unfolding no_gaps_def by blast
next
  assume r: "no_gaps ms \<and> (1 < CommandIndex m \<longrightarrow> (\<exists>v. logged ms i (CommandIndex m - 1) v))"
  show "no_gaps (ms @ [(i, m)])"
    unfolding no_gaps_def
  proof (intro allI impI)
    fix xs j m' ys assume e: "ms @ [(i, m)] = xs @ (j, m') # ys" and gt: "1 < CommandIndex m'"
    show "\<exists>v. logged xs j (CommandIndex m' - 1) v"
    proof (cases ys rule: rev_cases)
      case Nil
      with e r gt show ?thesis by auto
    next
      case (snoc zs z)
      with e have "ms = xs @ (j, m') # zs" by simp
      with r gt show ?thesis unfolding no_gaps_def by blast
    qed
  qed
qed

lemma applier1_step:
  assumes "records n c ms" "i < n" "CommandValid m"
  shows "returns (applier1 c i m) \<longleftrightarrow>
      (\<forall>j < n. \<forall>v. logged ms j (CommandIndex m) v \<longrightarrow> v = am_Command m) \<and>
      (1 < CommandIndex m \<longrightarrow> (\<exists>v. logged ms i (CommandIndex m - 1) v))"
    and "agree (ms @ [(i, m)]) \<Longrightarrow> applier1 c i m = Inr c' \<Longrightarrow> records n c' (ms @ [(i, m)]) \<and>
      c' = c\<lparr>cfg_logs := cfg_logs c', maxIndex := maxIndex c'\<rparr>"
proof -
  have conf: "conflict_at c m j \<longleftrightarrow> (\<exists>v. logged ms j (CommandIndex m) v \<and> v \<noteq> am_Command m)" if "j < n" for j
  proof -
    have "conflict_at c m j \<longleftrightarrow> (\<exists>v. (cfg_logs c ! j) (CommandIndex m) = Some v \<and> v \<noteq> am_Command m)"
      by (auto simp: conflict_at_def split: option.splits)
    then show ?thesis using assms(1) that by (simp add: records_def)
  qed
  have prev: "(cfg_logs c ! i) (CommandIndex m - 1) \<noteq> None \<longleftrightarrow> (\<exists>v. logged ms i (CommandIndex m - 1) v)"
    using assms(1,2) unfolding records_def by auto
  have len: "length (cfg_logs c) = n" using assms(1) by (simp add: records_def)
  have err: "(\<exists>j \<in> set [0..<length (cfg_logs c)]. conflict_at c m j) \<longleftrightarrow>
      \<not> (\<forall>j < n. \<forall>v. logged ms j (CommandIndex m) v \<longrightarrow> v = am_Command m)"
    using conf len by auto
  show "returns (applier1 c i m) \<longleftrightarrow>
      (\<forall>j < n. \<forall>v. logged ms j (CommandIndex m) v \<longrightarrow> v = am_Command m) \<and>
      (1 < CommandIndex m \<longrightarrow> (\<exists>v. logged ms i (CommandIndex m - 1) v))"
  proof -
    have fold: "foldl (\<lambda>e j. if conflict_at c m j then ''commit index: values differ'' else e) ''''
          [0..<length (cfg_logs c)] =
        (if \<not> (\<forall>j < n. \<forall>v. logged ms j (CommandIndex m) v \<longrightarrow> v = am_Command m) then ''commit index: values differ'' else '''')"
      unfolding err [symmetric] by (rule foldl_last_error)
    show ?thesis
      unfolding applier1_def checkLogs_def Let_def fold using assms(3) prev by (auto simp: returns_def)
  qed
  assume ag: "agree (ms @ [(i, m)])" and c': "applier1 c i m = Inr c'"
  then have logs: "cfg_logs c' = (cfg_logs c)[i := (cfg_logs c ! i)(CommandIndex m \<mapsto> am_Command m)]"
    and rest: "c' = c\<lparr>cfg_logs := cfg_logs c', maxIndex := maxIndex c'\<rparr>"
    using assms(3) by (auto simp: applier1_def checkLogs_def Let_def split: if_splits)
  have "logged ms i (CommandIndex m) v \<Longrightarrow> v = am_Command m" for v
    using ag by (auto simp: agree_snoc)
  then show "records n c' (ms @ [(i, m)]) \<and> c' = c\<lparr>cfg_logs := cfg_logs c', maxIndex := maxIndex c'\<rparr>"
    using assms(1,2) rest by (auto simp: records_def logs nth_list_update logged_snoc)
qed

lemma run_appliers_snoc: "run_appliers cfg (ms @ [x]) = bindR (run_appliers cfg ms) (\<lambda>c. applier1 c (fst x) (snd x))"
  by (auto simp: run_appliers_def foldR_append split_def bindR_def split: sum.splits)

definition commands_of :: "nat \<Rightarrow> (nat \<times> 'c ApplyMsg) list \<Rightarrow> bool" where
  "commands_of n ms \<longleftrightarrow> (\<forall>(i, m) \<in> set ms. i < n \<and> CommandValid m)"

lemma run_appliers_correct:
  assumes "cfg_logs cfg = replicate n Map.empty" "commands_of n ms"
  shows "(returns (run_appliers cfg ms) \<longleftrightarrow> agree ms \<and> no_gaps ms) \<and>
    (\<forall>c. run_appliers cfg ms = Inr c \<longrightarrow> records n c ms \<and> c = cfg\<lparr>cfg_logs := cfg_logs c, maxIndex := maxIndex c\<rparr>)"
  using assms(2)
proof (induction ms rule: rev_induct)
  case Nil
  have "agree []" "no_gaps []" by (auto simp: agree_def no_gaps_def logged_def)
  then show ?case using assms(1) by (auto simp: run_appliers_def records_def logged_def)
next
  case (snoc x ms)
  obtain i m where x: "x = (i, m)" by (cases x)
  from snoc.prems have im: "i < n" "CommandValid m" and ms: "commands_of n ms" by (auto simp: x commands_of_def)
  have lt: "logged ms j idx v \<Longrightarrow> j < n" for j idx v
    using ms by (auto simp: commands_of_def logged_def)
  show ?case
  proof (cases "run_appliers cfg ms")
    case (Inl p)
    then have "\<not> (agree ms \<and> no_gaps ms)" using snoc.IH [OF ms] by (simp add: returns_def)
    then show ?thesis by (auto simp: x run_appliers_snoc Inl agree_snoc no_gaps_snoc)
  next
    case (Inr c)
    then have c: "records n c ms" "agree ms \<and> no_gaps ms" "c = cfg\<lparr>cfg_logs := cfg_logs c, maxIndex := maxIndex c\<rparr>"
      using snoc.IH [OF ms] by (simp_all add: returns_def)
    note st = applier1_step [OF c(1) im]
    have ret: "returns (applier1 c i m) \<longleftrightarrow> agree (ms @ [x]) \<and> no_gaps (ms @ [x])"
      using c(2) unfolding st(1) x agree_snoc no_gaps_snoc by (metis lt)
    have "records n c' (ms @ [x]) \<and> c' = cfg\<lparr>cfg_logs := cfg_logs c', maxIndex := maxIndex c'\<rparr>"
      if "applier1 c i m = Inr c'" for c'
    proof -
      have "c\<lparr>cfg_logs := l, maxIndex := k\<rparr> = cfg\<lparr>cfg_logs := l, maxIndex := k\<rparr>" for l k
        using arg_cong [OF c(3), of "\<lambda>x. x\<lparr>cfg_logs := l, maxIndex := k\<rparr>"] by simp
      then show ?thesis using st(2) [OF _ that] ret that by (simp add: x returns_def)
    qed
    then show ?thesis using ret by (simp add: x run_appliers_snoc Inr)
  qed
qed

lemma nCommitted_loop:
  assumes "records n c ms" "agree ms" "applyErr c = replicate n ''''" "m \<le> n"
  shows "\<exists>cmd. foldR (\<lambda>(cnt, cmd) i.
       if applyErr c ! i \<noteq> '''' then Inl (LogFatal (applyErr c ! i))
       else (case (cfg_logs c ! i) idx of
               None \<Rightarrow> Inr (cnt, cmd)
             | Some cmd1 \<Rightarrow>
                 if cnt > 0 \<and> cmd \<noteq> cmd1 then Inl (LogFatal ''committed values do not match'')
                 else Inr (cnt + 1, cmd1))) (0, None) [0..<m] =
      Inr (int (card {i. i < m \<and> (\<exists>v. logged ms i idx v)}), cmd) \<and>
    (\<forall>i < m. \<forall>v. logged ms i idx v \<longrightarrow> v = cmd)"
    (is "\<exists>cmd. foldR ?f _ _ = Inr (?k m, cmd) \<and> ?all m cmd")
  using assms(4)
proof (induction m)
  case 0
  then show ?case by simp
next
  case (Suc m)
  then obtain cmd where ih: "foldR ?f (0, None) [0..<m] = Inr (?k m, cmd)" "?all m cmd" by auto
  have rec: "(cfg_logs c ! m) idx = Some v \<longleftrightarrow> logged ms m idx v" for v
    using assms(1) Suc.prems by (simp add: records_def)
  have unf: "foldR ?f (0, None) [0..<Suc m] = ?f (?k m, cmd) m"
    by (simp add: foldR_append ih(1)) (simp add: bindR_def split: sum.splits)
  show ?case
  proof (cases "(cfg_logs c ! m) idx")
    case None
    then have no: "\<not> logged ms m idx v" for v using rec by auto
    then have "{i. i < Suc m \<and> (\<exists>v. logged ms i idx v)} = {i. i < m \<and> (\<exists>v. logged ms i idx v)}"
      by (auto simp: less_Suc_eq)
    then show ?thesis using ih(2) no None Suc.prems assms(3) unfolding unf
      by (intro exI [of _ cmd]) (auto simp: less_Suc_eq)
  next
    case (Some cmd1)
    then have l: "logged ms m idx cmd1" using rec by auto
    then have same: "logged ms i idx v \<Longrightarrow> v = cmd1" for i v using assms(2) unfolding agree_def by blast
    have "{i. i < Suc m \<and> (\<exists>v. logged ms i idx v)} = insert m {i. i < m \<and> (\<exists>v. logged ms i idx v)}"
      using l by (auto simp: less_Suc_eq)
    then have k: "?k (Suc m) = ?k m + 1" by simp
    have "cmd = cmd1" if pos: "0 < ?k m"
    proof -
      have "{i. i < m \<and> (\<exists>v. logged ms i idx v)} \<noteq> {}"
      proof
        assume e: "{i. i < m \<and> (\<exists>v. logged ms i idx v)} = {}"
        show False using pos unfolding e by simp
      qed
      then show ?thesis using ih(2) same by blast
    qed
    then have nb: "\<not> (0 < ?k m \<and> cmd \<noteq> cmd1)" by blast
    have err: "applyErr c ! m = ''''" using Suc.prems assms(3) by simp
    have "?f (?k m, cmd) m = Inr (?k m + 1, cmd1)"
      unfolding prod.case Some option.case err using nb by (simp only: simp_thms if_True if_False)
    then show ?thesis using same unfolding unf k by (intro exI [of _ cmd1]) simp
  qed
qed

section \<open>Every execution of the group consists of steps of its nodes\<close>

definition moves :: "'c Raft list \<Rightarrow> 'c Raft list \<Rightarrow> nat \<Rightarrow> bool" where
  "moves xs ys i \<longleftrightarrow> ys ! i = xs ! i \<or> node_step (xs ! i) (ys ! i)"

lemma moves_refl [simp]: "moves xs xs i"
  by (simp add: moves_def)

lemma moves_update: "node_step (xs ! j) rf \<Longrightarrow> moves xs (xs[j := rf]) i"
  by (cases "i = j \<and> j < length xs") (auto simp: moves_def nth_list_update list_update_beyond)

lemma exec_node_step:
  assumes "safe_inv n s" "exec s e = Inr s'"
  shows "moves (nodes s) (nodes s') i"
proof -
  have inv: "net_inv n s" using safe_invD [OF assms(1)] by blast
  have vr: "node_step (nodes s ! d) rf" if "k < length (vote_reqs s)" "vote_reqs s ! k = (d, args')"
    "RequestVote (nodes s ! d) args' = Inr (rf, r)" for k d args' rf r
    using net_inv_nth(1) [OF inv that(1,2)] that(3) by (auto intro: ns_RequestVote)
  have ar: "node_step (nodes s ! d) rf" if "k < length (append_reqs s)" "append_reqs s ! k = (j, d, args')"
    "AppendEntries (nodes s ! d) args' = Inr (rf, r, eff)" for k j d args' rf r eff
    using net_inv_nth(2) [OF inv that(1,2)] that(3) by (auto intro: ns_AppendEntries)
  have hb: "node_step rf (fst (ticker_heartbeat rf))" for rf :: "'a Raft"
    using ns_heartbeat [of rf "fst (ticker_heartbeat rf)" "snd (ticker_heartbeat rf)"] by simp
  show ?thesis
    using assms(2)
    by (cases e)
      (auto simp: exec_def Let_def exec_Timeout_def exec_DeliverVote_def exec_VoteReply_def exec_ClientStart_def
        exec_Replicate_def exec_DeliverAppend_def exec_AppendReply_def exec_DeliverInstall_def exec_InstallReply_def
        exec_ApplySnapshot_def exec_TakeSnapshot_def exec_Apply_def exec_Restart_def set_node_def
        split: if_splits prod.splits option.splits replicate_request.splits
        intro!: moves_update hb ns_applier intro: node_step.intros vr ar)
qed

lemma exec_elected: "exec s e = Inr s' \<Longrightarrow> set (elected s) \<subseteq> set (elected s')"
  by (cases e)
    (auto simp: exec_def Let_def exec_Timeout_def exec_DeliverVote_def exec_VoteReply_def exec_ClientStart_def
      exec_Replicate_def exec_DeliverAppend_def exec_AppendReply_def exec_DeliverInstall_def exec_InstallReply_def
      exec_ApplySnapshot_def exec_TakeSnapshot_def exec_Apply_def exec_Restart_def set_node_def
      split: if_splits prod.splits option.splits replicate_request.splits)

lemma run_elected: "foldR exec s es = Inr s' \<Longrightarrow> set (elected s) \<subseteq> set (elected s')"
  by (induction es arbitrary: s) (auto dest!: exec_elected)

lemma reach_term_nonneg:
  assumes "reach P n s" "i < n"
  shows "0 \<le> currentTerm (nodes s ! i)"
  using assms
proof (induction rule: reach.induct)
  case (reach_init s)
  then have mk: "Make n (int i) MakePersister = Inr (nodes s ! i)"
    by (auto simp: init_cluster_def mapR_eq_Inr_iff)
  obtain rf :: "'a Raft" where "Make n (int i) MakePersister = Inr rf" "currentTerm rf = 0"
    using Make_fresh [of "int i" n] reach_init.prems by auto
  with mk have "nodes s ! i = rf" by simp
  then show ?case using \<open>currentTerm rf = 0\<close> by simp
next
  case (reach_step s e s')
  have inv: "safe_inv n s" by (rule reach_safe [OF reach_step(1)])
  have ok: "node_ok (nodes s ! i)" using nodes_invD(1) [OF safe_invD(1) [OF inv] reach_step.prems] .
  have "moves (nodes s) (nodes s') i" by (rule exec_node_step [OF inv]) (use reach_step in auto)
  then have "evolves (nodes s ! i) (nodes s' ! i)"
    using node_step_keeps [OF _ ok] by (auto simp: moves_def)
  then show ?case using reach_step by (simp add: evolves_def)
qed

section \<open>The check for one leader\<close>

text \<open>What the map of leaders looks like when no two sampled nodes lead in one term.\<close>

definition one_per_term :: "(nat \<times> int \<times> bool) list \<Rightarrow> bool" where
  "one_per_term samples \<longleftrightarrow> distinct (map fst samples) \<and>
     (\<forall>i j t. (i, t, True) \<in> set samples \<longrightarrow> (j, t, True) \<in> set samples \<longrightarrow> i = j)"

lemma add_leader_fresh: "t \<notin> fst ` set ls \<Longrightarrow> add_leader t i ls = ls @ [(t, [i])]"
  by (induction t i ls rule: add_leader.induct) auto

lemma collect_leaders_snoc:
  "collect_leaders (samples @ [(i, t, l)]) = (if l then add_leader t i (collect_leaders samples) else collect_leaders samples)"
  by (simp add: collect_leaders_def)

lemma collect_leaders_set:
  assumes "one_per_term samples"
  shows "set (collect_leaders samples) = {(t, [i]) | t i. (i, t, True) \<in> set samples} \<and>
    distinct (map fst (collect_leaders samples))"
  using assms
proof (induction samples rule: rev_induct)
  case Nil
  then show ?case by (simp add: collect_leaders_def)
next
  case (snoc x samples)
  obtain i t l where x: "x = (i, t, l)" by (cases x)
  from snoc.prems have "one_per_term samples" and new: "i \<notin> fst ` set samples"
    and uniq: "l \<Longrightarrow> (j, t, True) \<in> set samples \<Longrightarrow> j = i" for j
    by (auto simp: one_per_term_def x)
  then have ih: "set (collect_leaders samples) = {(t, [i]) | t i. (i, t, True) \<in> set samples}"
    "distinct (map fst (collect_leaders samples))" using snoc.IH by auto
  show ?case
  proof (cases l)
    case True
    have fresh: "t \<notin> fst ` set (collect_leaders samples)"
    proof
      assume "t \<in> fst ` set (collect_leaders samples)"
      then obtain j where j: "(j, t, True) \<in> set samples" by (auto simp: ih(1))
      with uniq [OF True] have "i \<in> fst ` set samples" by force
      with new show False by blast
    qed
    then show ?thesis
      using ih True by (auto simp: x collect_leaders_snoc add_leader_fresh)
  next
    case False
    then show ?thesis using ih by (auto simp: x collect_leaders_snoc)
  qed
qed

lemma last_term_ok:
  assumes "\<forall>(t, is) \<in> set ls. length is = 1"
  shows "last_term ls = Inr (foldl max (-1) (map fst ls))"
proof -
  have "foldR (\<lambda>last (term, leaders). if length leaders > 1 then Inl (LogFatal ''term has more than one leader'')
       else Inr (if term > last then term else last)) x ls = Inr (foldl max x (map fst ls))" for x
    using assms by (induction ls arbitrary: x) (auto simp: max_def)
  then show ?thesis by (simp add: last_term_def)
qed

lemma foldl_max_ge: "(x :: int) \<le> foldl max x xs \<and> (\<forall>y \<in> set xs. y \<le> foldl max x xs)"
proof (induction xs arbitrary: x)
  case (Cons a xs)
  show ?case using Cons.IH [of "max x a"] by auto
qed simp

lemma foldl_max_in: "foldl max (x :: int) xs \<in> insert x (set xs)"
proof (induction xs arbitrary: x)
  case (Cons a xs)
  show ?case using Cons.IH [of "max x a"] by (auto simp: max_def split: if_splits)
qed simp

lemma leader_round_ok:
  assumes "one_per_term samples" "\<forall>(i, t, l) \<in> set samples. 0 \<le> t"
  shows "(leader_round samples = Inr None \<and> (\<forall>(i, t, l) \<in> set samples. \<not> l)) \<or>
    (\<exists>i t. leader_round samples = Inr (Some i) \<and> (i, t, True) \<in> set samples \<and>
       (\<forall>(j, u, l) \<in> set samples. l \<longrightarrow> u \<le> t))"
proof -
  define ls where "ls = collect_leaders samples"
  have set: "set ls = {(t, [i]) | t i. (i, t, True) \<in> set samples}" and dist: "distinct (map fst ls)"
    using collect_leaders_set [OF assms(1)] by (simp_all add: ls_def)
  define m where "m = foldl max (-1) (map fst ls)"
  have lt: "last_term ls = Inr m"
    unfolding m_def by (rule last_term_ok) (auto simp: set)
  show ?thesis
  proof (cases "ls = []")
    case True
    then have "leader_round samples = Inr None"
      using lt by (simp add: leader_round_def Let_def flip: ls_def)
    moreover have "\<not> l" if "(i, t, l) \<in> set samples" for i t l
      using that set True by (cases l) auto
    ultimately show ?thesis by auto
  next
    case False
    have ge: "u \<le> m" if "(u, is) \<in> set ls" for u "is"
      using foldl_max_ge [of "-1" "map fst ls"] that by (force simp: m_def)
    have "m \<noteq> -1"
    proof -
      obtain u "is" where "(u, is) \<in> set ls" using False by (cases ls) auto
      then have "0 \<le> u" using assms(2) by (auto simp: set)
      with ge [OF \<open>(u, is) \<in> set ls\<close>] show ?thesis by simp
    qed
    then have "m \<in> fst ` set ls" using foldl_max_in [of "-1" "map fst ls"] by (auto simp: m_def)
    then obtain i where i: "(m, [i]) \<in> set ls" "(i, m, True) \<in> set samples" by (auto simp: set)
    then have "map_of ls m = Some [i]" using dist by simp
    then have "leader_round samples = Inr (Some i)"
      using lt False by (simp add: leader_round_def Let_def flip: ls_def)
    moreover have "u \<le> m" if "(j, u, True) \<in> set samples" for j u
      using ge [of u "[j]"] that by (auto simp: set)
    ultimately show ?thesis using i(2) by (intro disjI2 exI [of _ i] exI [of _ m]) auto
  qed
qed

section \<open>Properties\<close>

text \<open>A message of the witnesses.\<close>

definition cmd_msg :: "int \<Rightarrow> nat \<Rightarrow> nat ApplyMsg" where
  "cmd_msg idx v = command_msg \<lparr>Command = Some v, Term = 1, Index = idx\<rparr>"



text \<open>
  What a round of the check sees: the connected nodes one after the other, each in a state of one execution that goes on to
  \<open>sf\<close>.
\<close>

definition sampled :: "(nat \<times> 'c cluster) list \<Rightarrow> (nat \<times> int \<times> bool) list" where
  "sampled obs = map (\<lambda>(i, s). (i, GetState (nodes s ! i))) obs"

definition observed :: "nat \<Rightarrow> 'c cluster \<Rightarrow> (nat \<times> 'c cluster) list \<Rightarrow> bool" where
  "observed n sf obs \<longleftrightarrow> distinct (map fst obs) \<and>
     (\<forall>(i, s) \<in> set obs. i < n \<and> reach (\<lambda>_. True) n s \<and> (\<exists>es. foldR exec s es = Inr sf))"

lemma sampled_one_per_term:
  assumes "observed n sf obs" "reach (\<lambda>_. True) n sf"
  shows "one_per_term (sampled obs)" "\<forall>(i, t, l) \<in> set (sampled obs). 0 \<le> t"
proof -
  have el: "(t, i) \<in> set (elected sf)" if t: "(i, t, True) \<in> set (sampled obs)" for i t
  proof -
    obtain s es where s: "i < n" "reach (\<lambda>_. True) n s" "foldR exec s es = Inr sf" "GetState (nodes s ! i) = (t, True)"
      using t assms(1) by (auto simp: sampled_def observed_def)
    then have "(t, i) \<in> set (elected s)"
      using safe_invD(4) [OF reach_safe [OF s(2)]] by (auto simp: leaders_inv_def GetState_def)
    then show ?thesis using run_elected [OF s(3)] by blast
  qed
  have "map fst (sampled obs) = map fst obs" by (auto simp: sampled_def)
  then show "one_per_term (sampled obs)"
    using assms(1) elected_unique [OF reach_safe [OF assms(2)]] el unfolding one_per_term_def observed_def by metis
  show "\<forall>(i, t, l) \<in> set (sampled obs). 0 \<le> t"
    using assms(1) reach_term_nonneg by (fastforce simp: sampled_def observed_def GetState_def)
qed

lemma elect_trace_followers:
  "case run 3 elect_trace of Inl _ \<Rightarrow> False | Inr s \<Rightarrow> state (nodes s ! 1) \<noteq> Leader \<and> state (nodes s ! 2) \<noteq> Leader"
  by code_simp

text \<open>
  C22. On an execution of the nodes the check for one leader never fails because of two leaders in a term, although it looks
  at the nodes one after the other while they go on. It returns a node that was seen as leader, in the highest
  term of its round, and fails only if no round saw a leader.
\<close>

theorem checkOneLeader_sound:
  assumes "reach (\<lambda>_. True) n sf" and "\<forall>obs \<in> set rounds. observed n sf obs"
  shows "case checkOneLeader (map sampled rounds) of
      Inl p \<Rightarrow> p = LogFatal ''expected one leader, got none'' \<and>
        (\<forall>obs \<in> set rounds. \<forall>(i, s) \<in> set obs. state (nodes s ! i) \<noteq> Leader)
    | Inr i \<Rightarrow> \<exists>obs \<in> set rounds. \<exists>s. (i, s) \<in> set obs \<and> state (nodes s ! i) = Leader \<and>
        (\<forall>(j, s') \<in> set obs. state (nodes s' ! j) = Leader \<longrightarrow> currentTerm (nodes s' ! j) \<le> currentTerm (nodes s ! i))"
  using assms(2)
proof (induction rounds)
  case Nil
  then show ?case by simp
next
  case (Cons obs rounds)
  have mem: "(i, t, l) \<in> set (sampled obs) \<longleftrightarrow> (\<exists>s. (i, s) \<in> set obs \<and> GetState (nodes s ! i) = (t, l))" for i t l
    by (force simp: sampled_def)
  have ob: "observed n sf obs" using Cons.prems by simp
  note sm = sampled_one_per_term [OF ob assms(1)]
  from leader_round_ok [OF sm] consider
    (none) "leader_round (sampled obs) = Inr None" "\<forall>(i, t, l) \<in> set (sampled obs). \<not> l"
    | (one) i t where "leader_round (sampled obs) = Inr (Some i)" "(i, t, True) \<in> set (sampled obs)"
      "\<forall>(j, u, l) \<in> set (sampled obs). l \<longrightarrow> u \<le> t" by blast
  then show ?case
  proof cases
    case none
    have "\<forall>(i, s) \<in> set obs. state (nodes s ! i) \<noteq> Leader"
      using none(2) by (auto simp: sampled_def GetState_def)
    then show ?thesis using Cons none(1) by (auto split: sum.splits)
  next
    case one
    obtain s where s: "(i, s) \<in> set obs" "GetState (nodes s ! i) = (t, True)" using one(2) mem by blast
    have "currentTerm (nodes s' ! j) \<le> currentTerm (nodes s ! i)"
      if "(j, s') \<in> set obs" "state (nodes s' ! j) = Leader" for j s'
      using one(3) that s(2) by (fastforce simp: sampled_def GetState_def)
    then show ?thesis using s one(1) by (fastforce simp: GetState_def)
  qed
qed

theorem checkOneLeader_sound_witness:
  "\<exists>s. run 3 elect_trace = Inr s \<and>
     checkOneLeader (map sampled [[(1, s)], [(2, s), (0, s)]]) = Inr 0"
proof -
  obtain s where run: "run 3 elect_trace = Inr s" using elect_trace_leader by (auto split: sum.splits)
  have r: "reach (\<lambda>_. True) 3 s" by (rule run_reach [OF run]) (simp add: list_all_def)
  have o: "\<forall>obs \<in> set [[(1, s)], [(2, s), (0, s)]]. observed 3 s obs"
    using r by (auto simp: observed_def intro!: exI [of _ "[]"])
  have l: "state (nodes s ! 0) = Leader" using elect_trace_leader [unfolded run sum.case] by simp
  have f: "state (nodes s ! 1) \<noteq> Leader" "state (nodes s ! 2) \<noteq> Leader"
    using elect_trace_followers [unfolded run sum.case] by simp_all
  from checkOneLeader_sound [OF r o] l f run show ?thesis
    by (auto split: sum.splits)
qed

lemma nCommitted_Inr_loop:
  assumes "foldR (\<lambda>(cnt, cmd) i.
       if applyErr c ! i \<noteq> '''' then Inl (LogFatal (applyErr c ! i))
       else (case (cfg_logs c ! i) idx of
               None \<Rightarrow> Inr (cnt, cmd)
             | Some cmd1 \<Rightarrow>
                 if cnt > 0 \<and> cmd \<noteq> cmd1 then Inl (LogFatal ''committed values do not match'')
                 else Inr (cnt + 1, cmd1))) (0, None) [0..<m] = Inr (k, cmd)"
  shows "k = int (card {i. i < m \<and> (cfg_logs c ! i) idx \<noteq> None}) \<and>
    (\<forall>i < m. \<forall>v. (cfg_logs c ! i) idx = Some v \<longrightarrow> v = cmd)"
  using assms
proof (induction m arbitrary: k cmd)
  case 0
  then show ?case by simp
next
  case (Suc m)
  from Suc.prems obtain k0 cmd0 where ih: "k0 = int (card {i. i < m \<and> (cfg_logs c ! i) idx \<noteq> None})"
    "\<forall>i < m. \<forall>v. (cfg_logs c ! i) idx = Some v \<longrightarrow> v = cmd0"
    and st: "(case (cfg_logs c ! m) idx of None \<Rightarrow> Inr (k0, cmd0)
             | Some cmd1 \<Rightarrow>
                 if k0 > 0 \<and> cmd0 \<noteq> cmd1 then Inl (LogFatal ''committed values do not match'')
                 else Inr (k0 + 1, cmd1)) = Inr (k, cmd)"
    using Suc.IH by (fastforce simp: foldR_append split: if_splits)
  show ?case
  proof (cases "(cfg_logs c ! m) idx")
    case None
    then have "{i. i < Suc m \<and> (cfg_logs c ! i) idx \<noteq> None} = {i. i < m \<and> (cfg_logs c ! i) idx \<noteq> None}"
      by (auto simp: less_Suc_eq)
    then show ?thesis using ih st None by (auto simp: less_Suc_eq)
  next
    case (Some cmd1)
    then have "{i. i < Suc m \<and> (cfg_logs c ! i) idx \<noteq> None} = insert m {i. i < m \<and> (cfg_logs c ! i) idx \<noteq> None}"
      by (auto simp: less_Suc_eq)
    then have k: "k = int (card {i. i < Suc m \<and> (cfg_logs c ! i) idx \<noteq> None})" "cmd = cmd1"
      using st Some ih(1) by (auto split: if_splits)
    have "v = cmd1" if v: "i < m" "(cfg_logs c ! i) idx = Some v" for i v
    proof -
      have "i \<in> {i. i < m \<and> (cfg_logs c ! i) idx \<noteq> None}" using v by simp
      then have "0 < k0" unfolding ih(1) by (auto simp: card_gt_0_iff)
      then show ?thesis using st Some ih(2) v by (auto split: if_splits)
    qed
    then show ?thesis using k Some by (auto simp: less_Suc_eq)
  qed
qed

lemma one_wait_agreed:
  "one_wait ws cfg idx expected cmd = Inr (c, True) \<Longrightarrow> \<exists>nd. nCommitted c idx = Inr (nd, cmd) \<and> expected \<le> nd \<and> 0 < nd"
  by (induction ws cfg idx expected cmd rule: one_wait.induct) (auto split: if_splits)

text \<open>
  When \<^verbatim>\<open>one\<close> returns an index, whatever the nodes did meanwhile, at least the expected number of servers have applied
  exactly the command that was submitted at that index, and no server has applied another one there.
\<close>

lemma one_agreement:
  assumes "one rounds cfg starts cmd expected retry = Inr (c, idx)" and "idx \<noteq> -1"
  shows "expected \<le> int (card {i. i < length (rafts c) \<and> (cfg_logs c ! i) idx = Some cmd}) \<and>
    (\<forall>i < length (rafts c). (cfg_logs c ! i) idx \<in> {None, Some cmd})"
proof -
  have "\<exists>nd. nCommitted c idx = Inr (nd, cmd) \<and> expected \<le> nd \<and> 0 < nd"
    using assms
  proof (induction rounds cfg starts cmd expected retry rule: one.induct)
    case (2 ws w rounds cfg starts cmd expected retry)
    then show ?case by (fastforce split: if_splits dest: one_wait_agreed)
  qed (auto split: if_splits)
  then obtain nd where nd: "nCommitted c idx = Inr (nd, cmd)" "expected \<le> nd" by blast
  note loop = nCommitted_Inr_loop [OF nd(1) [unfolded nCommitted_def]]
  have "{i. i < length (rafts c) \<and> (cfg_logs c ! i) idx \<noteq> None} = {i. i < length (rafts c) \<and> (cfg_logs c ! i) idx = Some cmd}"
    using loop by auto
  with loop nd(2) show ?thesis by auto
qed

text \<open>A group of one node that leads; during the first sleep its applier records the command.\<close>

definition solo_leader :: "nat Raft" where
  "solo_leader = \<lparr>peers = 1, persister = MakePersister, me = 0, dead = False, currentTerm = 1, votedFor = 0, logs = [zero_entry],
     commitIndex = 0, lastApplied = 0, nextIndex = [1], matchIndex = [0], state = Leader, electionTimer = False, heartbeatTimer = True\<rparr>"

definition solo :: "nat config" where
  "solo = (empty_config 1)\<lparr>rafts := [Some solo_leader], connected := [True]\<rparr>"

definition solo_rounds :: "((nat config \<Rightarrow> nat config) list \<times> (nat config \<Rightarrow> nat config)) list" where
  "solo_rounds = [([\<lambda>c. c\<lparr>cfg_logs := [Map.empty(1 \<mapsto> Some 5)]\<rparr>, id], id)]"

lemma solo_one:
  "case one solo_rounds solo 0 (Some 5) 1 False of Inl _ \<Rightarrow> False | Inr (c, idx) \<Rightarrow> idx = 1 \<and> length (rafts c) = 1"
  by code_simp

end
