(* ===== verification/Shard_Clerk.thy ===== *)
theory Shard_Clerk
  imports Go_Prelude
begin

text \<open>
  The clerks of the shard controller and of the sharded key/value service: src/shardctrler/client.go and common.go, and
  src/shardkv/client.go and common.go.

  A clerk repeats its calls until one succeeds, so its operations may run for ever; they are partial functions, and \<open>None\<close> means that
  the operation does not return. The servers are outside: what the call at time \<open>t\<close> (the number of calls the clerk has made before) to a
  server with given arguments returns is a parameter, \<open>None\<close> when \<^verbatim>\<open>Call\<close> returns false. Servers are named by strings.
\<close>

section \<open>Data\<close>

definition NShards :: int where
  "NShards = 10"

text \<open>\<^verbatim>\<open>Shards\<close> is an array of \<open>NShards\<close> elements.\<close>

record Config =
  Num :: int
  Shards :: "int list"
  Groups :: "int \<rightharpoonup> string list"

definition zero_Config :: Config where
  "zero_Config = \<lparr>Num = 0, Shards = replicate (nat NShards) 0, Groups = Map.empty\<rparr>"

record CtlReply =
  WrongLeader :: bool
  ctl_Err :: string

record QueryReply = CtlReply +
  q_Config :: Config

record GetReply =
  g_Err :: string
  g_Value :: string

record PutAppendArgs =
  pa_Key :: string
  pa_Value :: string
  pa_Op :: string

definition OK :: string where
  "OK = ''OK''"

definition ErrNoKey :: string where
  "ErrNoKey = ''ErrNoKey''"

definition ErrWrongGroup :: string where
  "ErrWrongGroup = ''ErrWrongGroup''"

section \<open>The clerk of the controller\<close>

record CtlClerk =
  ctl_servers :: "string list"

text \<open>
  The loop of all four operations: try each known server until one gives a result, then sleep and start again. \<open>attempt\<close> is the body
  of the inner loop.
\<close>

fun try_each :: "(nat \<Rightarrow> 's \<Rightarrow> 'a option) \<Rightarrow> nat \<Rightarrow> 's list \<Rightarrow> nat \<times> 'a option" where
  "try_each attempt t [] = (t, None)"
| "try_each attempt t (s # ss) =
     (case attempt t s of
        Some y \<Rightarrow> (t + 1, Some y)
      | None \<Rightarrow> try_each attempt (t + 1) ss)"

partial_function (option) retry_loop :: "(nat \<Rightarrow> 's \<Rightarrow> 'a option) \<Rightarrow> 's list \<Rightarrow> nat \<Rightarrow> (nat \<times> 'a) option" where
  "retry_loop attempt servers t =
     (case try_each attempt t servers of
        (t1, Some y) \<Rightarrow> Some (t1, y)
      | (t1, None) \<Rightarrow> retry_loop attempt servers t1)"

definition Query :: "(nat \<Rightarrow> string \<Rightarrow> int \<Rightarrow> QueryReply option) \<Rightarrow> CtlClerk \<Rightarrow> int \<Rightarrow> nat \<Rightarrow> (nat \<times> Config) option" where
  "Query call ck num t =
     retry_loop (\<lambda>t srv. case call t srv num of
         Some r \<Rightarrow> if WrongLeader r = False then Some (q_Config r) else None
       | None \<Rightarrow> None) (ctl_servers ck) t"

definition Join :: "(nat \<Rightarrow> string \<Rightarrow> (int \<rightharpoonup> string list) \<Rightarrow> CtlReply option) \<Rightarrow> CtlClerk \<Rightarrow> (int \<rightharpoonup> string list) \<Rightarrow> nat \<Rightarrow>
    (nat \<times> unit) option" where
  "Join call ck srvs t =
     retry_loop (\<lambda>t srv. case call t srv srvs of
         Some r \<Rightarrow> if WrongLeader r = False then Some () else None
       | None \<Rightarrow> None) (ctl_servers ck) t"

definition Leave :: "(nat \<Rightarrow> string \<Rightarrow> int list \<Rightarrow> CtlReply option) \<Rightarrow> CtlClerk \<Rightarrow> int list \<Rightarrow> nat \<Rightarrow> (nat \<times> unit) option" where
  "Leave call ck gids t =
     retry_loop (\<lambda>t srv. case call t srv gids of
         Some r \<Rightarrow> if WrongLeader r = False then Some () else None
       | None \<Rightarrow> None) (ctl_servers ck) t"

definition Move :: "(nat \<Rightarrow> string \<Rightarrow> int \<times> int \<Rightarrow> CtlReply option) \<Rightarrow> CtlClerk \<Rightarrow> int \<Rightarrow> int \<Rightarrow> nat \<Rightarrow> (nat \<times> unit) option" where
  "Move call ck shard gid t =
     retry_loop (\<lambda>t srv. case call t srv (shard, gid) of
         Some r \<Rightarrow> if WrongLeader r = False then Some () else None
       | None \<Rightarrow> None) (ctl_servers ck) t"

section \<open>The clerk of the sharded service\<close>

definition key2shard :: "string \<Rightarrow> int" where
  "key2shard key =
     (let shard = (if length key > 0 then of_char (key ! 0) else 0)
      in shard mod NShards)"

record Clerk =
  sm :: CtlClerk
  config :: Config

definition MakeClerk :: "string list \<Rightarrow> Clerk" where
  "MakeClerk ctrlers = \<lparr>sm = \<lparr>ctl_servers = ctrlers\<rparr>, config = zero_Config\<rparr>"

text \<open>The loops of \<^verbatim>\<open>Get\<close> and \<^verbatim>\<open>PutAppend\<close> over the servers of the group, with their breaks. A reply to \<^verbatim>\<open>PutAppend\<close> is its \<^verbatim>\<open>Err\<close>.\<close>

fun get_try :: "(nat \<Rightarrow> string \<Rightarrow> string \<Rightarrow> GetReply option) \<Rightarrow> string \<Rightarrow> nat \<Rightarrow> string list \<Rightarrow> nat \<times> string option" where
  "get_try call key t [] = (t, None)"
| "get_try call key t (srv # ss) =
     (case call t srv key of
        Some r \<Rightarrow>
          if g_Err r = OK \<or> g_Err r = ErrNoKey then (t + 1, Some (g_Value r))
          else if g_Err r = ErrWrongGroup then (t + 1, None)
          else get_try call key (t + 1) ss
      | None \<Rightarrow> get_try call key (t + 1) ss)"

fun putappend_try :: "(nat \<Rightarrow> string \<Rightarrow> PutAppendArgs \<Rightarrow> string option) \<Rightarrow> PutAppendArgs \<Rightarrow> nat \<Rightarrow> string list \<Rightarrow>
    nat \<times> unit option" where
  "putappend_try call x t [] = (t, None)"
| "putappend_try call x t (srv # ss) =
     (case call t srv x of
        Some err \<Rightarrow>
          if err = OK then (t + 1, Some ())
          else if err = ErrWrongGroup then (t + 1, None)
          else putappend_try call x (t + 1) ss
      | None \<Rightarrow> putappend_try call x (t + 1) ss)"

text \<open>
  The loop of both operations: try the group of the shard, then ask the controller for the latest configuration. \<open>tr\<close> is the loop over
  the servers and \<open>query\<close> is \<^verbatim>\<open>ck.sm.Query(-1)\<close>.
\<close>

partial_function (option) shard_loop ::
    "(nat \<Rightarrow> string list \<Rightarrow> nat \<times> 'a option) \<Rightarrow> (nat \<Rightarrow> (nat \<times> Config) option) \<Rightarrow> string \<Rightarrow> nat \<Rightarrow> Config \<Rightarrow>
     (nat \<times> Config \<times> 'a) option" where
  "shard_loop tr query key t cf =
     (let shard = key2shard key; gid = Shards cf ! nat shard
      in case (case Groups cf gid of Some servers \<Rightarrow> tr t servers | None \<Rightarrow> (t, None)) of
           (t1, Some y) \<Rightarrow> Some (t1, cf, y)
         | (t1, None) \<Rightarrow> Option.bind (query t1) (\<lambda>(t2, c). shard_loop tr query key t2 c))"

definition Get :: "(nat \<Rightarrow> string \<Rightarrow> string \<Rightarrow> GetReply option) \<Rightarrow> (nat \<Rightarrow> string \<Rightarrow> int \<Rightarrow> QueryReply option) \<Rightarrow>
    string \<Rightarrow> nat \<Rightarrow> Clerk \<Rightarrow> (nat \<times> Clerk \<times> string) option" where
  "Get call qcall key t ck =
     map_option (\<lambda>(t1, cf, v). (t1, ck\<lparr>config := cf\<rparr>, v))
       (shard_loop (get_try call key) (Query qcall (sm ck) (-1)) key t (config ck))"

definition PutAppend :: "(nat \<Rightarrow> string \<Rightarrow> PutAppendArgs \<Rightarrow> string option) \<Rightarrow> (nat \<Rightarrow> string \<Rightarrow> int \<Rightarrow> QueryReply option) \<Rightarrow>
    string \<Rightarrow> string \<Rightarrow> string \<Rightarrow> nat \<Rightarrow> Clerk \<Rightarrow> (nat \<times> Clerk) option" where
  "PutAppend call qcall key val op t ck =
     map_option (\<lambda>(t1, cf, _). (t1, ck\<lparr>config := cf\<rparr>))
       (shard_loop (putappend_try call \<lparr>pa_Key = key, pa_Value = val, pa_Op = op\<rparr>) (Query qcall (sm ck) (-1)) key t (config ck))"

definition Put :: "(nat \<Rightarrow> string \<Rightarrow> PutAppendArgs \<Rightarrow> string option) \<Rightarrow> (nat \<Rightarrow> string \<Rightarrow> int \<Rightarrow> QueryReply option) \<Rightarrow>
    string \<Rightarrow> string \<Rightarrow> nat \<Rightarrow> Clerk \<Rightarrow> (nat \<times> Clerk) option" where
  "Put call qcall key val t ck = PutAppend call qcall key val ''Put'' t ck"

definition Append :: "(nat \<Rightarrow> string \<Rightarrow> PutAppendArgs \<Rightarrow> string option) \<Rightarrow> (nat \<Rightarrow> string \<Rightarrow> int \<Rightarrow> QueryReply option) \<Rightarrow>
    string \<Rightarrow> string \<Rightarrow> nat \<Rightarrow> Clerk \<Rightarrow> (nat \<times> Clerk) option" where
  "Append call qcall key val t ck = PutAppend call qcall key val ''Append'' t ck"

section \<open>Loops that retry\<close>

lemma try_each_time: "try_each attempt t ss = (t1, r) \<Longrightarrow> t \<le> t1 \<and> (ss \<noteq> [] \<longrightarrow> t < t1)"
proof (induction ss arbitrary: t)
  case (Cons s ss)
  show ?case
  proof (cases "attempt t s")
    case None
    with Cons.prems Cons.IH [of "t + 1"] show ?thesis by simp
  qed (use Cons.prems in auto)
qed simp

lemma try_each_sound:
  "try_each attempt t ss = (t1, Some y) \<Longrightarrow> \<exists>t0 s. t \<le> t0 \<and> t0 < t1 \<and> s \<in> set ss \<and> attempt t0 s = Some y"
proof (induction ss arbitrary: t)
  case (Cons s ss)
  show ?case
  proof (cases "attempt t s")
    case None
    with Cons.prems Cons.IH [of "t + 1"] obtain t0 s' where
      "t + 1 \<le> t0" "t0 < t1" "s' \<in> set ss" "attempt t0 s' = Some y" by auto
    then show ?thesis by (intro exI [of _ t0] exI [of _ s']) auto
  next
    case (Some z)
    with Cons.prems show ?thesis by (intro exI [of _ t] exI [of _ s]) auto
  qed
qed simp

lemma try_each_succeeds:
  "s \<in> set ss \<Longrightarrow> (\<And>t0. t \<le> t0 \<Longrightarrow> attempt t0 s \<noteq> None) \<Longrightarrow> \<exists>t1 y. try_each attempt t ss = (t1, Some y)"
proof (induction ss arbitrary: t)
  case (Cons a ss)
  show ?case
  proof (cases "attempt t a")
    case None
    with Cons.prems(2) [of t] have "s \<noteq> a" by auto
    then show ?thesis using Cons.IH [of "t + 1"] Cons.prems None by auto
  qed simp
qed simp

lemma retry_loop_sound:
  assumes "retry_loop attempt servers t = Some (t2, y)"
  shows "\<exists>t0 s. t \<le> t0 \<and> t0 < t2 \<and> s \<in> set servers \<and> attempt t0 s = Some y"
proof -
  have "\<exists>t0 s. t \<le> t0 \<and> t0 < fst (t2, y) \<and> s \<in> set servers \<and> attempt t0 s = Some (snd (t2, y))"
  proof (rule retry_loop.raw_induct [OF _ assms])
    fix loop :: "(nat \<Rightarrow> 's \<Rightarrow> 'a option) \<Rightarrow> 's list \<Rightarrow> nat \<Rightarrow> (nat \<times> 'a) option" and attempt servers t z
    assume IH: "\<And>attempt servers t z. loop attempt servers t = Some z \<Longrightarrow>
        \<exists>t0 s. t \<le> t0 \<and> t0 < fst z \<and> s \<in> set servers \<and> attempt t0 s = Some (snd z)"
      and run: "(case try_each attempt t servers of (t1, Some y) \<Rightarrow> Some (t1, y) | (t1, None) \<Rightarrow> loop attempt servers t1) = Some z"
    obtain t1 r where tr: "try_each attempt t servers = (t1, r)" by fastforce
    show "\<exists>t0 s. t \<le> t0 \<and> t0 < fst z \<and> s \<in> set servers \<and> attempt t0 s = Some (snd z)"
    proof (cases r)
      case None
      then show ?thesis using IH [of attempt servers t1 z] run tr try_each_time [OF tr] by (auto intro: le_trans)
    next
      case (Some y)
      then show ?thesis using run tr try_each_sound [of attempt t servers t1 y] by (auto, blast)
    qed
  qed
  then show ?thesis by simp
qed

lemma retry_loop_returns:
  assumes "s \<in> set servers" "\<And>t. T \<le> t \<Longrightarrow> attempt t s \<noteq> None"
  shows "\<exists>t2 y. retry_loop attempt servers t = Some (t2, y)"
proof (induction "T - t" arbitrary: t rule: less_induct)
  case less
  show ?case
  proof (cases "T \<le> t")
    case True
    then obtain t1 y where "try_each attempt t servers = (t1, Some y)"
      using try_each_succeeds [OF assms(1), of t attempt] assms(2) by (meson le_trans)
    then show ?thesis by (subst retry_loop.simps) simp
  next
    case False
    obtain t1 r where tr: "try_each attempt t servers = (t1, r)" by fastforce
    have "t < t1" using try_each_time [OF tr] assms(1) by auto
    then have "T - t1 < T - t" using False by simp
    from less [OF this] tr show ?thesis by (subst retry_loop.simps) (cases r; simp)
  qed
qed

section \<open>What the sharded clerk relies on\<close>

text \<open>
  The contract of the controller's clerk: a query takes time, what it returns was answered by a controller meanwhile, and if from some time
  on a controller answers as leader, every query returns.
\<close>

locale controller =
  fixes query :: "nat \<Rightarrow> (nat \<times> Config) option" and answers :: "nat \<Rightarrow> Config \<Rightarrow> bool" and stable :: "nat \<Rightarrow> bool"
  assumes query_answered: "query t = Some (t2, c) \<Longrightarrow> \<exists>t0. t \<le> t0 \<and> t0 < t2 \<and> answers t0 c"
    and query_returns: "stable T \<Longrightarrow> \<exists>t2 c. query t = Some (t2, c)"
begin

lemma query_time: "query t = Some (t2, c) \<Longrightarrow> t < t2"
  using query_answered by fastforce

text \<open>A loop that returns used, in its last round, either the configuration it began with or one that a controller answered.\<close>

lemma shard_loop_sound:
  assumes tr: "\<And>t ss t1 r. tr t ss = (t1, r) \<Longrightarrow> t \<le> t1"
    and run: "shard_loop tr query key t cf = Some (t2, cf2, y)"
  shows "(cf2 = cf \<or> (\<exists>t0. t \<le> t0 \<and> t0 < t2 \<and> answers t0 cf2)) \<and>
    (\<exists>t1 ss. t \<le> t1 \<and> Groups cf2 (Shards cf2 ! nat (key2shard key)) = Some ss \<and> tr t1 ss = (t2, Some y))"
proof -
  define Q where "Q t cf z \<longleftrightarrow> (case z of (t2, cf2, y) \<Rightarrow> (cf2 = cf \<or> (\<exists>t0. t \<le> t0 \<and> t0 < t2 \<and> answers t0 cf2)) \<and>
    (\<exists>t1 ss. t \<le> t1 \<and> Groups cf2 (Shards cf2 ! nat (key2shard key)) = Some ss \<and> tr t1 ss = (t2, Some y)))"
    for t cf and z :: "nat \<times> Config \<times> 'a"
  have "tr = tr \<and> query = query \<and> key = key \<longrightarrow> Q t cf (t2, cf2, y)"
  proof (rule shard_loop.raw_induct [where P = "\<lambda>tr' query' key' t cf z. tr' = tr \<and> query' = query \<and> key' = key \<longrightarrow> Q t cf z", OF _ run], intro impI)
    fix loop :: "(nat \<Rightarrow> string list \<Rightarrow> nat \<times> 'a option) \<Rightarrow> (nat \<Rightarrow> (nat \<times> Config) option) \<Rightarrow> string \<Rightarrow> nat \<Rightarrow> Config \<Rightarrow> (nat \<times> Config \<times> 'a) option"
    fix tr' query' key' t cf z
    assume IH: "\<And>tr' query' key' t cf z. loop tr' query' key' t cf = Some z \<Longrightarrow> tr' = tr \<and> query' = query \<and> key' = key \<longrightarrow> Q t cf z"
      and run: "(let shard = key2shard key'; gid = Shards cf ! nat shard
        in case case Groups cf gid of None \<Rightarrow> (t, None) | Some x \<Rightarrow> tr' t x of
             (t1, None) \<Rightarrow> Option.bind (query' t1) (\<lambda>(t2, c). loop tr' query' key' t2 c) | (t1, Some y) \<Rightarrow> Some (t1, cf, y)) = Some z"
      and eq: "tr' = tr \<and> query' = query \<and> key' = key"
    let ?gid = "Shards cf ! nat (key2shard key)"
    obtain t1 r where r: "(case Groups cf ?gid of None \<Rightarrow> (t, None) | Some x \<Rightarrow> tr t x) = (t1, r)" by fastforce
    have eqs: "tr' = tr" "query' = query" "key' = key" using eq by auto
    note run' = run [unfolded eqs Let_def r]
    have le: "t \<le> t1" using r tr by (auto split: option.splits)
    show "Q t cf z"
    proof (cases r)
      case (Some y)
      then have "z = (t1, cf, y)" "\<exists>ss. Groups cf ?gid = Some ss \<and> tr t ss = (t1, Some y)"
        using run' r by (auto split: option.splits)
      then show ?thesis by (auto simp: Q_def)
    next
      case None
      then obtain t2 c where q: "query t1 = Some (t2, c)" "loop tr query key t2 c = Some z"
        using run' by (auto simp: bind_eq_Some_conv)
      obtain t3 cf3 y where z: "z = (t3, cf3, y)" by (cases z)
      obtain t0 where t0: "t1 \<le> t0" "t0 < t2" "answers t0 c" using query_answered [OF q(1)] by blast
      from IH [OF q(2)] obtain t' ss where last: "cf3 = c \<or> (\<exists>t0. t2 \<le> t0 \<and> t0 < t3 \<and> answers t0 cf3)"
        "t2 \<le> t'" "Groups cf3 (Shards cf3 ! nat (key2shard key)) = Some ss" "tr t' ss = (t3, Some y)"
        by (auto simp: Q_def z)
      have "t \<le> t0" "t0 < t3" "t \<le> t2" "t \<le> t'" using le t0 last(2) tr [OF last(4)] by auto
      then have "\<exists>t0. t \<le> t0 \<and> t0 < t3 \<and> answers t0 cf3" using last(1) t0(3) by (meson le_trans)
      then show ?thesis using last(3,4) \<open>t \<le> t'\<close> by (auto simp: Q_def z)
    qed
  qed
  then show ?thesis by (simp add: Q_def)
qed

text \<open>One round that does not return asks for a new configuration.\<close>

lemma shard_loop_round:
  assumes tr: "\<And>t ss t1 r. tr t ss = (t1, r) \<Longrightarrow> t \<le> t1" and "stable T"
    and agree: "\<And>t c. T \<le> t \<Longrightarrow> answers t c \<Longrightarrow> c = C"
  shows "(\<exists>z. shard_loop tr query key t cf = Some z) \<or>
    (\<exists>t2 c. shard_loop tr query key t cf = shard_loop tr query key t2 c \<and> t < t2 \<and> (T \<le> t \<longrightarrow> c = C))"
proof -
  obtain t1 r where r: "(case Groups cf (Shards cf ! nat (key2shard key)) of None \<Rightarrow> (t, None) | Some x \<Rightarrow> tr t x) = (t1, r)"
    by fastforce
  have le: "t \<le> t1" using r tr by (auto split: option.splits)
  obtain t2 c where q: "query t1 = Some (t2, c)" using query_returns [OF \<open>stable T\<close>] by blast
  obtain t0 where t0: "t1 \<le> t0" "answers t0 c" using query_answered [OF q] by blast
  have "T \<le> t \<longrightarrow> c = C" using agree [OF _ t0(2)] le t0(1) by simp
  moreover have "t < t2" using query_time [OF q] le by simp
  moreover have "shard_loop tr query key t cf = (case r of Some y \<Rightarrow> Some (t1, cf, y) | None \<Rightarrow> shard_loop tr query key t2 c)"
    by (subst shard_loop.simps) (simp add: Let_def r q split: option.split)
  ultimately show ?thesis by (cases r) auto
qed

lemma shard_loop_returns:
  assumes tr: "\<And>t ss t1 r. tr t ss = (t1, r) \<Longrightarrow> t \<le> t1" and "stable T"
    and agree: "\<And>t c. T \<le> t \<Longrightarrow> answers t c \<Longrightarrow> c = C"
    and grp: "Groups C (Shards C ! nat (key2shard key)) = Some ss"
    and succ: "\<And>t. T \<le> t \<Longrightarrow> \<exists>t1 y. tr t ss = (t1, Some y)"
  shows "\<exists>z. shard_loop tr query key t cf = Some z"
proof -
  have round: "(\<exists>z. shard_loop tr query key t cf = Some z) \<or>
      (\<exists>t2 c. shard_loop tr query key t cf = shard_loop tr query key t2 c \<and> t < t2 \<and> (T \<le> t \<longrightarrow> c = C))" for t cf
    by (rule shard_loop_round [OF tr \<open>stable T\<close> agree])
  have C: "\<exists>z. shard_loop tr query key t C = Some z" if "T \<le> t" for t
    using succ [OF that] by (subst shard_loop.simps) (auto simp: Let_def grp)
  show ?thesis
  proof (induction "T - t" arbitrary: t cf rule: less_induct)
    case less
    show ?case
    proof (cases "T \<le> t")
      case True
      then show ?thesis using round [of t cf] C by (metis le_trans less_imp_le_nat)
    next
      case False
      then have "T - t2 < T - t" if "t < t2" for t2 using that by simp
      then show ?thesis using round [of t cf] less by metis
    qed
  qed
qed

end

interpretation ctl: controller "Query qcall ck num"
    "\<lambda>t c. \<exists>srv \<in> set (ctl_servers ck). \<exists>r. qcall t srv num = Some r \<and> \<not> WrongLeader r \<and> q_Config r = c"
    "\<lambda>T. \<exists>srv \<in> set (ctl_servers ck). \<forall>t \<ge> T. \<exists>r. qcall t srv num = Some r \<and> \<not> WrongLeader r"
  for qcall ck num
proof
  fix t t2 c assume "Query qcall ck num t = Some (t2, c)"
  then show "\<exists>t0\<ge>t. t0 < t2 \<and> (\<exists>srv\<in>set (ctl_servers ck). \<exists>r. qcall t0 srv num = Some r \<and> \<not> WrongLeader r \<and> q_Config r = c)"
    unfolding Query_def by (drule_tac retry_loop_sound) (auto split: option.splits if_splits)
next
  fix T t assume "\<exists>srv\<in>set (ctl_servers ck). \<forall>t\<ge>T. \<exists>r. qcall t srv num = Some r \<and> \<not> WrongLeader r"
  then obtain srv where "srv \<in> set (ctl_servers ck)" "\<And>t. T \<le> t \<Longrightarrow> \<exists>r. qcall t srv num = Some r \<and> \<not> WrongLeader r" by blast
  then show "\<exists>t2 c. Query qcall ck num t = Some (t2, c)"
    unfolding Query_def by (intro retry_loop_returns [of srv _ T]) fastforce+
qed

section \<open>The loops over the servers of a group\<close>

lemma get_try_time: "get_try call key t ss = (t1, r) \<Longrightarrow> t \<le> t1"
  by (induction call key t ss rule: get_try.induct) (auto split: option.splits if_splits)

lemma putappend_try_time: "putappend_try call x t ss = (t1, r) \<Longrightarrow> t \<le> t1"
  by (induction call x t ss rule: putappend_try.induct) (auto split: option.splits if_splits)

lemma get_try_sound:
  "get_try call key t ss = (t1, Some v) \<Longrightarrow>
     \<exists>t0 s r. t \<le> t0 \<and> t0 < t1 \<and> s \<in> set ss \<and> call t0 s key = Some r \<and> (g_Err r = OK \<or> g_Err r = ErrNoKey) \<and> g_Value r = v"
proof (induction call key t ss rule: get_try.induct)
  case (2 call key t srv ss)
  show ?case
  proof (cases "\<exists>r. call t srv key = Some r \<and> (g_Err r = OK \<or> g_Err r = ErrNoKey)")
    case True
    then obtain r where "call t srv key = Some r" "g_Err r = OK \<or> g_Err r = ErrNoKey" by blast
    then show ?thesis using 2(3) by (intro exI [of _ t] exI [of _ srv] exI [of _ r]) (auto split: if_splits)
  next
    case False
    then have "get_try call key (t + 1) ss = (t1, Some v)" using 2(3) by (auto split: option.splits if_splits)
    then obtain t0 s r where "t + 1 \<le> t0" "t0 < t1" "s \<in> set ss" "call t0 s key = Some r"
        "g_Err r = OK \<or> g_Err r = ErrNoKey" "g_Value r = v"
      using 2(1,2,3) False by (cases "call t srv key") (auto split: if_splits)
    then show ?thesis by (intro exI [of _ t0] exI [of _ s] exI [of _ r]) simp
  qed
qed simp

lemma get_try_succeeds:
  assumes "s \<in> set ss" "\<And>t. T \<le> t \<Longrightarrow> \<exists>r. call t s key = Some r \<and> (g_Err r = OK \<or> g_Err r = ErrNoKey)"
    "\<And>t s r. T \<le> t \<Longrightarrow> s \<in> set ss \<Longrightarrow> call t s key = Some r \<Longrightarrow> g_Err r \<noteq> ErrWrongGroup" "T \<le> t"
  shows "\<exists>t1 v. get_try call key t ss = (t1, Some v)"
  using assms
proof (induction ss arbitrary: t)
  case (Cons a ss)
  show ?case
  proof (cases "\<exists>r. call t a key = Some r \<and> (g_Err r = OK \<or> g_Err r = ErrNoKey)")
    case False
    then have "s \<noteq> a" using Cons.prems(2,4) by blast
    then have "\<exists>t1 v. get_try call key (t + 1) ss = (t1, Some v)"
      by (intro Cons.IH) (use Cons.prems in auto)
    then show ?thesis using False Cons.prems(3) [OF Cons.prems(4), of a] by (auto split: option.splits)
  qed auto
qed simp

lemma putappend_try_succeeds:
  assumes "s \<in> set ss" "\<And>t. T \<le> t \<Longrightarrow> call t s x = Some OK"
    "\<And>t s err. T \<le> t \<Longrightarrow> s \<in> set ss \<Longrightarrow> call t s x = Some err \<Longrightarrow> err \<noteq> ErrWrongGroup" "T \<le> t"
  shows "\<exists>t1 u. putappend_try call x t ss = (t1, Some u)"
  using assms
proof (induction ss arbitrary: t)
  case (Cons a ss)
  show ?case
  proof (cases "call t a x = Some OK")
    case False
    then have "s \<noteq> a" using Cons.prems(2,4) by blast
    then have "\<exists>t1 u. putappend_try call x (t + 1) ss = (t1, Some u)"
      by (intro Cons.IH) (use Cons.prems in auto)
    then show ?thesis using False Cons.prems(3) [OF Cons.prems(4), of a] by (auto split: option.splits)
  qed auto
qed simp

lemma key2shard_bounds: "0 \<le> key2shard key" "key2shard key < NShards"
  by (simp_all add: key2shard_def NShards_def Let_def)

lemma get_loop_sound:
  assumes "shard_loop (get_try call key) (Query qcall ck (-1)) key t cf = Some (t2, cf2, v)"
  shows "(cf2 = cf \<or> (\<exists>t0. t \<le> t0 \<and> t0 < t2 \<and>
        (\<exists>srv \<in> set (ctl_servers ck). \<exists>r. qcall t0 srv (-1) = Some r \<and> \<not> WrongLeader r \<and> q_Config r = cf2))) \<and>
    (\<exists>t1 ss. t \<le> t1 \<and> Groups cf2 (Shards cf2 ! nat (key2shard key)) = Some ss \<and> get_try call key t1 ss = (t2, Some v))"
  by (rule ctl.shard_loop_sound [OF _ assms]) (rule get_try_time)

section \<open>The operations return\<close>

lemma PutAppend_eventually_returns:
  assumes "srv \<in> set (ctl_servers (sm ck))" "\<forall>t \<ge> T. \<exists>r. qcall t srv (-1) = Some r \<and> \<not> WrongLeader r"
    and agree: "\<forall>t \<ge> T. \<forall>srv \<in> set (ctl_servers (sm ck)). \<forall>r. qcall t srv (-1) = Some r \<and> \<not> WrongLeader r \<longrightarrow> q_Config r = C"
    and grp: "Groups C (Shards C ! nat (key2shard key)) = Some ss"
    and up: "s \<in> set ss" "\<forall>t \<ge> T. call t s \<lparr>pa_Key = key, pa_Value = val, pa_Op = op\<rparr> = Some OK"
    and right: "\<forall>t \<ge> T. \<forall>s \<in> set ss. call t s \<lparr>pa_Key = key, pa_Value = val, pa_Op = op\<rparr> \<noteq> Some ErrWrongGroup"
  shows "\<exists>t2 ck2. PutAppend call qcall key val op t ck = Some (t2, ck2)"
proof -
  have "\<exists>z. shard_loop (putappend_try call \<lparr>pa_Key = key, pa_Value = val, pa_Op = op\<rparr>) (Query qcall (sm ck) (-1)) key t (config ck) = Some z"
  proof (rule ctl.shard_loop_returns [OF _ _ _ grp])
    show "\<exists>t1 y. putappend_try call \<lparr>pa_Key = key, pa_Value = val, pa_Op = op\<rparr> t ss = (t1, Some y)" if "T \<le> t" for t
      by (rule putappend_try_succeeds [OF up(1) _ _ that]) (use up right in auto)
  qed (use putappend_try_time assms(1,2) agree in blast)+
  then show ?thesis by (auto simp: PutAppend_def)
qed

text \<open>
  C32. A \<^verbatim>\<open>Get\<close> of the sharded clerk returns once the service is stable: from some time on a controller answers as leader, the
  controllers that do so give one configuration, in it the shard of the key belongs to a group, a server of the group answers and
  none says that the group is the wrong one. Whatever happened before, the value comes with OK or ErrNoKey from a server of the group
  that is responsible for the key's shard in the clerk's final configuration, and a configuration other than the clerk's
  first was given by a controller during the call.
\<close>

theorem Get_eventually_returns:
  assumes "srv \<in> set (ctl_servers (sm ck))" "\<forall>t \<ge> T. \<exists>r. qcall t srv (-1) = Some r \<and> \<not> WrongLeader r"
    and agree: "\<forall>t \<ge> T. \<forall>srv \<in> set (ctl_servers (sm ck)). \<forall>r. qcall t srv (-1) = Some r \<and> \<not> WrongLeader r \<longrightarrow> q_Config r = C"
    and grp: "Groups C (Shards C ! nat (key2shard key)) = Some ss"
    and up: "s \<in> set ss" "\<forall>t \<ge> T. \<exists>r. call t s key = Some r \<and> (g_Err r = OK \<or> g_Err r = ErrNoKey)"
    and right: "\<forall>t \<ge> T. \<forall>s \<in> set ss. \<forall>r. call t s key = Some r \<longrightarrow> g_Err r \<noteq> ErrWrongGroup"
  shows "\<exists>t2 ck2 v. Get call qcall key t ck = Some (t2, ck2, v) \<and> sm ck2 = sm ck \<and>
    (config ck2 = config ck \<or>
     (\<exists>t0 \<ge> t. t0 < t2 \<and> (\<exists>srv \<in> set (ctl_servers (sm ck)). \<exists>r. qcall t0 srv (-1) = Some r \<and> \<not> WrongLeader r \<and> q_Config r = config ck2))) \<and>
    (\<exists>ss t0 s r. Groups (config ck2) (Shards (config ck2) ! nat (key2shard key)) = Some ss \<and> s \<in> set ss \<and> t \<le> t0 \<and> t0 < t2 \<and>
       call t0 s key = Some r \<and> (g_Err r = OK \<or> g_Err r = ErrNoKey) \<and> g_Value r = v)"
proof -
  let ?loop = "shard_loop (get_try call key) (Query qcall (sm ck) (-1)) key t (config ck)"
  have "\<exists>z. ?loop = Some z"
  proof (rule ctl.shard_loop_returns [OF _ _ _ grp])
    show "\<exists>t1 y. get_try call key t ss = (t1, Some y)" if "T \<le> t" for t
      by (rule get_try_succeeds [OF up(1) _ _ that]) (use up right in auto)
  qed (use get_try_time assms(1,2) agree in blast)+
  then obtain t2 cf2 v where run: "?loop = Some (t2, cf2, v)" by auto
  from get_loop_sound [OF run] obtain t1 ss where
    cf2: "cf2 = config ck \<or> (\<exists>t0 \<ge> t. t0 < t2 \<and> (\<exists>srv \<in> set (ctl_servers (sm ck)). \<exists>r. qcall t0 srv (-1) = Some r \<and> \<not> WrongLeader r \<and> q_Config r = cf2))"
    and last: "t \<le> t1" "Groups cf2 (Shards cf2 ! nat (key2shard key)) = Some ss" "get_try call key t1 ss = (t2, Some v)" by blast
  from get_try_sound [OF last(3)] obtain t0 s r where
    "t1 \<le> t0" "t0 < t2" "s \<in> set ss" "call t0 s key = Some r" "g_Err r = OK \<or> g_Err r = ErrNoKey" "g_Value r = v" by blast
  moreover from this have "t \<le> t0" using last(1) by simp
  moreover have "Get call qcall key t ck = Some (t2, ck\<lparr>config := cf2\<rparr>, v)" by (simp add: Get_def run)
  ultimately show ?thesis using cf2 last(2) by (intro exI [of _ t2] exI [of _ "ck\<lparr>config := cf2\<rparr>"] exI [of _ v]) auto
qed

text \<open>
  The witness: the controller does not answer the first three calls, the first server of the group is not the leader.
\<close>

theorem Get_eventually_returns_witness:
  "\<exists>t2 ck2 v. Get (\<lambda>t s key. Some \<lparr>g_Err = if s = ''s2'' then OK else ''ErrWrongLeader'', g_Value = ''x''\<rparr>)
      (\<lambda>t srv num. if t < 3 then None else Some \<lparr>WrongLeader = False, ctl_Err = OK,
         q_Config = \<lparr>Num = 1, Shards = replicate 10 100, Groups = [100 \<mapsto> [''s1'', ''s2'']]\<rparr>\<rparr>)
      ''k'' 0 (MakeClerk [''c'']) = Some (t2, ck2, v)"
proof -
  let ?C = "\<lparr>Num = 1, Shards = replicate 10 100, Groups = [100 \<mapsto> [''s1'', ''s2'']]\<rparr>"
  let ?call = "\<lambda>(t::nat) s (key::string). Some \<lparr>g_Err = if s = ''s2'' then OK else ''ErrWrongLeader'', g_Value = ''x''\<rparr>"
  let ?q = "\<lambda>(t::nat) (srv::string) (num::int). if t < 3 then None else Some \<lparr>WrongLeader = False, ctl_Err = OK, q_Config = ?C\<rparr>"
  have "nat (key2shard ''k'') < 10" using key2shard_bounds [of "''k''"] by (simp add: NShards_def)
  then have grp: "Groups ?C (Shards ?C ! nat (key2shard ''k'')) = Some [''s1'', ''s2'']" by simp
  have leader: "''c'' \<in> set (ctl_servers (sm (MakeClerk [''c''])))" by (simp add: MakeClerk_def)
  have q: "\<forall>t \<ge> 3. \<exists>r. ?q t ''c'' (-1) = Some r \<and> \<not> WrongLeader r"
    "\<forall>t \<ge> 3. \<forall>srv \<in> set (ctl_servers (sm (MakeClerk [''c'']))). \<forall>r. ?q t srv (-1) = Some r \<and> \<not> WrongLeader r \<longrightarrow> q_Config r = ?C"
    by (auto split: if_splits)
  have up: "''s2'' \<in> set [''s1'', ''s2'']" "\<forall>t \<ge> 3. \<exists>r. ?call t ''s2'' ''k'' = Some r \<and> (g_Err r = OK \<or> g_Err r = ErrNoKey)"
    "\<forall>t \<ge> 3. \<forall>s \<in> set [''s1'', ''s2'']. \<forall>r. ?call t s ''k'' = Some r \<longrightarrow> g_Err r \<noteq> ErrWrongGroup"
    by (simp_all add: OK_def ErrWrongGroup_def)
  from Get_eventually_returns [of _ _ _ ?q, OF leader q grp up, of 0] show ?thesis by blast
qed

text \<open>
  As long as the handlers of the controller are empty, every answer carries the zero configuration; a new clerk then never finds a
  group and its \<^verbatim>\<open>Get\<close> runs for ever.
\<close>

lemma Get_zero_configuration_diverges:
  assumes "\<forall>t. \<forall>srv. \<forall>r. qcall t srv (-1) = Some r \<longrightarrow> q_Config r = zero_Config"
  shows "Get call qcall key t (MakeClerk ctrlers) = None"
proof (cases "shard_loop (get_try call key) (Query qcall (sm (MakeClerk ctrlers)) (-1)) key t (config (MakeClerk ctrlers))")
  case (Some z)
  obtain t2 cf2 v where "z = (t2, cf2, v)" by (cases z)
  from get_loop_sound [OF Some [unfolded this]] assms show ?thesis
    by (auto simp: MakeClerk_def zero_Config_def)
qed (simp add: Get_def)

end
