(* ===== verification/Shard_Ctrler.thy ===== *)
theory Shard_Ctrler
  imports Raft_Step Shard_Clerk
begin

text \<open>
  The server of the shard controller, src/shardctrler/server.go. Its handlers are empty: a reply to any request is the zero value of its
  type, with the zero configuration in the case of \<^verbatim>\<open>Query\<close>.
\<close>

record 'c ShardCtrler =
  sc_me :: int
  sc_rf :: "'c Raft"
  sc_configs :: "Config list"

definition ctrler_StartServer :: "nat \<Rightarrow> int \<Rightarrow> 'c Persister \<Rightarrow> 'c ShardCtrler res" where
  "ctrler_StartServer npeers self ps =
     bindR (Make npeers self ps) (\<lambda>rf. Inr \<lparr>sc_me = self, sc_rf = rf, sc_configs = [zero_Config]\<rparr>)"

definition ShardCtrler_Kill :: "'c ShardCtrler \<Rightarrow> 'c ShardCtrler" where
  "ShardCtrler_Kill sc = sc\<lparr>sc_rf := Kill (sc_rf sc)\<rparr>"

definition handle_Query :: "'c ShardCtrler \<Rightarrow> int \<Rightarrow> 'c ShardCtrler \<times> QueryReply" where
  "handle_Query sc num = (sc, \<lparr>WrongLeader = False, ctl_Err = '''', q_Config = zero_Config\<rparr>)"

text \<open>
  Together with these handlers the clerk of the sharded service cannot work: whichever controllers answer which of its queries, its
  \<^verbatim>\<open>Get\<close> never returns.
\<close>

lemma Get_of_empty_controller_diverges:
  assumes "\<forall>t srv num r. qcall t srv num = Some r \<longrightarrow> (\<exists>sc :: 'c ShardCtrler. r = snd (handle_Query sc num))"
  shows "Get call qcall key t (MakeClerk ctrlers) = None"
proof (rule Get_zero_configuration_diverges, intro allI impI)
  fix t srv r assume "qcall t srv (-1) = Some r"
  with assms obtain sc :: "'c ShardCtrler" where "r = snd (handle_Query sc (-1))" by blast
  then show "q_Config r = zero_Config" by (simp add: handle_Query_def)
qed

end
