(* ===== verification/KV_Harness.thy ===== *)
theory KV_Harness
  imports Raft_Step LabRPC
begin

text \<open>
  The test harness of the fault-tolerant key/value service, src/kvraft/config.go, and the parts of src/kvraft/server.go and client.go that
  it calls: starting and stopping servers on the simulated network, connections between servers and from clerks, and partitions.

  Servers and persisters are kept by value; while a server runs, its persister is the one inside its Raft node (\<open>saved_now\<close>). Random
  names are a function \<open>nm\<close> from positions to strings, the random numbers of \<^verbatim>\<open>random_handles\<close> a list. Clerks are named by the order of
  their creation. The two minute limit of \<^verbatim>\<open>checkTimeout\<close> and what is printed are not there.
\<close>

section \<open>Servers and clerks\<close>

record 'c KVServer =
  kv_me :: int
  kv_rf :: "'c Raft"
  kv_dead :: bool
  kv_maxraftstate :: int

definition StartKVServer :: "nat \<Rightarrow> int \<Rightarrow> 'c Persister \<Rightarrow> int \<Rightarrow> 'c KVServer res" where
  "StartKVServer npeers self ps maxraft =
     bindR (Make npeers self ps) (\<lambda>rf.
       Inr \<lparr>kv_me = self, kv_rf = rf, kv_dead = False, kv_maxraftstate = maxraft\<rparr>)"

definition KVServer_Kill :: "'c KVServer \<Rightarrow> 'c KVServer" where
  "KVServer_Kill kv = kv\<lparr>kv_dead := True, kv_rf := Kill (kv_rf kv)\<rparr>"

record Clerk =
  ck_servers :: "string list"

definition MakeClerk :: "string list \<Rightarrow> Clerk" where
  "MakeClerk srvs = \<lparr>ck_servers = srvs\<rparr>"

text \<open>\<^verbatim>\<open>random_handles\<close>: \<open>js ! i\<close> is the result of \<^verbatim>\<open>rand.Intn(i + 1)\<close>.\<close>

definition random_handles :: "nat list \<Rightarrow> 'a list \<Rightarrow> 'a list" where
  "random_handles js kvh = fold (\<lambda>i sa. sa[i := sa ! (js ! i), js ! i := sa ! i]) [0..<length kvh] kvh"

section \<open>The state\<close>

record 'c config =
  cnet :: Network
  cn :: nat
  kvservers :: "'c KVServer option list"
  saved :: "'c Persister option list"
  endnames :: "string list option list"
  clerks :: "nat \<rightharpoonup> string list"
  nextClientId :: int
  maxraftstate :: int
  rpcs0 :: int
  ops :: "32 word"
  made :: nat        \<comment> \<open>the number of \<^verbatim>\<open>labrpc.Server\<close> objects made so far\<close>
  nclerks :: nat     \<comment> \<open>the number of clerks made so far\<close>

section \<open>Connections between servers\<close>

text \<open>\<^verbatim>\<open>cfg.net.Enable(cfg.endnames[a][b], x)\<close>\<close>

definition set_end :: "bool \<Rightarrow> 'c config \<Rightarrow> nat \<Rightarrow> nat \<Rightarrow> 'c config res" where
  "set_end x cfg a b =
     bindR (index (endnames cfg) (int a)) (\<lambda>ns.
     bindR (index (slice_elems ns) (int b)) (\<lambda>e.
       Inr (cfg\<lparr>cnet := Enable (cnet cfg) (Str e) x\<rparr>)))"

definition connectUnlocked :: "'c config \<Rightarrow> nat \<Rightarrow> nat list \<Rightarrow> 'c config res" where
  "connectUnlocked cfg i to =
     bindR (foldR (\<lambda>c k. set_end True c i k) cfg to) (\<lambda>c1.
       foldR (\<lambda>c k. set_end True c k i) c1 to)"

text \<open>
  In \<^verbatim>\<open>disconnectUnlocked\<close> the second loop tests \<^verbatim>\<open>cfg.endnames[j]\<close>, with the position \<open>j\<close> in the list, and not the element
  \<^verbatim>\<open>from[j]\<close> whose names it then uses.
\<close>

definition disconnectUnlocked :: "'c config \<Rightarrow> nat \<Rightarrow> nat list \<Rightarrow> 'c config res" where
  "disconnectUnlocked cfg i frm =
     bindR (foldR (\<lambda>c k. bindR (index (endnames c) (int i)) (\<lambda>ns. if ns \<noteq> None then set_end False c i k else Inr c)) cfg frm) (\<lambda>c1.
       foldR (\<lambda>c j. bindR (index (endnames c) (int j)) (\<lambda>ns. if ns \<noteq> None then set_end False c (frm ! j) i else Inr c))
         c1 [0..<length frm])"

definition AllServers :: "'c config \<Rightarrow> nat list" where
  "AllServers cfg = [0..<cn cfg]"

definition ConnectAll :: "'c config \<Rightarrow> 'c config res" where
  "ConnectAll cfg = foldR (\<lambda>c i. connectUnlocked c i (AllServers c)) cfg [0..<cn cfg]"

definition partition :: "'c config \<Rightarrow> nat list \<Rightarrow> nat list \<Rightarrow> 'c config res" where
  "partition cfg p1 p2 =
     bindR (foldR (\<lambda>c i. bindR (disconnectUnlocked c i p2) (\<lambda>c1. connectUnlocked c1 i p1)) cfg p1) (\<lambda>c2.
       foldR (\<lambda>c i. bindR (disconnectUnlocked c i p1) (\<lambda>c1. connectUnlocked c1 i p2)) c2 p2)"

section \<open>Clerks\<close>

definition ConnectClientUnlocked :: "'c config \<Rightarrow> nat \<Rightarrow> nat list \<Rightarrow> 'c config res" where
  "ConnectClientUnlocked cfg ck to =
     foldR (\<lambda>c k. bindR (index (slice_elems (clerks cfg ck)) (int k)) (\<lambda>s. Inr (c\<lparr>cnet := Enable (cnet c) (Str s) True\<rparr>))) cfg to"

definition DisconnectClientUnlocked :: "'c config \<Rightarrow> nat \<Rightarrow> nat list \<Rightarrow> 'c config res" where
  "DisconnectClientUnlocked cfg ck frm =
     foldR (\<lambda>c k. bindR (index (slice_elems (clerks cfg ck)) (int k)) (\<lambda>s. Inr (c\<lparr>cnet := Enable (cnet c) (Str s) False\<rparr>))) cfg frm"

text \<open>A fresh end point for each server.\<close>

definition make_ends :: "Network \<Rightarrow> string list \<Rightarrow> Network res" where
  "make_ends nt names =
     foldR (\<lambda>nt j. bindR (MakeEnd nt (Str (names ! j))) (\<lambda>nt1. Inr (Connect nt1 (Str (names ! j)) (Num (int j)))))
       nt [0..<length names]"

definition makeClient :: "'c config \<Rightarrow> (nat \<Rightarrow> string) \<Rightarrow> nat list \<Rightarrow> nat list \<Rightarrow> ('c config \<times> nat \<times> Clerk) res" where
  "makeClient cfg nm js to =
     (let names = map nm [0..<cn cfg] in
      bindR (make_ends (cnet cfg) names) (\<lambda>nt.
        let ck = MakeClerk (random_handles js names);
            c1 = cfg\<lparr>cnet := nt, clerks := (clerks cfg)(nclerks cfg \<mapsto> names), nclerks := Suc (nclerks cfg),
                     nextClientId := nextClientId cfg + 1\<rparr>
        in bindR (ConnectClientUnlocked c1 (nclerks cfg) to) (\<lambda>c2. Inr (c2, nclerks cfg, ck))))"

definition deleteClient :: "'c config \<Rightarrow> nat \<Rightarrow> 'c config" where
  "deleteClient cfg ck = cfg\<lparr>clerks := (clerks cfg)(ck := None)\<rparr>"

section \<open>Stopping and starting servers\<close>

definition saved_now :: "'c config \<Rightarrow> nat \<Rightarrow> 'c Persister option" where
  "saved_now cfg i =
     (case saved cfg ! i of
        None \<Rightarrow> None
      | Some ps \<Rightarrow> (case kvservers cfg ! i of None \<Rightarrow> Some ps | Some kv \<Rightarrow> Some (persister (kv_rf kv))))"

definition ShutdownServer :: "'c config \<Rightarrow> nat \<Rightarrow> 'c config res" where
  "ShutdownServer cfg i =
     bindR (disconnectUnlocked cfg i (AllServers cfg)) (\<lambda>c1.
       let c2 = c1\<lparr>cnet := DeleteServer (cnet c1) (Num (int i))\<rparr>
       in bindR (index (saved c2) (int i)) (\<lambda>_.
            Inr (c2\<lparr>saved := (saved c2)[i := map_option Persister_Copy (saved_now c2 i)],
                    kvservers := (kvservers c2)[i := None]\<rparr>)))"

definition StartServer :: "'c config \<Rightarrow> nat \<Rightarrow> (nat \<Rightarrow> string) \<Rightarrow> 'c config res" where
  "StartServer cfg i nm =
     (let names = map nm [0..<cn cfg] in
      bindR (set_index (endnames cfg) (int i) (Some names)) (\<lambda>es.
      bindR (make_ends (cnet cfg) names) (\<lambda>nt.
        let ps = (case saved_now cfg i of Some ps \<Rightarrow> Persister_Copy ps | None \<Rightarrow> MakePersister)
        in bindR (StartKVServer (cn cfg) (int i) ps (maxraftstate cfg)) (\<lambda>kv.
             Inr (cfg\<lparr>endnames := es, saved := (saved cfg)[i := Some ps], kvservers := (kvservers cfg)[i := Some kv],
                      cnet := AddServer nt (Num (int i)) (made cfg), made := Suc (made cfg)\<rparr>)))))"

section \<open>Leader and partition\<close>

fun Leader_from :: "'c KVServer option list \<Rightarrow> nat \<Rightarrow> (bool \<times> nat) res" where
  "Leader_from [] i = Inr (False, 0)"
| "Leader_from (None # kvs) i = Inl NilDereference"
| "Leader_from (Some kv # kvs) i = (if snd (GetState (kv_rf kv)) then Inr (True, i) else Leader_from kvs (i + 1))"

definition cfg_Leader :: "'c config \<Rightarrow> (bool \<times> nat) res" where
  "cfg_Leader cfg = Leader_from (kvservers cfg) 0"

text \<open>One round of the loop of \<^verbatim>\<open>make_partition\<close>, on \<open>j\<close> and the two slices.\<close>

definition part_step :: "nat \<Rightarrow> nat \<times> nat list \<times> nat list \<Rightarrow> nat \<Rightarrow> (nat \<times> nat list \<times> nat list) res" where
  "part_step l = (\<lambda>(j, p1, p2) i.
     if i \<noteq> l then
       (if j < length p1 then Inr (j + 1, p1[j := i], p2)
        else bindR (set_index p2 (int (j - length p1)) i) (\<lambda>p2'. Inr (j + 1, p1, p2')))
     else Inr (j, p1, p2))"

definition make_partition :: "'c config \<Rightarrow> (nat list \<times> nat list) res" where
  "make_partition cfg =
     bindR (cfg_Leader cfg) (\<lambda>(_, l).
     bindR (foldR (part_step l) (0, replicate (cn cfg div 2 + 1) 0, replicate (cn cfg div 2) 0) [0..<cn cfg]) (\<lambda>(j, p1, p2).
     bindR (set_index p2 (int (length p2) - 1) l) (\<lambda>p2'.
       Inr (p1, p2'))))"

section \<open>Begin and end of a test\<close>

definition make_config :: "nat \<Rightarrow> bool \<Rightarrow> int \<Rightarrow> (nat \<Rightarrow> nat \<Rightarrow> string) \<Rightarrow> 'c config res" where
  "make_config n unreliable maxraft nms =
     (let c0 = \<lparr>cnet = MakeNetwork, cn = n, kvservers = replicate n None, saved = replicate n None, endnames = replicate n None,
                clerks = Map.empty, nextClientId = int n + 1000, maxraftstate = maxraft, rpcs0 = 0, ops = 0, made = 0, nclerks = 0\<rparr>
      in bindR (foldR (\<lambda>c i. StartServer c i (nms i)) c0 [0..<n]) (\<lambda>c1.
         bindR (ConnectAll c1) (\<lambda>c2.
           Inr (c2\<lparr>cnet := Reliable (cnet c2) (\<not> unreliable)\<rparr>))))"

definition cleanup :: "'c config \<Rightarrow> 'c config res" where
  "cleanup cfg =
     bindR (Cleanup (cnet cfg)) (\<lambda>nt.
       Inr (cfg\<lparr>kvservers := map (map_option KVServer_Kill) (kvservers cfg), cnet := nt\<rparr>))"

definition rpcTotal :: "'c config \<Rightarrow> int" where
  "rpcTotal cfg = GetTotalCount (cnet cfg)"

definition begin_test :: "'c config \<Rightarrow> 'c config" where
  "begin_test cfg = cfg\<lparr>rpcs0 := rpcTotal cfg, ops := 0\<rparr>"

definition op :: "'c config \<Rightarrow> 'c config" where
  "op cfg = cfg\<lparr>ops := ops cfg + 1\<rparr>"

text \<open>The numbers that \<^verbatim>\<open>end\<close> prints: peers, RPCs and operations since \<^verbatim>\<open>begin\<close>.\<close>

definition end_test :: "'c config \<Rightarrow> int \<times> int \<times> int" where
  "end_test cfg = (int (cn cfg), rpcTotal cfg - rpcs0 cfg, sint (ops cfg))"

section \<open>End points and their owners\<close>

datatype owner = Srv nat | Clk nat

definition names_of :: "'c config \<Rightarrow> owner \<Rightarrow> string list option" where
  "names_of cfg w = (case w of Srv i \<Rightarrow> if i < cn cfg then endnames cfg ! i else None | Clk k \<Rightarrow> clerks cfg k)"

definition tracked :: "'c config \<Rightarrow> owner \<Rightarrow> nat \<Rightarrow> iname \<Rightarrow> bool" where
  "tracked cfg w j e \<longleftrightarrow> j < cn cfg \<and> (\<exists>ns. names_of cfg w = Some ns \<and> e = Str (ns ! j))"

text \<open>
  The invariant of a test: the end points of servers and clerks are all different, exist, and lead to the server of their position.
\<close>

definition wired :: "'c config \<Rightarrow> bool" where
  "wired cfg \<longleftrightarrow> length (endnames cfg) = cn cfg \<and> length (saved cfg) = cn cfg \<and> length (kvservers cfg) = cn cfg \<and>
     (\<forall>w ns. names_of cfg w = Some ns \<longrightarrow> length ns = cn cfg) \<and> (\<forall>k \<ge> nclerks cfg. clerks cfg k = None) \<and>
     (\<forall>w j e. tracked cfg w j e \<longrightarrow> e \<in> ends (cnet cfg) \<and> connections (cnet cfg) e = Some (Num (int j))) \<and>
     (\<forall>w j w' j' e. tracked cfg w j e \<longrightarrow> tracked cfg w' j' e \<longrightarrow> w = w' \<and> j = j')"

definition all_named :: "'c config \<Rightarrow> bool" where
  "all_named cfg \<longleftrightarrow> (\<forall>i < cn cfg. endnames cfg ! i \<noteq> None)"

definition server_end :: "'c config \<Rightarrow> nat \<Rightarrow> nat \<Rightarrow> iname" where
  "server_end cfg i j = Str (the (endnames cfg ! i) ! j)"

lemma tracked_server:
  "all_named cfg \<Longrightarrow> i < cn cfg \<Longrightarrow> tracked cfg (Srv i) j e \<longleftrightarrow> j < cn cfg \<and> e = server_end cfg i j"
  by (auto simp: tracked_def names_of_def server_end_def all_named_def)

lemma server_end_inj:
  assumes "wired cfg" "all_named cfg" "i < cn cfg" "j < cn cfg" "i' < cn cfg" "j' < cn cfg" "server_end cfg i j = server_end cfg i' j'"
  shows "i = i' \<and> j = j'"
proof -
  have "tracked cfg (Srv i) j (server_end cfg i j)" "tracked cfg (Srv i') j' (server_end cfg i j)"
    using assms by (simp_all add: tracked_server)
  then show ?thesis using assms(1) unfolding wired_def by blast
qed

section \<open>The matrix of links\<close>

text \<open>
  The abstract state that the operations on connections work on is a matrix: \<open>L a b\<close> says that server \<open>a\<close> can send to server \<open>b\<close>.
  \<open>links cfg c L\<close> relates it to a state \<open>c\<close> that differs from \<open>cfg\<close> in what is enabled between servers only.
\<close>

definition links :: "'c config \<Rightarrow> 'c config \<Rightarrow> (nat \<Rightarrow> nat \<Rightarrow> bool) \<Rightarrow> bool" where
  "links cfg c L \<longleftrightarrow> (\<exists>f. c = cfg\<lparr>cnet := (cnet cfg)\<lparr>enabled := f\<rparr>\<rparr> \<and>
     (\<forall>a < cn cfg. \<forall>b < cn cfg. f (server_end cfg a b) = L a b) \<and>
     (\<forall>e. (\<forall>a < cn cfg. \<forall>b < cn cfg. e \<noteq> server_end cfg a b) \<longrightarrow> f e = enabled (cnet cfg) e))"

definition upd :: "bool \<Rightarrow> nat \<Rightarrow> nat \<Rightarrow> (nat \<Rightarrow> nat \<Rightarrow> bool) \<Rightarrow> nat \<Rightarrow> nat \<Rightarrow> bool" where
  "upd x i j L = (\<lambda>a b. if a = i \<and> b = j then x else L a b)"

definition link_conn :: "nat \<Rightarrow> nat list \<Rightarrow> (nat \<Rightarrow> nat \<Rightarrow> bool) \<Rightarrow> nat \<Rightarrow> nat \<Rightarrow> bool" where
  "link_conn i to L = (\<lambda>a b. a = i \<and> b \<in> set to \<or> b = i \<and> a \<in> set to \<or> L a b)"

definition link_disc :: "nat \<Rightarrow> nat list \<Rightarrow> (nat \<Rightarrow> nat \<Rightarrow> bool) \<Rightarrow> nat \<Rightarrow> nat \<Rightarrow> bool" where
  "link_disc i frm L = (\<lambda>a b. \<not> (a = i \<and> b \<in> set frm \<or> b = i \<and> a \<in> set frm) \<and> L a b)"

lemma links_self: "links cfg cfg (\<lambda>a b. enabled (cnet cfg) (server_end cfg a b))"
  unfolding links_def by (rule exI [of _ "enabled (cnet cfg)"]) simp

lemma links_keeps: "links cfg c L \<Longrightarrow> endnames c = endnames cfg \<and> cn c = cn cfg"
  by (auto simp: links_def)

lemma links_enabled:
  "links cfg c L \<Longrightarrow> a < cn cfg \<Longrightarrow> b < cn cfg \<Longrightarrow> enabled (cnet c) (server_end cfg a b) = L a b"
  by (auto simp: links_def)

lemma set_end_refines:
  assumes "wired cfg" "all_named cfg" "links cfg c L" "i < cn cfg" "j < cn cfg"
  shows "\<exists>c'. set_end x c i j = Inr c' \<and> links cfg c' (upd x i j L)"
proof -
  from assms(3) obtain f where f: "c = cfg\<lparr>cnet := (cnet cfg)\<lparr>enabled := f\<rparr>\<rparr>"
    "\<And>a b. a < cn cfg \<Longrightarrow> b < cn cfg \<Longrightarrow> f (server_end cfg a b) = L a b"
    "\<And>e. (\<forall>a < cn cfg. \<forall>b < cn cfg. e \<noteq> server_end cfg a b) \<Longrightarrow> f e = enabled (cnet cfg) e"
    unfolding links_def by auto
  obtain ns where ns: "endnames cfg ! i = Some ns" using assms(2,4) by (auto simp: all_named_def)
  then have "names_of cfg (Srv i) = Some ns" using assms(4) by (simp add: names_of_def)
  then have len: "length ns = cn cfg" "length (endnames cfg) = cn cfg" using assms(1) unfolding wired_def by blast+
  have "set_end x c i j = Inr (cfg\<lparr>cnet := (cnet cfg)\<lparr>enabled := f(server_end cfg i j := x)\<rparr>\<rparr>)"
    using ns len assms(4,5) by (simp add: set_end_def f(1) index_def Enable_def server_end_def)
  moreover have "links cfg (cfg\<lparr>cnet := (cnet cfg)\<lparr>enabled := f(server_end cfg i j := x)\<rparr>\<rparr>) (upd x i j L)"
    unfolding links_def using f(2,3) assms(4,5) server_end_inj [OF assms(1,2) _ _ assms(4,5)]
    by (intro exI [of _ "f(server_end cfg i j := x)"]) (auto simp: upd_def)
  ultimately show ?thesis by blast
qed

lemma fold_upd_row: "fold (\<lambda>k. upd x i k) ks L = (\<lambda>a b. if a = i \<and> b \<in> set ks then x else L a b)"
  by (induction ks arbitrary: L) (auto simp: upd_def fun_eq_iff)

lemma fold_upd_col: "fold (\<lambda>k. upd x k i) ks L = (\<lambda>a b. if b = i \<and> a \<in> set ks then x else L a b)"
  by (induction ks arbitrary: L) (auto simp: upd_def fun_eq_iff)

lemma connect_refines:
  assumes "wired cfg" "all_named cfg" "links cfg c L" "i < cn cfg" "set to \<subseteq> {..<cn cfg}"
  shows "\<exists>c'. connectUnlocked c i to = Inr c' \<and> links cfg c' (link_conn i to L)"
proof -
  obtain c1 where c1: "foldR (\<lambda>c k. set_end True c i k) c to = Inr c1" "links cfg c1 (fold (\<lambda>k. upd True i k) to L)"
    using foldR_refines [where R = "links cfg" and f = "\<lambda>c k. set_end True c i k" and g = "\<lambda>k. upd True i k" and xs = to, OF _ assms(3)]
      set_end_refines [OF assms(1,2)] assms(4,5) by blast
  obtain c2 where c2: "foldR (\<lambda>c k. set_end True c k i) c1 to = Inr c2"
      "links cfg c2 (fold (\<lambda>k. upd True k i) to (fold (\<lambda>k. upd True i k) to L))"
    using foldR_refines [where R = "links cfg" and f = "\<lambda>c k. set_end True c k i" and g = "\<lambda>k. upd True k i" and xs = to, OF _ c1(2)]
      set_end_refines [OF assms(1,2)] assms(4,5) by blast
  have "fold (\<lambda>k. upd True k i) to (fold (\<lambda>k. upd True i k) to L) = link_conn i to L"
    unfolding fold_upd_row fold_upd_col by (auto simp: link_conn_def fun_eq_iff)
  then show ?thesis using c1(1) c2 by (simp add: connectUnlocked_def)
qed

lemma guard_passes:
  assumes "wired cfg" "all_named cfg" "links cfg c L" "i < cn cfg"
  shows "bindR (index (endnames c) (int i)) (\<lambda>ns. if ns \<noteq> None then F else G) = F"
  using assms links_keeps [OF assms(3)] by (simp add: wired_def all_named_def index_def)

lemma fold_nth: "fold (\<lambda>j. g (xs ! j)) [0..<length xs] L = fold g xs L"
proof -
  have "fold g (map (nth xs) [0..<length xs]) L = fold (\<lambda>j. g (xs ! j)) [0..<length xs] L" by (simp add: fold_map comp_def)
  then show ?thesis by (simp add: map_nth)
qed

lemma disconnect_refines:
  assumes "wired cfg" "all_named cfg" "links cfg c L" "i < cn cfg" "set frm \<subseteq> {..<cn cfg}" "length frm \<le> cn cfg"
  shows "\<exists>c'. disconnectUnlocked c i frm = Inr c' \<and> links cfg c' (link_disc i frm L)"
proof -
  note gp = guard_passes [OF assms(1,2)] and se = set_end_refines [OF assms(1,2), where x = False]
  have "\<exists>c1. foldR (\<lambda>c k. bindR (index (endnames c) (int i)) (\<lambda>ns. if ns \<noteq> None then set_end False c i k else Inr c)) c frm = Inr c1 \<and>
      links cfg c1 (fold (\<lambda>k. upd False i k) frm L)"
    by (rule foldR_refines [where R = "links cfg", OF _ assms(3)], subst gp) (use se assms(4,5) in auto)
  then obtain c1 where c1: "foldR (\<lambda>c k. bindR (index (endnames c) (int i)) (\<lambda>ns. if ns \<noteq> None then set_end False c i k else Inr c)) c frm = Inr c1"
      "links cfg c1 (fold (\<lambda>k. upd False i k) frm L)" by blast
  have "\<exists>c2. foldR (\<lambda>c j. bindR (index (endnames c) (int j)) (\<lambda>ns. if ns \<noteq> None then set_end False c (frm ! j) i else Inr c))
        c1 [0..<length frm] = Inr c2 \<and>
      links cfg c2 (fold (\<lambda>j. upd False (frm ! j) i) [0..<length frm] (fold (\<lambda>k. upd False i k) frm L))"
  proof (rule foldR_refines [where R = "links cfg", OF _ c1(2)])
    fix c j L assume j: "j \<in> set [0..<length frm]" and c: "links cfg c L"
    have "frm ! j < cn cfg" "j < cn cfg" using j assms(5,6) by (auto simp: subset_iff)
    then show "\<exists>c'. bindR (index (endnames c) (int j)) (\<lambda>ns. if ns \<noteq> None then set_end False c (frm ! j) i else Inr c) = Inr c' \<and>
        links cfg c' (upd False (frm ! j) i L)"
      by (subst gp [OF c]) (use se [OF c] assms(4) in auto)
  qed
  then obtain c2 where c2: "foldR (\<lambda>c j. bindR (index (endnames c) (int j)) (\<lambda>ns. if ns \<noteq> None then set_end False c (frm ! j) i else Inr c))
        c1 [0..<length frm] = Inr c2"
      "links cfg c2 (fold (\<lambda>k. upd False k i) frm (fold (\<lambda>k. upd False i k) frm L))"
    using fold_nth [of "\<lambda>k. upd False k i" frm] by auto
  have "fold (\<lambda>k. upd False k i) frm (fold (\<lambda>k. upd False i k) frm L) = link_disc i frm L"
    unfolding fold_upd_row fold_upd_col by (auto simp: link_disc_def fun_eq_iff)
  then show ?thesis using c1(1) c2 unfolding disconnectUnlocked_def by simp
qed

text \<open>What one of the two loops of \<^verbatim>\<open>partition\<close> does to the links, for the part \<open>p\<close> and the other part \<open>q\<close>.\<close>

lemma fold_part:
  assumes "set xs \<subseteq> set p" "set p \<inter> set q = {}"
  shows "fold (\<lambda>i L. link_conn i p (link_disc i q L)) xs L a b \<longleftrightarrow>
    (a \<in> set xs \<and> b \<in> set p \<or> b \<in> set xs \<and> a \<in> set p) \<or>
    \<not> (a \<in> set xs \<and> b \<in> set q \<or> b \<in> set xs \<and> a \<in> set q) \<and> L a b"
  using assms(1)
proof (induction xs arbitrary: L)
  case (Cons x xs)
  have IH: "fold (\<lambda>i L. link_conn i p (link_disc i q L)) xs L' a b \<longleftrightarrow>
      (a \<in> set xs \<and> b \<in> set p \<or> b \<in> set xs \<and> a \<in> set p) \<or>
      \<not> (a \<in> set xs \<and> b \<in> set q \<or> b \<in> set xs \<and> a \<in> set q) \<and> L' a b" for L'
    using Cons by simp
  have xp: "x \<in> set p" "x \<notin> set q" "a \<in> set p \<Longrightarrow> a \<notin> set q" "b \<in> set p \<Longrightarrow> b \<notin> set q"
      "a \<in> set xs \<Longrightarrow> a \<in> set p" "b \<in> set xs \<Longrightarrow> b \<in> set p"
    using Cons.prems assms(2) by auto
  show ?case
    unfolding fold_simps IH unfolding link_conn_def link_disc_def using xp by auto
qed simp

lemma part_loop_refines:
  assumes "wired cfg" "all_named cfg" "links cfg c L" "set p \<subseteq> {..<cn cfg}" "set q \<subseteq> {..<cn cfg}" "length q \<le> cn cfg"
  shows "\<exists>c'. foldR (\<lambda>c i. bindR (disconnectUnlocked c i q) (\<lambda>c1. connectUnlocked c1 i p)) c p = Inr c' \<and>
    links cfg c' (fold (\<lambda>i L. link_conn i p (link_disc i q L)) p L)"
proof (rule foldR_refines [where R = "links cfg", OF _ assms(3)])
  fix c i L assume i: "i \<in> set p" and c: "links cfg c L"
  then have "i < cn cfg" using assms(4) by auto
  then obtain c1 where "disconnectUnlocked c i q = Inr c1" "links cfg c1 (link_disc i q L)"
    using disconnect_refines [OF assms(1,2) c _ assms(5,6)] by blast
  then show "\<exists>c'. bindR (disconnectUnlocked c i q) (\<lambda>c1. connectUnlocked c1 i p) = Inr c' \<and>
      links cfg c' (link_conn i p (link_disc i q L))"
    using connect_refines [OF assms(1,2) _ \<open>i < cn cfg\<close> assms(4)] by simp
qed

lemma partition_refines:
  assumes "wired cfg" "all_named cfg" "links cfg c L" "set p1 \<union> set p2 = {..<cn cfg}" "set p1 \<inter> set p2 = {}"
    "length p1 \<le> cn cfg" "length p2 \<le> cn cfg"
  shows "\<exists>c' L'. partition c p1 p2 = Inr c' \<and> links cfg c' L' \<and>
    (\<forall>a < cn cfg. \<forall>b < cn cfg. L' a b \<longleftrightarrow> (a \<in> set p1 \<longleftrightarrow> b \<in> set p1))"
proof -
  have sub: "set p1 \<subseteq> {..<cn cfg}" "set p2 \<subseteq> {..<cn cfg}" using assms(4) by auto
  obtain c1 where c1: "foldR (\<lambda>c i. bindR (disconnectUnlocked c i p2) (\<lambda>c1. connectUnlocked c1 i p1)) c p1 = Inr c1"
      "links cfg c1 (fold (\<lambda>i L. link_conn i p1 (link_disc i p2 L)) p1 L)"
    using part_loop_refines [OF assms(1-3) sub assms(7)] by blast
  obtain c2 where c2: "foldR (\<lambda>c i. bindR (disconnectUnlocked c i p1) (\<lambda>c1. connectUnlocked c1 i p2)) c1 p2 = Inr c2"
      "links cfg c2 (fold (\<lambda>i L. link_conn i p2 (link_disc i p1 L)) p2 (fold (\<lambda>i L. link_conn i p1 (link_disc i p2 L)) p1 L))"
    using part_loop_refines [OF assms(1,2) c1(2) sub(2,1) assms(6)] by blast
  have dj: "set p2 \<inter> set p1 = {}" using assms(5) by blast
  have side: "a < cn cfg \<Longrightarrow> a \<in> set p2 \<longleftrightarrow> a \<notin> set p1" for a using assms(4,5) by auto
  have "fold (\<lambda>i L. link_conn i p2 (link_disc i p1 L)) p2 (fold (\<lambda>i L. link_conn i p1 (link_disc i p2 L)) p1 L) a b \<longleftrightarrow>
      (a \<in> set p1 \<longleftrightarrow> b \<in> set p1)" if "a < cn cfg" "b < cn cfg" for a b
    unfolding fold_part [OF order_refl dj] fold_part [OF order_refl assms(5)] using side [OF that(1)] side [OF that(2)] by blast
  then show ?thesis using c1(1) c2 unfolding partition_def by (auto intro!: exI [of _ c2])
qed

section \<open>The choice of the partition\<close>

lemma part_fold:
  assumes "p1 @ p2 = ys @ replicate k 0" "length (filter (\<lambda>i. i \<noteq> l) xs) \<le> k"
  shows "\<exists>j' p1' p2'. foldR (part_step l) (length ys, p1, p2) xs = Inr (j', p1', p2') \<and>
    length p1' = length p1 \<and> length p2' = length p2 \<and>
    p1' @ p2' = ys @ filter (\<lambda>i. i \<noteq> l) xs @ replicate (k - length (filter (\<lambda>i. i \<noteq> l) xs)) 0"
  using assms
proof (induction xs arbitrary: p1 p2 ys k)
  case (Cons i xs)
  show ?case
  proof (cases "i = l")
    case True
    then show ?thesis using Cons by (auto simp: part_step_def)
  next
    case False
    then obtain k' where k: "k = Suc k'" using Cons.prems(2) by (cases k) auto
    let ?j = "length ys"
    have len: "?j < length (p1 @ p2)" unfolding Cons.prems(1) k by simp
    have all: "(p1 @ p2)[?j := i] = (ys @ [i]) @ replicate k' 0"
      unfolding Cons.prems(1) k by (simp add: list_update_append)
    obtain q1 q2 where q: "part_step l (?j, p1, p2) i = Inr (length (ys @ [i]), q1, q2)"
      "q1 @ q2 = (ys @ [i]) @ replicate k' 0" "length q1 = length p1" "length q2 = length p2"
    proof (cases "?j < length p1")
      case True
      then show ?thesis using that [of "p1[?j := i]" p2] all False by (simp add: part_step_def list_update_append)
    next
      case j: False
      then show ?thesis using that [of p1 "p2[?j - length p1 := i]"] all len False
        by (simp add: part_step_def list_update_append set_index_def nat_diff_distrib)
    qed
    have "length (filter (\<lambda>i. i \<noteq> l) xs) \<le> k'" using Cons.prems(2) False k by simp
    from Cons.IH [OF q(2) this] show ?thesis using q False k by simp
  qed
qed auto

lemma part_lists_ok:
  assumes "l < n" "odd n" "n \<noteq> 1"
  shows "\<exists>j p1 p2 p2'. foldR (part_step l) (0, replicate (n div 2 + 1) 0, replicate (n div 2) 0) [0..<n] = Inr (j, p1, p2) \<and>
    set_index p2 (int (length p2) - 1) l = Inr p2' \<and> length p1 = n div 2 + 1 \<and> length p2' = n div 2 \<and>
    p1 @ p2' = filter (\<lambda>i. i \<noteq> l) [0..<n] @ [l]"
proof -
  let ?xs = "filter (\<lambda>i. i \<noteq> l) [0..<n]"
  have "length ?xs = card (set ?xs)" by (rule distinct_card [symmetric]) simp
  also have "set ?xs = {0..<n} - {l}" by auto
  finally have len: "length ?xs = n - 1" using assms(1) by simp
  have n: "n div 2 + 1 + n div 2 = n" using assms(2) by presburger
  have pos: "n div 2 \<noteq> 0" "0 < n" using assms(2,3) by (auto elim!: oddE)
  have "replicate (n div 2 + 1) 0 @ replicate (n div 2) 0 = [] @ replicate n (0::nat)"
    by (metis n replicate_add append_Nil)
  from part_fold [OF this, of l "[0..<n]"] len obtain j p1 p2 where
    p: "foldR (part_step l) (0, replicate (n div 2 + 1) 0, replicate (n div 2) 0) [0..<n] = Inr (j, p1, p2)"
      "length p1 = n div 2 + 1" "length p2 = n div 2" "p1 @ p2 = ?xs @ replicate (n - (n - 1)) 0"
    by auto
  have "n - (n - 1) = 1" using pos by simp
  then have p12: "p1 @ p2 = ?xs @ [0]" using p(4) by simp
  have "(p1 @ p2)[length ?xs := l] = ?xs @ [l]" unfolding p12 by simp
  moreover have "length ?xs = length p1 + (length p2 - 1)" using len p(2,3) pos n by simp
  ultimately have "p1 @ p2[length p2 - 1 := l] = ?xs @ [l]" by (simp add: list_update_append)
  moreover have "set_index p2 (int (length p2) - 1) l = Inr (p2[length p2 - 1 := l])"
    using p(3) pos by (simp add: set_index_def nat_diff_distrib)
  ultimately show ?thesis using p by simp
qed

lemma make_partition_ok:
  assumes "cfg_Leader cfg = Inr (b, l)" "l < cn cfg" "odd (cn cfg)" "cn cfg \<noteq> 1"
  shows "\<exists>p1 p2. make_partition cfg = Inr (p1, p2) \<and> length p1 = cn cfg div 2 + 1 \<and> length p2 = cn cfg div 2 \<and>
    p1 @ p2 = filter (\<lambda>i. i \<noteq> l) [0..<cn cfg] @ [l]"
  using part_lists_ok [OF assms(2-4)] by (auto simp: make_partition_def assms(1))

text \<open>The two lists are a partition with the last server \<open>l\<close> in the smaller part.\<close>

lemma part_lists_props:
  assumes "p1 @ p2 = filter (\<lambda>i. i \<noteq> l) [0..<n] @ [l]" "length p1 = n div 2 + 1" "length p2 = n div 2" "l < n" "odd n" "n \<noteq> 1"
  shows "set p1 \<union> set p2 = {..<n}" "set p1 \<inter> set p2 = {}" "length p2 < length p1" "l \<in> set p2" "length p1 \<le> n" "length p2 \<le> n"
proof -
  have "set (p1 @ p2) = {..<n}" "distinct (p1 @ p2)" unfolding assms(1) using assms(4) by auto
  then show "set p1 \<union> set p2 = {..<n}" "set p1 \<inter> set p2 = {}" by auto
  have "p2 \<noteq> []" using assms(3,5,6) by (auto elim!: oddE)
  then have "last p2 = last (p1 @ p2)" by simp
  also have "\<dots> = l" by (simp only: assms(1) last_snoc)
  finally show "l \<in> set p2" using \<open>p2 \<noteq> []\<close> last_in_set by metis
  show "length p2 < length p1" "length p1 \<le> n" "length p2 \<le> n" using assms(2,3,5) by (auto elim!: oddE)
qed

lemma Leader_from_ok:
  assumes "\<forall>kv \<in> set kvs. kv \<noteq> None"
  shows "\<exists>b l. Leader_from kvs i = Inr (b, l) \<and> (b = False \<longrightarrow> l = 0 \<and> (\<forall>kv \<in> set kvs. state (kv_rf (the kv)) \<noteq> Leader)) \<and>
    (b \<longrightarrow> i \<le> l \<and> l < i + length kvs \<and> state (kv_rf (the (kvs ! (l - i)))) = Leader)"
  using assms
proof (induction kvs arbitrary: i)
  case (Cons k kvs)
  then obtain kv where k: "k = Some kv" by auto
  show ?case
  proof (cases "state (kv_rf kv) = Leader")
    case True
    then show ?thesis by (intro exI [of _ True] exI [of _ i]) (simp add: k GetState_def)
  next
    case False
    have "\<forall>kv \<in> set kvs. kv \<noteq> None" using Cons.prems by simp
    from Cons.IH [OF this, of "i + 1"] obtain b l where IH: "Leader_from kvs (i + 1) = Inr (b, l)"
      "b = False \<longrightarrow> l = 0 \<and> (\<forall>kv \<in> set kvs. state (kv_rf (the kv)) \<noteq> Leader)"
      "b \<longrightarrow> i + 1 \<le> l \<and> l < i + 1 + length kvs \<and> state (kv_rf (the (kvs ! (l - (i + 1))))) = Leader" by (elim exE conjE)
    have "b \<longrightarrow> (k # kvs) ! (l - i) = kvs ! (l - (i + 1))" using IH(3) by (auto simp: nth_Cons')
    then show ?thesis using IH False by (intro exI [of _ b] exI [of _ l]) (auto simp: k GetState_def)
  qed
qed (simp, blast)

section \<open>What the operations keep\<close>

definition only_enabled :: "'c config \<Rightarrow> 'c config \<Rightarrow> bool" where
  "only_enabled cfg c \<longleftrightarrow> (\<exists>f. c = cfg\<lparr>cnet := (cnet cfg)\<lparr>enabled := f\<rparr>\<rparr>)"

interpretation only: frame only_enabled
proof
  show "only_enabled c c" for c :: "'a config"
    unfolding only_enabled_def by (rule exI [of _ "enabled (cnet c)"]) simp
  show "only_enabled a c" if "only_enabled a b" "only_enabled b c" for a b c :: "'a config"
    using that by (auto simp: only_enabled_def)
qed

lemma set_end_keeps: "set_end x cfg a b = Inr c \<Longrightarrow> only_enabled cfg c"
  by (auto simp: set_end_def only_enabled_def Enable_def)

lemma connectUnlocked_keeps: "connectUnlocked cfg i to = Inr c \<Longrightarrow> only_enabled cfg c"
  unfolding connectUnlocked_def by (erule only.bindR_frame) (erule only.foldR_frame [rotated], erule set_end_keeps)+

lemma disconnectUnlocked_keeps:
  assumes "disconnectUnlocked cfg i frm = Inr c"
  shows "only_enabled cfg c"
proof -
  have guarded: "only_enabled c c'" if "bindR (index (endnames c) k) (\<lambda>ns. if ns \<noteq> None then set_end False c a b else Inr c) = Inr c'"
    for c c' :: "'a config" and k a b
    using that by (auto split: if_splits intro: only.refl set_end_keeps)
  show ?thesis using assms unfolding disconnectUnlocked_def
    by (rule only.bindR_frame) (erule only.foldR_frame [rotated], erule guarded)+
qed

lemma ConnectAll_keeps: "ConnectAll cfg = Inr c \<Longrightarrow> only_enabled cfg c"
  unfolding ConnectAll_def by (erule only.foldR_frame [rotated], erule connectUnlocked_keeps)

lemma partition_keeps:
  assumes "partition cfg p1 p2 = Inr c"
  shows "only_enabled cfg c"
proof -
  have side: "only_enabled c c'" if "bindR (disconnectUnlocked c i p) (\<lambda>c1. connectUnlocked c1 i q) = Inr c'" for c c' :: "'a config" and i p q
    using that by (rule only.bindR_frame) (erule disconnectUnlocked_keeps connectUnlocked_keeps)+
  show ?thesis using assms unfolding partition_def
    by (rule only.bindR_frame) (erule only.foldR_frame [rotated], erule side)+
qed

lemma ConnectClientUnlocked_keeps: "ConnectClientUnlocked cfg ck to = Inr c \<Longrightarrow> only_enabled cfg c"
  unfolding ConnectClientUnlocked_def
  by (erule only.foldR_frame [rotated]) (auto simp: only_enabled_def Enable_def)

lemma DisconnectClientUnlocked_keeps: "DisconnectClientUnlocked cfg ck frm = Inr c \<Longrightarrow> only_enabled cfg c"
  unfolding DisconnectClientUnlocked_def
  by (erule only.foldR_frame [rotated]) (auto simp: only_enabled_def Enable_def)

lemmas only_enabled_ops = connectUnlocked_keeps disconnectUnlocked_keeps ConnectAll_keeps partition_keeps
  ConnectClientUnlocked_keeps DisconnectClientUnlocked_keeps

text \<open>The invariant depends on the names and on where the end points lead only.\<close>

definition good :: "'c config \<Rightarrow> bool" where
  "good cfg \<longleftrightarrow> wired cfg \<and> all_named cfg"

lemma wired_cong:
  assumes "wired cfg" "cn c = cn cfg" "endnames c = endnames cfg" "clerks c = clerks cfg" "nclerks c = nclerks cfg"
    "length (saved c) = length (saved cfg)" "length (kvservers c) = length (kvservers cfg)"
    "ends (cnet c) = ends (cnet cfg)" "connections (cnet c) = connections (cnet cfg)"
  shows "wired c"
proof -
  have "names_of c = names_of cfg" by (simp add: names_of_def assms fun_eq_iff split: owner.split)
  then have "tracked c = tracked cfg" by (simp add: tracked_def assms fun_eq_iff)
  then show ?thesis using assms \<open>names_of c = names_of cfg\<close> by (simp add: wired_def)
qed

lemma wired_only_enabled: "wired cfg \<Longrightarrow> only_enabled cfg c \<Longrightarrow> wired c"
  by (erule wired_cong) (auto simp: only_enabled_def)

lemma good_only_enabled: "good cfg \<Longrightarrow> only_enabled cfg c \<Longrightarrow> good c"
  unfolding good_def using wired_only_enabled by (auto simp: only_enabled_def all_named_def)

section \<open>New end points\<close>

definition fresh_row :: "Network \<Rightarrow> Network \<Rightarrow> string list \<Rightarrow> nat \<Rightarrow> bool" where
  "fresh_row nt nt' names k \<longleftrightarrow>
     (\<forall>j < k. Str (names ! j) \<notin> ends nt) \<and> inj_on (nth names) {..<k} \<and>
     ends nt' = ends nt \<union> (\<lambda>j. Str (names ! j)) ` {..<k} \<and>
     (\<forall>j < k. connections nt' (Str (names ! j)) = Some (Num (int j))) \<and>
     (\<forall>e \<in> ends nt. connections nt' e = connections nt e \<and> enabled nt' e = enabled nt e)"

lemma fresh_row_step:
  assumes "fresh_row nt nt1 names k" "MakeEnd nt1 (Str (names ! k)) = Inr nt2"
  shows "fresh_row nt (Connect nt2 (Str (names ! k)) (Num (int k))) names (Suc k)"
proof -
  let ?e = "Str (names ! k)"
  have "?e \<notin> ends nt1" using assms(2) by (simp add: MakeEnd_def split: if_splits)
  moreover have "ends nt1 = ends nt \<union> (\<lambda>j. Str (names ! j)) ` {..<k}" using assms(1) by (simp add: fresh_row_def)
  ultimately have "?e \<notin> ends nt" and img: "?e \<notin> (\<lambda>j. Str (names ! j)) ` {..<k}" by blast+
  have "\<forall>j < k. names ! j \<noteq> names ! k"
  proof (intro allI impI notI)
    fix j assume j: "j < k" "names ! j = names ! k"
    then have "?e \<in> (\<lambda>j. Str (names ! j)) ` {..<k}" by (intro image_eqI [of _ _ j]) simp_all
    with img show False ..
  qed
  note new = \<open>?e \<notin> ends nt\<close> this
  have nt2: "nt2 = nt1\<lparr>ends := insert ?e (ends nt1), enabled := (enabled nt1)(?e := False), connections := (connections nt1)(?e := None)\<rparr>"
    using assms(2) by (simp add: MakeEnd_def split: if_splits)
  have old: "\<forall>e \<in> ends nt. e \<noteq> ?e" using new(1) by auto
  have "inj_on (nth names) {..<Suc k}" using assms(1) new(2) by (auto simp: fresh_row_def lessThan_Suc)
  then show ?thesis
    using assms(1) new old by (auto simp: fresh_row_def nt2 Connect_def lessThan_Suc less_Suc_eq)
qed

lemma make_ends_fresh: "make_ends nt names = Inr nt' \<Longrightarrow> fresh_row nt nt' names (length names)"
proof -
  have "foldR (\<lambda>nt j. bindR (MakeEnd nt (Str (names ! j))) (\<lambda>nt1. Inr (Connect nt1 (Str (names ! j)) (Num (int j))))) nt [0..<k] = Inr nt'
      \<Longrightarrow> fresh_row nt nt' names k" for k nt'
  proof (induction k arbitrary: nt')
    case 0
    then show ?case by (simp add: fresh_row_def)
  next
    case (Suc k)
    then show ?case by (auto simp: foldR_append intro: fresh_row_step)
  qed
  then show "make_ends nt names = Inr nt' \<Longrightarrow> fresh_row nt nt' names (length names)" by (simp add: make_ends_def)
qed

lemma wired_add_row:
  assumes "wired cfg" "fresh_row (cnet cfg) nt names (cn cfg)" "length names = cn cfg"
    "cn c = cn cfg" "names_of c = (names_of cfg)(w := Some names)" "ends (cnet c) = ends nt" "connections (cnet c) = connections nt"
    "length (endnames c) = cn cfg" "length (saved c) = cn cfg" "length (kvservers c) = cn cfg" "\<forall>k \<ge> nclerks c. clerks c k = None"
  shows "wired c"
proof -
  have tr: "tracked c v j e \<longleftrightarrow> (if v = w then j < cn cfg \<and> e = Str (names ! j) else tracked cfg v j e)" for v j e
    by (simp add: tracked_def assms)
  have old: "e \<in> ends (cnet cfg) \<and> connections (cnet cfg) e = Some (Num (int j))" if "tracked cfg v j e" for v j e
    using assms(1) that unfolding wired_def by blast
  have inj: "v = v' \<and> j = j'" if "tracked cfg v j e" "tracked cfg v' j' e" for v v' j j' e
    using assms(1) that unfolding wired_def by blast
  have len: "length ns = cn c" if "names_of c v = Some ns" for v ns
    using assms(1,3) that unfolding assms(4,5) wired_def by (cases "v = w") auto
  have e1: "e \<in> ends (cnet c) \<and> connections (cnet c) e = Some (Num (int j))" if "tracked c v j e" for v j e
    using that old [of v j e] assms(2) by (auto simp: tr assms(6,7) fresh_row_def split: if_splits)
  have new: "\<not> tracked cfg v j' (Str (names ! j))" if "j < cn cfg" for v j j'
    using old [of v j' "Str (names ! j)"] assms(2) that by (auto simp: fresh_row_def)
  have e2: "v = v' \<and> j = j'" if "tracked c v j e" "tracked c v' j' e" for v v' j j' e
  proof (cases "v = w \<or> v' = w")
    case True
    then show ?thesis using that new assms(2) by (auto simp: tr fresh_row_def inj_on_def split: if_splits)
  next
    case False
    then show ?thesis using that inj [of v j e v' j'] by (simp add: tr)
  qed
  show ?thesis unfolding wired_def using e1 e2 len assms(4,8-11) by simp
qed

lemma StartServer_keeps:
  assumes "wired cfg" "StartServer cfg i nm = Inr c"
  shows "wired c" "i < cn cfg" "cn c = cn cfg" "endnames c = (endnames cfg)[i := Some (map nm [0..<cn cfg])]"
    "kvservers c ! i \<noteq> None"
proof -
  let ?names = "map nm [0..<cn cfg]"
  let ?ps = "case saved_now cfg i of Some ps \<Rightarrow> Persister_Copy ps | None \<Rightarrow> MakePersister"
  from assms(2) obtain es nt kv where es: "set_index (endnames cfg) (int i) (Some ?names) = Inr es"
    and nt: "make_ends (cnet cfg) ?names = Inr nt"
    and c: "c = cfg\<lparr>endnames := es, saved := (saved cfg)[i := Some ?ps], kvservers := (kvservers cfg)[i := Some kv],
                      cnet := AddServer nt (Num (int i)) (made cfg), made := Suc (made cfg)\<rparr>"
    by (auto simp: StartServer_def Let_def)
  have len: "length (endnames cfg) = cn cfg" "length (saved cfg) = cn cfg" "length (kvservers cfg) = cn cfg"
      "\<forall>k \<ge> nclerks cfg. clerks cfg k = None"
    using assms(1) unfolding wired_def by blast+
  have i: "i < cn cfg" "es = (endnames cfg)[i := Some ?names]" using es len(1) by (auto simp: set_index_eq_Inr_iff)
  have fr: "fresh_row (cnet cfg) nt ?names (cn cfg)" using make_ends_fresh [OF nt] by simp
  show "wired c"
  proof (rule wired_add_row [OF assms(1) fr, where w = "Srv i"])
    show "names_of c = (names_of cfg)(Srv i := Some ?names)"
      using i len(1) by (auto simp: names_of_def c fun_eq_iff nth_list_update split: owner.splits)
  qed (use i len in \<open>simp_all add: c AddServer_def\<close>)
  show "i < cn cfg" "cn c = cn cfg" "endnames c = (endnames cfg)[i := Some ?names]" "kvservers c ! i \<noteq> None"
    using i len by (simp_all add: c)
qed

lemma StartServer_good: "good cfg \<Longrightarrow> StartServer cfg i nm = Inr c \<Longrightarrow> good c"
  using StartServer_keeps [of cfg i nm c] by (auto simp: good_def all_named_def nth_list_update wired_def)

lemma makeClient_good:
  assumes "good cfg" "makeClient cfg nm js to = Inr (c, k, ck)"
  shows "good c"
proof -
  let ?names = "map nm [0..<cn cfg]"
  from assms(2) obtain nt c2 where nt: "make_ends (cnet cfg) ?names = Inr nt"
    and c2: "c2 = cfg\<lparr>cnet := nt, clerks := (clerks cfg)(nclerks cfg \<mapsto> ?names), nclerks := Suc (nclerks cfg), nextClientId := nextClientId cfg + 1\<rparr>"
    and c: "ConnectClientUnlocked c2 (nclerks cfg) to = Inr c"
    by (auto simp: makeClient_def Let_def)
  have w: "wired cfg" and len: "length (endnames cfg) = cn cfg" "length (saved cfg) = cn cfg" "length (kvservers cfg) = cn cfg"
      "\<forall>k \<ge> nclerks cfg. clerks cfg k = None"
    using assms(1) unfolding good_def wired_def by blast+
  have fr: "fresh_row (cnet cfg) nt ?names (cn cfg)" using make_ends_fresh [OF nt] by simp
  have "wired c2"
  proof (rule wired_add_row [OF w fr, where w = "Clk (nclerks cfg)"])
    show "names_of c2 = (names_of cfg)(Clk (nclerks cfg) := Some ?names)"
      by (auto simp: names_of_def c2 fun_eq_iff split: owner.splits)
  qed (use len in \<open>simp_all add: c2\<close>)
  moreover have "all_named c2" using assms(1) by (simp add: good_def all_named_def c2)
  ultimately show ?thesis using good_only_enabled ConnectClientUnlocked_keeps [OF c] by (auto simp: good_def)
qed

section \<open>All executions of a test\<close>

text \<open>
  The operations that a test calls, in any order, and what happens beside them: the Raft nodes run and the network counts.
\<close>

inductive kv_reach :: "'c config \<Rightarrow> bool" where
  KR_make: "make_config n unreliable maxraft nms = Inr cfg \<Longrightarrow> kv_reach cfg"
| KR_connect: "kv_reach cfg \<Longrightarrow> connectUnlocked cfg i to = Inr c \<Longrightarrow> kv_reach c"
| KR_disconnect: "kv_reach cfg \<Longrightarrow> disconnectUnlocked cfg i frm = Inr c \<Longrightarrow> kv_reach c"
| KR_all: "kv_reach cfg \<Longrightarrow> ConnectAll cfg = Inr c \<Longrightarrow> kv_reach c"
| KR_partition: "kv_reach cfg \<Longrightarrow> partition cfg p1 p2 = Inr c \<Longrightarrow> kv_reach c"
| KR_client: "kv_reach cfg \<Longrightarrow> makeClient cfg nm js to = Inr (c, k, ck) \<Longrightarrow> kv_reach c"
| KR_delete: "kv_reach cfg \<Longrightarrow> kv_reach (deleteClient cfg k)"
| KR_connect_client: "kv_reach cfg \<Longrightarrow> ConnectClientUnlocked cfg k to = Inr c \<Longrightarrow> kv_reach c"
| KR_disconnect_client: "kv_reach cfg \<Longrightarrow> DisconnectClientUnlocked cfg k frm = Inr c \<Longrightarrow> kv_reach c"
| KR_shutdown: "kv_reach cfg \<Longrightarrow> ShutdownServer cfg i = Inr c \<Longrightarrow> kv_reach c"
| KR_start: "kv_reach cfg \<Longrightarrow> StartServer cfg i nm = Inr c \<Longrightarrow> kv_reach c"
| KR_node: "kv_reach cfg \<Longrightarrow> kvservers cfg ! i = Some kv \<Longrightarrow> node_step (kv_rf kv) rf \<Longrightarrow>
    kv_reach (cfg\<lparr>kvservers := (kvservers cfg)[i := Some (kv\<lparr>kv_rf := rf\<rparr>)]\<rparr>)"
| KR_request: "kv_reach cfg \<Longrightarrow> kv_reach (cfg\<lparr>cnet := accept_req (cnet cfg) m\<rparr>)"
| KR_reply: "kv_reach cfg \<Longrightarrow> kv_reach (cfg\<lparr>cnet := send_reply (cnet cfg) r\<rparr>)"
| KR_begin: "kv_reach cfg \<Longrightarrow> kv_reach (begin_test cfg)"
| KR_op: "kv_reach cfg \<Longrightarrow> kv_reach (op cfg)"
| KR_cleanup: "kv_reach cfg \<Longrightarrow> cleanup cfg = Inr c \<Longrightarrow> kv_reach c"

lemma good_cong:
  assumes "good cfg" "cn c = cn cfg" "endnames c = endnames cfg" "clerks c = clerks cfg" "nclerks c = nclerks cfg"
    "length (saved c) = length (saved cfg)" "length (kvservers c) = length (kvservers cfg)"
    "ends (cnet c) = ends (cnet cfg)" "connections (cnet c) = connections (cnet cfg)"
  shows "good c"
  using wired_cong [of cfg c] assms by (simp add: good_def all_named_def)

lemma ShutdownServer_good:
  assumes "good cfg" "ShutdownServer cfg i = Inr c"
  shows "good c"
proof -
  from assms(2) obtain c1 sv where c1: "disconnectUnlocked cfg i (AllServers cfg) = Inr c1"
    and c: "c = c1\<lparr>cnet := DeleteServer (cnet c1) (Num (int i)), saved := sv, kvservers := (kvservers c1)[i := None]\<rparr>" "length sv = length (saved c1)"
    by (auto simp: ShutdownServer_def Let_def)
  have "good c1" using assms(1) c1 good_only_enabled disconnectUnlocked_keeps by blast
  then show ?thesis by (rule good_cong) (simp_all add: c DeleteServer_def)
qed

lemma deleteClient_good:
  assumes "good cfg"
  shows "good (deleteClient cfg k)"
proof -
  have w: "wired cfg" and n: "all_named cfg" using assms by (auto simp: good_def)
  have nm: "names_of (deleteClient cfg k) v = (if v = Clk k then None else names_of cfg v)" for v
    by (simp add: names_of_def deleteClient_def split: owner.splits)
  then have tr: "tracked (deleteClient cfg k) v j e \<longleftrightarrow> v \<noteq> Clk k \<and> tracked cfg v j e" for v j e
    by (simp add: tracked_def) (simp add: deleteClient_def)
  have "wired (deleteClient cfg k)"
    using w unfolding wired_def nm tr by (simp add: deleteClient_def) blast
  then show ?thesis using n by (simp add: good_def all_named_def deleteClient_def)
qed

lemma make_config_good:
  assumes "make_config n unreliable maxraft nms = Inr cfg"
  shows "good cfg" "cn cfg = n"
proof -
  define c0 :: "'a config" where "c0 = \<lparr>cnet = MakeNetwork, cn = n, kvservers = replicate n None, saved = replicate n None, endnames = replicate n None,
                clerks = Map.empty, nextClientId = int n + 1000, maxraftstate = maxraft, rpcs0 = 0, ops = 0, made = 0, nclerks = 0\<rparr>"
  have w0: "wired c0" by (auto simp: wired_def c0_def tracked_def names_of_def split: owner.splits)
  have start: "wired c \<and> cn c = n \<and> (\<forall>i < k. endnames c ! i \<noteq> None)"
    if "foldR (\<lambda>c i. StartServer c i (nms i)) c0 [0..<k] = Inr c" for k c
    using that
  proof (induction k arbitrary: c)
    case 0
    then show ?case using w0 by (auto simp: c0_def)
  next
    case (Suc k)
    then obtain c1 where c1: "foldR (\<lambda>c i. StartServer c i (nms i)) c0 [0..<k] = Inr c1" "StartServer c1 k (nms k) = Inr c"
      by (auto simp: foldR_append)
    note IH = Suc.IH [OF c1(1)] and ss = StartServer_keeps [OF _ c1(2)]
    have "length (endnames c1) = n" using IH by (auto simp: wired_def)
    then show ?case using IH ss(1-4) by (auto simp: nth_list_update less_Suc_eq)
  qed
  from assms obtain c1 c2 where c1: "foldR (\<lambda>c i. StartServer c i (nms i)) c0 [0..<n] = Inr c1" and c2: "ConnectAll c1 = Inr c2"
    and cfg: "cfg = c2\<lparr>cnet := Reliable (cnet c2) (\<not> unreliable)\<rparr>"
    unfolding make_config_def Let_def c0_def by auto
  have "good c1" using start [OF c1] by (simp add: good_def all_named_def)
  then have "good c2" using good_only_enabled ConnectAll_keeps [OF c2] by blast
  then show "good cfg" by (rule good_cong) (simp_all add: cfg Reliable_def)
  show "cn cfg = n" using start [OF c1] ConnectAll_keeps [OF c2] by (auto simp: cfg only_enabled_def)
qed

lemma kv_reach_good: "kv_reach cfg \<Longrightarrow> good cfg"
proof (induction rule: kv_reach.induct)
  case (KR_make n unreliable maxraft nms cfg)
  then show ?case by (rule make_config_good)
next
  case (KR_client cfg nm js to c k ck)
  from makeClient_good [OF KR_client(3,2)] show ?case .
next
  case (KR_delete cfg k)
  from deleteClient_good [OF KR_delete(2)] show ?case .
next
  case (KR_shutdown cfg i c)
  from ShutdownServer_good [OF KR_shutdown(3,2)] show ?case .
next
  case (KR_start cfg i nm c)
  from StartServer_good [OF KR_start(3,2)] show ?case .
next
  case (KR_cleanup cfg c)
  from KR_cleanup(3) show ?case
    by (rule good_cong) (use KR_cleanup(2) in \<open>auto simp: cleanup_def Cleanup_def split: if_splits\<close>)
qed (erule good_only_enabled, erule only_enabled_ops |
     (erule good_cong, simp_all add: accept_req_def send_reply_def begin_test_def op_def))+

text \<open>
  C31. In every state of every test with an odd number of servers, at least three, all of them running: \<^verbatim>\<open>make_partition\<close> and
  \<^verbatim>\<open>partition\<close> return; the parts are disjoint, have all servers, and the first is a majority; the server that \<^verbatim>\<open>Leader\<close> found is in
  the minority. Afterwards, whatever was connected before, a server can send to another exactly if both are in the same part, and the
  connections of the clerks are as before.
\<close>

theorem partition_puts_leader_in_minority:
  assumes "kv_reach cfg" "odd (cn cfg)" "cn cfg \<noteq> 1" "\<forall>kv \<in> set (kvservers cfg). kv \<noteq> None"
  shows "\<exists>b l p1 p2 c. cfg_Leader cfg = Inr (b, l) \<and> make_partition cfg = Inr (p1, p2) \<and> partition cfg p1 p2 = Inr c \<and>
    set p1 \<union> set p2 = {..<cn cfg} \<and> set p1 \<inter> set p2 = {} \<and> length p2 < length p1 \<and> l \<in> set p2 \<and>
    (b \<longrightarrow> state (kv_rf (the (kvservers cfg ! l))) = Leader) \<and>
    (\<forall>i j e. i < cn cfg \<and> tracked cfg (Srv i) j e \<longrightarrow> (enabled (cnet c) e \<longleftrightarrow> (i \<in> set p1 \<longleftrightarrow> j \<in> set p1))) \<and>
    (\<forall>k j e. tracked cfg (Clk k) j e \<longrightarrow> enabled (cnet c) e = enabled (cnet cfg) e)"
proof -
  have w: "wired cfg" and n: "all_named cfg" using kv_reach_good [OF assms(1)] by (auto simp: good_def)
  have "length (kvservers cfg) = cn cfg" using w by (simp add: wired_def)
  then obtain b l where l: "cfg_Leader cfg = Inr (b, l)" "l < cn cfg" "b \<longrightarrow> state (kv_rf (the (kvservers cfg ! l))) = Leader"
    using Leader_from_ok [OF assms(4), of 0] assms(2) by (auto simp: cfg_Leader_def elim: oddE)
  obtain p1 p2 where p: "make_partition cfg = Inr (p1, p2)" "length p1 = cn cfg div 2 + 1" "length p2 = cn cfg div 2"
    "p1 @ p2 = filter (\<lambda>i. i \<noteq> l) [0..<cn cfg] @ [l]" using make_partition_ok [OF l(1,2) assms(2,3)] by blast
  note props = part_lists_props [OF p(4,2,3) l(2) assms(2,3)]
  obtain c L where c: "partition cfg p1 p2 = Inr c" "links cfg c L"
      "\<forall>a < cn cfg. \<forall>b < cn cfg. L a b \<longleftrightarrow> (a \<in> set p1 \<longleftrightarrow> b \<in> set p1)"
    using partition_refines [OF w n links_self props(1,2,5,6)] by blast
  from c(2) have en: "\<forall>a < cn cfg. \<forall>b < cn cfg. enabled (cnet c) (server_end cfg a b) = L a b"
    "\<forall>e. (\<forall>a < cn cfg. \<forall>b < cn cfg. e \<noteq> server_end cfg a b) \<longrightarrow> enabled (cnet c) e = enabled (cnet cfg) e"
    by (auto simp: links_def)
  have "enabled (cnet c) e \<longleftrightarrow> (i \<in> set p1 \<longleftrightarrow> j \<in> set p1)" if "i < cn cfg" "tracked cfg (Srv i) j e" for i j e
    using that en(1) c(3) tracked_server [OF n] by simp
  moreover have "enabled (cnet c) e = enabled (cnet cfg) e" if "tracked cfg (Clk k) j e" for k j e
  proof -
    have "e \<noteq> server_end cfg a b" if "a < cn cfg" "b < cn cfg" for a b
      using w \<open>tracked cfg (Clk k) j e\<close> tracked_server [OF n that(1), of b e] that(2) unfolding wired_def by blast
    then show ?thesis using en(2) by blast
  qed
  ultimately show ?thesis using l p(1) props c(1) by (intro exI [of _ b] exI [of _ l] exI [of _ p1] exI [of _ p2] exI [of _ c]) auto
qed

section \<open>A test can be set up\<close>

lemma make_ends_returns:
  assumes "\<forall>j < length names. Str (names ! j) \<notin> ends nt" "distinct names"
  shows "\<exists>nt'. make_ends nt names = Inr nt'"
proof -
  let ?f = "\<lambda>nt j. bindR (MakeEnd nt (Str (names ! j))) (\<lambda>nt1. Inr (Connect nt1 (Str (names ! j)) (Num (int j))))"
  have "\<exists>nt'. foldR ?f nt [0..<k] = Inr nt' \<and> ends nt' = ends nt \<union> (\<lambda>j. Str (names ! j)) ` {..<k}" if "k \<le> length names" for k
    using that
  proof (induction k)
    case (Suc k)
    then obtain nt1 where nt1: "foldR ?f nt [0..<k] = Inr nt1" "ends nt1 = ends nt \<union> (\<lambda>j. Str (names ! j)) ` {..<k}" by auto
    have "names ! k \<noteq> names ! j" if "j < k" for j using assms(2) that Suc.prems by (simp add: nth_eq_iff_index_eq)
    then have "Str (names ! k) \<notin> ends nt1" using assms(1) Suc.prems unfolding nt1(2) by auto
    then show ?case using nt1 by (auto simp: foldR_append MakeEnd_def Connect_def lessThan_Suc)
  qed simp
  from this [OF order_refl] show ?thesis by (auto simp: make_ends_def)
qed

lemma setup_returns:
  assumes "\<And>i j i' j'. i < n \<Longrightarrow> j < n \<Longrightarrow> i' < n \<Longrightarrow> j' < n \<Longrightarrow> nms i j = nms i' j' \<Longrightarrow> i = i' \<and> j = j'"
  shows "\<exists>cfg. make_config n unreliable maxraft nms = Inr cfg \<and> (\<forall>kv \<in> set (kvservers cfg). kv \<noteq> None)"
proof -
  define c0 :: "'a config" where "c0 = \<lparr>cnet = MakeNetwork, cn = n, kvservers = replicate n None, saved = replicate n None, endnames = replicate n None,
                clerks = Map.empty, nextClientId = int n + 1000, maxraftstate = maxraft, rpcs0 = 0, ops = 0, made = 0, nclerks = 0\<rparr>"
  let ?f = "\<lambda>c i. StartServer c i (nms i)"
  have w0: "wired c0" by (auto simp: wired_def c0_def tracked_def names_of_def split: owner.splits)
  have "\<exists>c. foldR ?f c0 [0..<k] = Inr c \<and> wired c \<and> cn c = n \<and> (\<forall>i < k. kvservers c ! i \<noteq> None) \<and> (\<forall>i < k. endnames c ! i \<noteq> None) \<and>
      (\<forall>i. k \<le> i \<longrightarrow> i < n \<longrightarrow> saved c ! i = None) \<and> ends (cnet c) \<subseteq> {Str (nms i j) |i j. i < k \<and> j < n}" if "k \<le> n" for k
    using that
  proof (induction k)
    case 0
    show ?case using w0 by (simp add: c0_def MakeNetwork_def)
  next
    case (Suc k)
    then obtain c where c: "foldR ?f c0 [0..<k] = Inr c" "wired c" "cn c = n" "\<forall>i < k. kvservers c ! i \<noteq> None" "\<forall>i < k. endnames c ! i \<noteq> None"
      "\<forall>i. k \<le> i \<longrightarrow> i < n \<longrightarrow> saved c ! i = None" "ends (cnet c) \<subseteq> {Str (nms i j) |i j. i < k \<and> j < n}" by auto
    let ?names = "map (nms k) [0..<n]"
    have fresh: "\<forall>j < length ?names. Str (?names ! j) \<notin> ends (cnet c)"
    proof (intro allI impI notI)
      fix j assume "j < length ?names" "Str (?names ! j) \<in> ends (cnet c)"
      then obtain i j' where "nms k j = nms i j'" "i < k" "j' < n" "j < n" using c(7) by auto
      then show False using assms [of k j i j'] Suc.prems by simp
    qed
    have "inj_on (nms k) (set [0..<n])" using assms [of k _ k] Suc.prems by (auto simp: inj_on_def)
    then have "distinct ?names" by (simp add: distinct_map)
    from make_ends_returns [OF fresh this] obtain nt where nt: "make_ends (cnet c) ?names = Inr nt" by blast
    have fr: "fresh_row (cnet c) nt ?names n" using make_ends_fresh [OF nt] by simp
    obtain rf where rf: "Make n (int k) MakePersister = Inr (rf :: 'a Raft)" using Make_fresh_returns by blast
    have len: "length (endnames c) = n" "length (saved c) = n" "length (kvservers c) = n" using c(2,3) by (simp_all add: wired_def)
    obtain c1 where c1: "StartServer c k (nms k) = Inr c1" "ends (cnet c1) = ends nt" "kvservers c1 = (kvservers c)[k := kvservers c1 ! k]"
        "saved c1 = (saved c)[k := saved c1 ! k]"
      using nt rf len c(3,6) Suc.prems by (auto simp: StartServer_def StartKVServer_def saved_now_def set_index_def AddServer_def)
    note st = StartServer_keeps [OF c(2) c1(1)]
    have "ends (cnet c1) \<subseteq> {Str (nms i j) |i j. i < Suc k \<and> j < n}"
      using c(7) fr unfolding c1(2) by (fastforce simp: fresh_row_def less_Suc_eq)
    moreover have "\<forall>i < Suc k. kvservers c1 ! i \<noteq> None" using c(4) st(5) c1(3) by (metis less_Suc_eq nth_list_update_neq)
    moreover have "\<forall>i < Suc k. endnames c1 ! i \<noteq> None" using c(5) st(4) len Suc.prems by (auto simp: less_Suc_eq nth_list_update)
    moreover have "\<forall>i. Suc k \<le> i \<longrightarrow> i < n \<longrightarrow> saved c1 ! i = None" using c(6) c1(4) by (metis Suc_leD Suc_n_not_le_n nth_list_update_neq)
    ultimately show ?case using c(1,3) c1(1) st(1,3) by (auto simp: foldR_append)
  qed
  then obtain c where c: "foldR ?f c0 [0..<n] = Inr c" "wired c" "cn c = n" "\<forall>i < n. kvservers c ! i \<noteq> None" "\<forall>i < n. endnames c ! i \<noteq> None"
    by blast
  have n: "all_named c" using c(3,5) by (simp add: all_named_def)
  have "\<exists>c'. ConnectAll c = Inr c' \<and> links c c' (fold (\<lambda>i L. link_conn i [0..<n] L) [0..<n] (\<lambda>a b. enabled (cnet c) (server_end c a b)))"
    unfolding ConnectAll_def c(3)
  proof (rule foldR_refines [where R = "links c", OF _ links_self])
    fix d i L assume "i \<in> set [0..<n]" "links c d L"
    then show "\<exists>c'. connectUnlocked d i (AllServers d) = Inr c' \<and> links c c' (link_conn i [0..<n] L)"
      using connect_refines [OF c(2) n, of d L i "[0..<n]"] links_keeps [of c d L] c(3) by (auto simp: AllServers_def atLeast0LessThan)
  qed
  then obtain c2 where c2: "ConnectAll c = Inr c2" by blast
  have "kvservers c2 = kvservers c" using ConnectAll_keeps [OF c2] by (auto simp: only_enabled_def)
  moreover have "length (kvservers c) = n" using c(2,3) by (simp add: wired_def)
  ultimately have "\<forall>kv \<in> set (kvservers c2). kv \<noteq> None" using c(4) by (auto simp: in_set_conv_nth)
  then show ?thesis using c(1) c2 by (simp add: make_config_def c0_def [symmetric])
qed

lemma names_by_length:
  assumes "i < 3" "j < 3" "i' < 3" "j' < (3 :: nat)" "replicate (3 * i + j) CHR ''x'' = replicate (3 * i' + j') CHR ''x''"
  shows "i = i' \<and> j = j'"
proof -
  have "3 * i + j = 3 * i' + j'" using arg_cong [OF assms(5), of length] by simp
  then show ?thesis using assms(1-4) by presburger
qed

theorem partition_puts_leader_in_minority_witness:
  "\<exists>(cfg :: nat config) p1 p2 c. make_config 3 False (-1) (\<lambda>i j. replicate (3 * i + j) CHR ''x'') = Inr cfg \<and>
     make_partition cfg = Inr (p1, p2) \<and> partition cfg p1 p2 = Inr c \<and> length p2 < length p1"
proof -
  obtain cfg :: "nat config" where cfg: "make_config 3 False (-1) (\<lambda>i j. replicate (3 * i + j) CHR ''x'') = Inr cfg"
      "\<forall>kv \<in> set (kvservers cfg). kv \<noteq> None" using setup_returns [of 3 "\<lambda>i j. replicate (3 * i + j) CHR ''x''" False "-1"] names_by_length by blast
  have "cn cfg = 3" by (rule make_config_good(2) [OF cfg(1)])
  then show ?thesis using partition_puts_leader_in_minority [OF KR_make [OF cfg(1)] _ _ cfg(2)] cfg(1) by auto
qed

text \<open>
  With an even number of servers the parts are not a partition: the last but one place of the second part is never written, so that
  server 0 is in both parts.
\<close>

lemma make_partition_even_overlaps:
  assumes "cfg_Leader cfg = Inr (b, 2)" "cn cfg = 4"
  shows "make_partition cfg = Inr ([0, 1, 3], [0, 2])"
proof -
  have "foldR (part_step 2) (0, replicate (4 div 2 + 1) 0, replicate (4 div 2) 0) [0..<4] = Inr (3, [0, 1, 3], [0, 0])"
    by code_simp
  then show ?thesis by (simp add: make_partition_def assms set_index_def)
qed

end
