(* ===== verification/Ctl_Harness.thy ===== *)
theory Ctl_Harness
  imports Shard_Ctrler KV_Harness
begin

text \<open>
  The test harness of the shard controller, src/shardctrler/config.go. It is the harness of the key/value service with other servers: a
  function \<open>as_kv\<close> maps its states to those of src/kvraft/config.go, and each operation is simulated by the operation of the same
  name there. What was proved of partitions is then true here as well.
\<close>

section \<open>The state\<close>

record 'c config =
  ct_net :: Network
  ct_n :: nat
  ct_servers :: "'c ShardCtrler option list"
  ct_saved :: "'c Persister option list"
  ct_endnames :: "string list option list"
  ct_clerks :: "nat \<rightharpoonup> string list"
  ct_nextClientId :: int
  ct_made :: nat
  ct_nclerks :: nat

section \<open>Connections\<close>

definition set_end :: "bool \<Rightarrow> 'c config \<Rightarrow> nat \<Rightarrow> nat \<Rightarrow> 'c config res" where
  "set_end x cfg a b =
     bindR (index (ct_endnames cfg) (int a)) (\<lambda>ns.
     bindR (index (slice_elems ns) (int b)) (\<lambda>e.
       Inr (cfg\<lparr>ct_net := Enable (ct_net cfg) (Str e) x\<rparr>)))"

definition connectUnlocked :: "'c config \<Rightarrow> nat \<Rightarrow> nat list \<Rightarrow> 'c config res" where
  "connectUnlocked cfg i to =
     bindR (foldR (\<lambda>c k. set_end True c i k) cfg to) (\<lambda>c1.
       foldR (\<lambda>c k. set_end True c k i) c1 to)"

definition disconnectUnlocked :: "'c config \<Rightarrow> nat \<Rightarrow> nat list \<Rightarrow> 'c config res" where
  "disconnectUnlocked cfg i frm =
     bindR (foldR (\<lambda>c k. bindR (index (ct_endnames c) (int i)) (\<lambda>ns. if ns \<noteq> None then set_end False c i k else Inr c)) cfg frm) (\<lambda>c1.
       foldR (\<lambda>c j. bindR (index (ct_endnames c) (int j)) (\<lambda>ns. if ns \<noteq> None then set_end False c (frm ! j) i else Inr c))
         c1 [0..<length frm])"

definition AllServers :: "'c config \<Rightarrow> nat list" where
  "AllServers cfg = [0..<ct_n cfg]"

definition ConnectAll :: "'c config \<Rightarrow> 'c config res" where
  "ConnectAll cfg = foldR (\<lambda>c i. connectUnlocked c i (AllServers c)) cfg [0..<ct_n cfg]"

definition partition :: "'c config \<Rightarrow> nat list \<Rightarrow> nat list \<Rightarrow> 'c config res" where
  "partition cfg p1 p2 =
     bindR (foldR (\<lambda>c i. bindR (disconnectUnlocked c i p2) (\<lambda>c1. connectUnlocked c1 i p1)) cfg p1) (\<lambda>c2.
       foldR (\<lambda>c i. bindR (disconnectUnlocked c i p1) (\<lambda>c1. connectUnlocked c1 i p2)) c2 p2)"

section \<open>Clerks\<close>

definition ConnectClientUnlocked :: "'c config \<Rightarrow> nat \<Rightarrow> nat list \<Rightarrow> 'c config res" where
  "ConnectClientUnlocked cfg ck to =
     foldR (\<lambda>c k. bindR (index (slice_elems (ct_clerks cfg ck)) (int k)) (\<lambda>s. Inr (c\<lparr>ct_net := Enable (ct_net c) (Str s) True\<rparr>))) cfg to"

definition DisconnectClientUnlocked :: "'c config \<Rightarrow> nat \<Rightarrow> nat list \<Rightarrow> 'c config res" where
  "DisconnectClientUnlocked cfg ck frm =
     foldR (\<lambda>c k. bindR (index (slice_elems (ct_clerks cfg ck)) (int k)) (\<lambda>s. Inr (c\<lparr>ct_net := Enable (ct_net c) (Str s) False\<rparr>))) cfg frm"

definition makeClient :: "'c config \<Rightarrow> (nat \<Rightarrow> string) \<Rightarrow> nat list \<Rightarrow> nat list \<Rightarrow> ('c config \<times> nat \<times> CtlClerk) res" where
  "makeClient cfg nm js to =
     (let names = map nm [0..<ct_n cfg] in
      bindR (make_ends (ct_net cfg) names) (\<lambda>nt.
        let ck = \<lparr>ctl_servers = random_handles js names\<rparr>;
            c1 = cfg\<lparr>ct_net := nt, ct_clerks := (ct_clerks cfg)(ct_nclerks cfg \<mapsto> names), ct_nclerks := Suc (ct_nclerks cfg),
                     ct_nextClientId := ct_nextClientId cfg + 1\<rparr>
        in bindR (ConnectClientUnlocked c1 (ct_nclerks cfg) to) (\<lambda>c2. Inr (c2, ct_nclerks cfg, ck))))"

definition deleteClient :: "'c config \<Rightarrow> nat \<Rightarrow> 'c config" where
  "deleteClient cfg ck = cfg\<lparr>ct_clerks := (ct_clerks cfg)(ck := None)\<rparr>"

section \<open>Stopping and starting servers\<close>

definition saved_now :: "'c config \<Rightarrow> nat \<Rightarrow> 'c Persister option" where
  "saved_now cfg i =
     (case ct_saved cfg ! i of
        None \<Rightarrow> None
      | Some ps \<Rightarrow> (case ct_servers cfg ! i of None \<Rightarrow> Some ps | Some sc \<Rightarrow> Some (persister (sc_rf sc))))"

definition ShutdownServer :: "'c config \<Rightarrow> nat \<Rightarrow> 'c config res" where
  "ShutdownServer cfg i =
     bindR (disconnectUnlocked cfg i (AllServers cfg)) (\<lambda>c1.
       let c2 = c1\<lparr>ct_net := DeleteServer (ct_net c1) (Num (int i))\<rparr>
       in bindR (index (ct_saved c2) (int i)) (\<lambda>_.
            Inr (c2\<lparr>ct_saved := (ct_saved c2)[i := map_option Persister_Copy (saved_now c2 i)],
                    ct_servers := (ct_servers c2)[i := None]\<rparr>)))"

definition StartServer :: "'c config \<Rightarrow> nat \<Rightarrow> (nat \<Rightarrow> string) \<Rightarrow> 'c config res" where
  "StartServer cfg i nm =
     (let names = map nm [0..<ct_n cfg] in
      bindR (set_index (ct_endnames cfg) (int i) (Some names)) (\<lambda>es.
      bindR (make_ends (ct_net cfg) names) (\<lambda>nt.
        let ps = (case saved_now cfg i of Some ps \<Rightarrow> Persister_Copy ps | None \<Rightarrow> MakePersister)
        in bindR (ctrler_StartServer (ct_n cfg) (int i) ps) (\<lambda>sc.
             Inr (cfg\<lparr>ct_endnames := es, ct_saved := (ct_saved cfg)[i := Some ps], ct_servers := (ct_servers cfg)[i := Some sc],
                      ct_net := AddServer nt (Num (int i)) (ct_made cfg), ct_made := Suc (ct_made cfg)\<rparr>)))))"

section \<open>Leader and partition\<close>

text \<open>Unlike in the harness of the key/value service, servers that are not running are skipped.\<close>

fun Leader_from :: "'c ShardCtrler option list \<Rightarrow> nat \<Rightarrow> bool \<times> nat" where
  "Leader_from [] i = (False, 0)"
| "Leader_from (None # scs) i = Leader_from scs (i + 1)"
| "Leader_from (Some sc # scs) i = (if snd (GetState (sc_rf sc)) then (True, i) else Leader_from scs (i + 1))"

definition cfg_Leader :: "'c config \<Rightarrow> bool \<times> nat" where
  "cfg_Leader cfg = Leader_from (ct_servers cfg) 0"

definition make_partition :: "'c config \<Rightarrow> (nat list \<times> nat list) res" where
  "make_partition cfg =
     (let l = snd (cfg_Leader cfg) in
      bindR (foldR (part_step l) (0, replicate (ct_n cfg div 2 + 1) 0, replicate (ct_n cfg div 2) 0) [0..<ct_n cfg]) (\<lambda>(j, p1, p2).
      bindR (set_index p2 (int (length p2) - 1) l) (\<lambda>p2'.
        Inr (p1, p2'))))"

definition make_config :: "nat \<Rightarrow> bool \<Rightarrow> (nat \<Rightarrow> nat \<Rightarrow> string) \<Rightarrow> 'c config res" where
  "make_config n unreliable nms =
     (let c0 = \<lparr>ct_net = MakeNetwork, ct_n = n, ct_servers = replicate n None, ct_saved = replicate n None, ct_endnames = replicate n None,
                ct_clerks = Map.empty, ct_nextClientId = int n + 1000, ct_made = 0, ct_nclerks = 0\<rparr>
      in bindR (foldR (\<lambda>c i. StartServer c i (nms i)) c0 [0..<n]) (\<lambda>c1.
         bindR (ConnectAll c1) (\<lambda>c2.
           Inr (c2\<lparr>ct_net := Reliable (ct_net c2) (\<not> unreliable)\<rparr>))))"

definition cleanup :: "'c config \<Rightarrow> 'c config res" where
  "cleanup cfg =
     bindR (Cleanup (ct_net cfg)) (\<lambda>nt.
       Inr (cfg\<lparr>ct_servers := map (map_option ShardCtrler_Kill) (ct_servers cfg), ct_net := nt\<rparr>))"

section \<open>Simulation by the harness of the key/value service\<close>

definition as_kv_server :: "'c ShardCtrler \<Rightarrow> 'c KVServer" where
  "as_kv_server sc = \<lparr>kv_me = sc_me sc, kv_rf = sc_rf sc, kv_dead = False, kv_maxraftstate = 0\<rparr>"

definition as_kv :: "'c config \<Rightarrow> 'c KV_Harness.config" where
  "as_kv cfg = \<lparr>cnet = ct_net cfg, cn = ct_n cfg, kvservers = map (map_option as_kv_server) (ct_servers cfg), saved = ct_saved cfg,
     endnames = ct_endnames cfg, clerks = ct_clerks cfg, nextClientId = ct_nextClientId cfg, maxraftstate = 0, rpcs0 = 0, ops = 0,
     made = ct_made cfg, nclerks = ct_nclerks cfg\<rparr>"

text \<open>\<open>sim m m'\<close>: a computation here and one there return related states or the same panic.\<close>

definition sim :: "'c config res \<Rightarrow> 'c KV_Harness.config res \<Rightarrow> bool" where
  "sim m m' \<longleftrightarrow> m' = map_sum id as_kv m"

lemma sim_Inr [simp]: "sim (Inr c) (Inr d) \<longleftrightarrow> d = as_kv c"
  by (simp add: sim_def)

lemma sim_Inl [simp]: "sim (Inl p) (Inl p)"
  by (simp add: sim_def)

lemma sim_bind: "sim m m' \<Longrightarrow> (\<And>c. m = Inr c \<Longrightarrow> sim (f c) (f' (as_kv c))) \<Longrightarrow> sim (bindR m f) (bindR m' f')"
  by (cases m) (auto simp: sim_def)

lemma sim_bind_val: "(\<And>x. m = Inr x \<Longrightarrow> sim (f x) (f' x)) \<Longrightarrow> sim (bindR m f) (bindR m f')"
  by (cases m) auto

lemma sim_foldR:
  assumes "\<And>c x. sim (f c x) (f' (as_kv c) x)"
  shows "sim (foldR f c xs) (foldR f' (as_kv c) xs)"
proof (induction xs arbitrary: c)
  case (Cons x xs)
  then show ?case by (auto intro: sim_bind assms)
qed simp

lemma as_kv_fields [simp]:
  "cnet (as_kv cfg) = ct_net cfg" "cn (as_kv cfg) = ct_n cfg" "endnames (as_kv cfg) = ct_endnames cfg" "saved (as_kv cfg) = ct_saved cfg"
  "clerks (as_kv cfg) = ct_clerks cfg" "nclerks (as_kv cfg) = ct_nclerks cfg"
  "kvservers (as_kv cfg) = map (map_option as_kv_server) (ct_servers cfg)"
  by (simp_all add: as_kv_def)

lemma as_kv_net: "(as_kv cfg)\<lparr>cnet := nt\<rparr> = as_kv (cfg\<lparr>ct_net := nt\<rparr>)"
  by (simp add: as_kv_def)

lemma set_end_sim: "sim (set_end x cfg a b) (KV_Harness.set_end x (as_kv cfg) a b)"
  unfolding set_end_def KV_Harness.set_end_def by (auto intro!: sim_bind_val simp: as_kv_net)

lemma guarded_sim: "sim (bindR (index (ct_endnames c) j) (\<lambda>ns. if ns \<noteq> None then set_end x c a b else Inr c))
    (bindR (index (endnames (as_kv c)) j) (\<lambda>ns. if ns \<noteq> None then KV_Harness.set_end x (as_kv c) a b else Inr (as_kv c)))"
  unfolding as_kv_fields by (rule sim_bind_val) (simp add: set_end_sim)

lemma connectUnlocked_sim: "sim (connectUnlocked cfg i to) (KV_Harness.connectUnlocked (as_kv cfg) i to)"
  unfolding connectUnlocked_def KV_Harness.connectUnlocked_def by (intro sim_bind sim_foldR set_end_sim)

lemma disconnectUnlocked_sim: "sim (disconnectUnlocked cfg i frm) (KV_Harness.disconnectUnlocked (as_kv cfg) i frm)"
  unfolding disconnectUnlocked_def KV_Harness.disconnectUnlocked_def by (intro sim_bind sim_foldR guarded_sim)

lemma ConnectAll_sim: "sim (ConnectAll cfg) (KV_Harness.ConnectAll (as_kv cfg))"
  unfolding ConnectAll_def KV_Harness.ConnectAll_def as_kv_fields
  by (rule sim_foldR) (simp add: AllServers_def KV_Harness.AllServers_def connectUnlocked_sim)

lemma partition_sim: "sim (partition cfg p1 p2) (KV_Harness.partition (as_kv cfg) p1 p2)"
  unfolding partition_def KV_Harness.partition_def
  by (intro sim_bind sim_foldR connectUnlocked_sim disconnectUnlocked_sim)

lemma ConnectClientUnlocked_sim: "sim (ConnectClientUnlocked cfg k to) (KV_Harness.ConnectClientUnlocked (as_kv cfg) k to)"
  unfolding ConnectClientUnlocked_def KV_Harness.ConnectClientUnlocked_def as_kv_fields
  by (intro sim_foldR sim_bind_val) (simp add: as_kv_net)

lemma DisconnectClientUnlocked_sim: "sim (DisconnectClientUnlocked cfg k frm) (KV_Harness.DisconnectClientUnlocked (as_kv cfg) k frm)"
  unfolding DisconnectClientUnlocked_def KV_Harness.DisconnectClientUnlocked_def as_kv_fields
  by (intro sim_foldR sim_bind_val) (simp add: as_kv_net)

lemma saved_now_any_net [simp]:
  "saved_now (cfg\<lparr>ct_net := nt\<rparr>) i = saved_now cfg i"
  "KV_Harness.saved_now (d\<lparr>cnet := nt\<rparr>) i = KV_Harness.saved_now d i"
  by (simp_all add: saved_now_def KV_Harness.saved_now_def split: option.split)

lemma saved_now_sim: "i < length (ct_servers cfg) \<Longrightarrow> KV_Harness.saved_now (as_kv cfg) i = saved_now cfg i"
  by (auto simp: saved_now_def KV_Harness.saved_now_def as_kv_server_def split: option.splits)

definition sized :: "'c config \<Rightarrow> bool" where
  "sized cfg \<longleftrightarrow> length (ct_servers cfg) = ct_n cfg \<and> length (ct_saved cfg) = ct_n cfg \<and> length (ct_endnames cfg) = ct_n cfg"

lemma sim_InrD: "sim m m' \<Longrightarrow> m = Inr c \<Longrightarrow> m' = Inr (as_kv c)"
  by (simp add: sim_def)

lemma wired_sized: "wired (as_kv cfg) \<Longrightarrow> sized cfg"
  by (simp add: wired_def sized_def)

lemma ShutdownServer_sim:
  assumes "ShutdownServer cfg i = Inr c" "good (as_kv cfg)"
  shows "KV_Harness.ShutdownServer (as_kv cfg) i = Inr (as_kv c)"
proof -
  from assms(1) obtain c1 x where c1: "disconnectUnlocked cfg i (AllServers cfg) = Inr c1" "index (ct_saved c1) (int i) = Inr x"
    and c: "c = c1\<lparr>ct_net := DeleteServer (ct_net c1) (iname.Num (int i)), ct_saved := (ct_saved c1)[i := map_option Persister_Copy (saved_now c1 i)],
                    ct_servers := (ct_servers c1)[i := None]\<rparr>"
    by (auto simp: ShutdownServer_def Let_def)
  have d: "KV_Harness.disconnectUnlocked (as_kv cfg) i (KV_Harness.AllServers (as_kv cfg)) = Inr (as_kv c1)"
    using sim_InrD [OF disconnectUnlocked_sim c1(1)] by (simp add: AllServers_def KV_Harness.AllServers_def)
  have "sized c1" using good_only_enabled [OF assms(2) KV_Harness.disconnectUnlocked_keeps [OF d]] by (simp add: good_def wired_sized)
  then have "i < length (ct_servers c1)" using c1(2) by (auto simp: index_def sized_def split: if_splits)
  then have "KV_Harness.saved_now (as_kv c1) i = saved_now c1 i" by (rule saved_now_sim)
  then show ?thesis using d c1(2) by (simp add: KV_Harness.ShutdownServer_def Let_def) (simp add: c as_kv_def map_update)
qed

lemma StartServer_sim:
  assumes "sized cfg"
  shows "sim (StartServer cfg i nm) (KV_Harness.StartServer (as_kv cfg) i nm)"
  unfolding StartServer_def KV_Harness.StartServer_def Let_def as_kv_fields
proof (rule sim_bind_val, rule sim_bind_val)
  let ?names = "map nm [0..<ct_n cfg]" and ?ps = "case saved_now cfg i of Some ps \<Rightarrow> Persister_Copy ps | None \<Rightarrow> MakePersister"
  fix es nt assume es: "set_index (ct_endnames cfg) (int i) (Some ?names) = Inr es"
  have "i < length (ct_servers cfg)" using es assms by (auto simp: set_index_eq_Inr_iff sized_def)
  then have sv: "KV_Harness.saved_now (as_kv cfg) i = saved_now cfg i" by (rule saved_now_sim)
  show "sim (bindR (ctrler_StartServer (ct_n cfg) (int i) ?ps) (\<lambda>sc.
        Inr (cfg\<lparr>ct_endnames := es, ct_saved := (ct_saved cfg)[i := Some ?ps], ct_servers := (ct_servers cfg)[i := Some sc],
                 ct_net := AddServer nt (iname.Num (int i)) (ct_made cfg), ct_made := Suc (ct_made cfg)\<rparr>)))
      (bindR (StartKVServer (ct_n cfg) (int i) (case KV_Harness.saved_now (as_kv cfg) i of Some ps \<Rightarrow> Persister_Copy ps | None \<Rightarrow> MakePersister)
          (maxraftstate (as_kv cfg))) (\<lambda>kv.
        Inr ((as_kv cfg)\<lparr>endnames := es, saved := (ct_saved cfg)[i := Some (case KV_Harness.saved_now (as_kv cfg) i of
                 Some ps \<Rightarrow> Persister_Copy ps | None \<Rightarrow> MakePersister)],
               kvservers := (map (map_option as_kv_server) (ct_servers cfg))[i := Some kv],
               cnet := AddServer nt (iname.Num (int i)) (made (as_kv cfg)), made := Suc (made (as_kv cfg))\<rparr>)))"
    unfolding sv by (cases "Make (ct_n cfg) (int i) ?ps")
      (simp_all add: ctrler_StartServer_def StartKVServer_def, simp add: as_kv_def as_kv_server_def map_update)
qed

lemma makeClient_sim:
  assumes "makeClient cfg nm js to = Inr (c, k, ck)"
  shows "\<exists>kck. KV_Harness.makeClient (as_kv cfg) nm js to = Inr (as_kv c, k, kck)"
proof -
  let ?names = "map nm [0..<ct_n cfg]"
  let ?c1 = "\<lambda>nt. cfg\<lparr>ct_net := nt, ct_clerks := (ct_clerks cfg)(ct_nclerks cfg \<mapsto> ?names), ct_nclerks := Suc (ct_nclerks cfg),
                     ct_nextClientId := ct_nextClientId cfg + 1\<rparr>"
  from assms obtain nt where nt: "make_ends (ct_net cfg) ?names = Inr nt" "ConnectClientUnlocked (?c1 nt) (ct_nclerks cfg) to = Inr c" "k = ct_nclerks cfg"
    by (auto simp: makeClient_def Let_def)
  have "(as_kv cfg)\<lparr>cnet := nt, clerks := (clerks (as_kv cfg))(nclerks (as_kv cfg) \<mapsto> ?names), nclerks := Suc (nclerks (as_kv cfg)),
      nextClientId := nextClientId (as_kv cfg) + 1\<rparr> = as_kv (?c1 nt)" by (simp add: as_kv_def)
  then show ?thesis using nt(1,3) sim_InrD [OF ConnectClientUnlocked_sim nt(2)] by (simp add: KV_Harness.makeClient_def)
qed

lemma start_all_sim:
  assumes "wired (as_kv cfg)"
  shows "sim (foldR (\<lambda>c i. StartServer c i (nms i)) cfg xs) (foldR (\<lambda>c i. KV_Harness.StartServer c i (nms i)) (as_kv cfg) xs)"
  using assms
proof (induction xs arbitrary: cfg)
  case (Cons x xs)
  note s = StartServer_sim [OF wired_sized [OF Cons.prems], of x "nms x"]
  have "wired (as_kv c)" if "StartServer cfg x (nms x) = Inr c" for c
    by (rule KV_Harness.StartServer_keeps(1) [OF Cons.prems sim_InrD [OF s that]])
  then show ?case using s Cons.IH by (auto intro: sim_bind)
qed simp

lemma make_config_sim: "sim (make_config n unreliable nms) (KV_Harness.make_config n unreliable 0 nms)"
proof -
  define c0 :: "'a config" where "c0 = \<lparr>ct_net = MakeNetwork, ct_n = n, ct_servers = replicate n None, ct_saved = replicate n None, ct_endnames = replicate n None,
                ct_clerks = Map.empty, ct_nextClientId = int n + 1000, ct_made = 0, ct_nclerks = 0\<rparr>"
  have k0: "\<lparr>cnet = MakeNetwork, cn = n, kvservers = replicate n None, saved = replicate n None, endnames = replicate n None,
                clerks = Map.empty, nextClientId = int n + 1000, maxraftstate = 0, rpcs0 = 0, ops = 0, made = 0, nclerks = 0\<rparr> = as_kv c0"
    by (simp add: as_kv_def c0_def)
  have "wired (as_kv c0)" by (auto simp: wired_def c0_def tracked_def names_of_def split: owner.splits)
  from start_all_sim [OF this] show ?thesis
    unfolding make_config_def KV_Harness.make_config_def Let_def k0 c0_def [symmetric]
    by (intro sim_bind ConnectAll_sim) (simp_all add: as_kv_net)
qed

inductive ctl_reach :: "'c config \<Rightarrow> bool" where
  CR_make: "make_config n unreliable nms = Inr cfg \<Longrightarrow> ctl_reach cfg"
| CR_connect: "ctl_reach cfg \<Longrightarrow> connectUnlocked cfg i to = Inr c \<Longrightarrow> ctl_reach c"
| CR_disconnect: "ctl_reach cfg \<Longrightarrow> disconnectUnlocked cfg i frm = Inr c \<Longrightarrow> ctl_reach c"
| CR_all: "ctl_reach cfg \<Longrightarrow> ConnectAll cfg = Inr c \<Longrightarrow> ctl_reach c"
| CR_partition: "ctl_reach cfg \<Longrightarrow> partition cfg p1 p2 = Inr c \<Longrightarrow> ctl_reach c"
| CR_client: "ctl_reach cfg \<Longrightarrow> makeClient cfg nm js to = Inr (c, k, ck) \<Longrightarrow> ctl_reach c"
| CR_delete: "ctl_reach cfg \<Longrightarrow> ctl_reach (deleteClient cfg k)"
| CR_connect_client: "ctl_reach cfg \<Longrightarrow> ConnectClientUnlocked cfg k to = Inr c \<Longrightarrow> ctl_reach c"
| CR_disconnect_client: "ctl_reach cfg \<Longrightarrow> DisconnectClientUnlocked cfg k frm = Inr c \<Longrightarrow> ctl_reach c"
| CR_shutdown: "ctl_reach cfg \<Longrightarrow> ShutdownServer cfg i = Inr c \<Longrightarrow> ctl_reach c"
| CR_start: "ctl_reach cfg \<Longrightarrow> StartServer cfg i nm = Inr c \<Longrightarrow> ctl_reach c"
| CR_node: "ctl_reach cfg \<Longrightarrow> i < ct_n cfg \<Longrightarrow> ct_servers cfg ! i = Some sc \<Longrightarrow> node_step (sc_rf sc) rf \<Longrightarrow>
    ctl_reach (cfg\<lparr>ct_servers := (ct_servers cfg)[i := Some (sc\<lparr>sc_rf := rf\<rparr>)]\<rparr>)"
| CR_request: "ctl_reach cfg \<Longrightarrow> ctl_reach (cfg\<lparr>ct_net := accept_req (ct_net cfg) m\<rparr>)"
| CR_reply: "ctl_reach cfg \<Longrightarrow> ctl_reach (cfg\<lparr>ct_net := send_reply (ct_net cfg) r\<rparr>)"

text \<open>Every execution here is an execution of the other harness.\<close>

lemma ctl_reach_sim: "ctl_reach cfg \<Longrightarrow> kv_reach (as_kv cfg)"
proof (induction rule: ctl_reach.induct)
  case (CR_make n unreliable nms cfg)
  from KR_make [OF sim_InrD [OF make_config_sim CR_make]] show ?case .
next
  case (CR_connect cfg i to c)
  from KR_connect [OF CR_connect(3) sim_InrD [OF connectUnlocked_sim CR_connect(2)]] show ?case .
next
  case (CR_disconnect cfg i frm c)
  from KR_disconnect [OF CR_disconnect(3) sim_InrD [OF disconnectUnlocked_sim CR_disconnect(2)]] show ?case .
next
  case (CR_all cfg c)
  from KR_all [OF CR_all(3) sim_InrD [OF ConnectAll_sim CR_all(2)]] show ?case .
next
  case (CR_partition cfg p1 p2 c)
  from KR_partition [OF CR_partition(3) sim_InrD [OF partition_sim CR_partition(2)]] show ?case .
next
  case (CR_client cfg nm js to c k ck)
  from makeClient_sim [OF CR_client(2)] obtain kck where "KV_Harness.makeClient (as_kv cfg) nm js to = Inr (as_kv c, k, kck)" ..
  from KR_client [OF CR_client(3) this] show ?case .
next
  case (CR_delete cfg k)
  have "KV_Harness.deleteClient (as_kv cfg) k = as_kv (deleteClient cfg k)" by (simp add: KV_Harness.deleteClient_def deleteClient_def as_kv_def)
  with KR_delete [OF CR_delete(2), of k] show ?case by simp
next
  case (CR_connect_client cfg k to c)
  from KR_connect_client [OF CR_connect_client(3) sim_InrD [OF ConnectClientUnlocked_sim CR_connect_client(2)]] show ?case .
next
  case (CR_disconnect_client cfg k frm c)
  from KR_disconnect_client [OF CR_disconnect_client(3) sim_InrD [OF DisconnectClientUnlocked_sim CR_disconnect_client(2)]] show ?case .
next
  case (CR_shutdown cfg i c)
  from KR_shutdown [OF CR_shutdown(3) ShutdownServer_sim [OF CR_shutdown(2) kv_reach_good [OF CR_shutdown(3)]]] show ?case .
next
  case (CR_start cfg i nm c)
  have "sized cfg" using kv_reach_good [OF CR_start(3)] by (simp add: good_def wired_sized)
  from KR_start [OF CR_start(3) sim_InrD [OF StartServer_sim [OF this] CR_start(2)]] show ?case .
next
  case (CR_node cfg i sc rf)
  have "sized cfg" using kv_reach_good [OF CR_node(5)] by (simp add: good_def wired_sized)
  then have "kvservers (as_kv cfg) ! i = Some (as_kv_server sc)" using CR_node(2,3) by (simp add: sized_def)
  moreover have "node_step (kv_rf (as_kv_server sc)) rf" using CR_node(4) by (simp add: as_kv_server_def)
  ultimately have "kv_reach ((as_kv cfg)\<lparr>kvservers := (kvservers (as_kv cfg))[i := Some ((as_kv_server sc)\<lparr>kv_rf := rf\<rparr>)]\<rparr>)"
    by (rule KR_node [OF CR_node(5)])
  then show ?case by (simp add: as_kv_def as_kv_server_def map_update)
next
  case (CR_request cfg m)
  from KR_request [OF CR_request(2), of m] show ?case by (simp add: as_kv_net)
next
  case (CR_reply cfg r)
  from KR_reply [OF CR_reply(2), of r] show ?case by (simp add: as_kv_net)
qed

lemma Leader_from_bound: "Leader_from scs i = (b, l) \<Longrightarrow> l = 0 \<or> l < i + length scs"
  by (induction scs i arbitrary: b l rule: Leader_from.induct) (fastforce split: if_splits)+

text \<open>
  The harness of the controller is simulated by that of the key/value service, so that in every state of every test with an odd number
  of servers, at least three, running or not, \<^verbatim>\<open>make_partition\<close> and \<^verbatim>\<open>partition\<close> return, the server that \<^verbatim>\<open>Leader\<close> found is in the smaller
  part, and afterwards a server can send to another exactly if both are in the same part.
\<close>

lemma ctl_partition:
  assumes "ctl_reach cfg" "odd (ct_n cfg)" "ct_n cfg \<noteq> 1"
  shows "\<exists>p1 p2 c. make_partition cfg = Inr (p1, p2) \<and> partition cfg p1 p2 = Inr c \<and> set p1 \<union> set p2 = {..<ct_n cfg} \<and>
    set p1 \<inter> set p2 = {} \<and> length p2 < length p1 \<and> snd (cfg_Leader cfg) \<in> set p2 \<and>
    (\<forall>i ns j. ct_endnames cfg ! i = Some ns \<and> i < ct_n cfg \<and> j < ct_n cfg \<longrightarrow>
       (enabled (ct_net c) (Str (ns ! j)) \<longleftrightarrow> (i \<in> set p1 \<longleftrightarrow> j \<in> set p1)))"
proof -
  let ?n = "ct_n cfg"
  have w: "wired (as_kv cfg)" and n: "all_named (as_kv cfg)" using kv_reach_good [OF ctl_reach_sim [OF assms(1)]] by (auto simp: good_def)
  obtain b l where l: "cfg_Leader cfg = (b, l)" by fastforce
  have "l < ?n" using Leader_from_bound [of "ct_servers cfg" 0 b l] l wired_sized [OF w] assms(2)
    by (auto simp: cfg_Leader_def sized_def elim: oddE)
  from part_lists_ok [OF this assms(2,3)] obtain p1 p2 where p: "make_partition cfg = Inr (p1, p2)"
    "length p1 = ?n div 2 + 1" "length p2 = ?n div 2" "p1 @ p2 = filter (\<lambda>i. i \<noteq> l) [0..<?n] @ [l]"
    by (auto simp: make_partition_def l)
  note props = part_lists_props [OF p(4,2,3) \<open>l < ?n\<close> assms(2,3)]
  obtain d L where d: "KV_Harness.partition (as_kv cfg) p1 p2 = Inr d" "links (as_kv cfg) d L"
      "\<forall>a < ?n. \<forall>b < ?n. L a b \<longleftrightarrow> (a \<in> set p1 \<longleftrightarrow> b \<in> set p1)"
    using partition_refines [OF w n links_self, of p1 p2] props by auto
  obtain c where c: "partition cfg p1 p2 = Inr c" "d = as_kv c"
    using partition_sim [of cfg p1 p2] d(1) by (cases "partition cfg p1 p2") (auto simp: sim_def)
  have "enabled (ct_net c) (Str (ns ! j)) \<longleftrightarrow> (i \<in> set p1 \<longleftrightarrow> j \<in> set p1)" if "ct_endnames cfg ! i = Some ns" "i < ?n" "j < ?n" for i ns j
  proof -
    have "server_end (as_kv cfg) i j = Str (ns ! j)" using that(1) by (simp add: server_end_def)
    moreover have "enabled (ct_net c) (server_end (as_kv cfg) i j) = L i j"
      using links_enabled [OF d(2) [unfolded c(2)]] that(2,3) by simp
    ultimately show ?thesis using d(3) that(2,3) by simp
  qed
  then show ?thesis using p(1) c(1) props l by (intro exI [of _ p1] exI [of _ p2] exI [of _ c]) auto
qed

end
