(* ===== verification/ShardKV_Harness.thy ===== *)
theory ShardKV_Harness
  imports LabRPC Shard_Ctrler
begin

text \<open>
  The test harness of the sharded key/value service, src/shardkv/config.go, with the parts of src/shardkv/server.go
  that it calls: a controller service of three servers, three replica groups, clerks, starting and stopping of
  servers and groups, and the requests to join and leave.

  Random strings come from a sequence \<open>rs\<close>; the state counts how many were drawn. Servers and persisters are kept by value, as in the
  harness of Raft. The two minute limit, the removal of files and \<^verbatim>\<open>checklogs\<close>, which measures encoded sizes, are not there.
\<close>

section \<open>Servers\<close>

record 'c ShardKV =
  sk_me :: int
  sk_rf :: "'c Raft"
  sk_gid :: nat
  sk_ctrlers :: "string list"
  sk_maxraftstate :: int

definition shardkv_StartServer :: "nat \<Rightarrow> int \<Rightarrow> 'c Persister \<Rightarrow> int \<Rightarrow> nat \<Rightarrow> string list \<Rightarrow> 'c ShardKV res" where
  "shardkv_StartServer npeers self ps maxraft gd mends =
     bindR (Make npeers self ps) (\<lambda>rf.
       Inr \<lparr>sk_me = self, sk_rf = rf, sk_gid = gd, sk_ctrlers = mends, sk_maxraftstate = maxraft\<rparr>)"

section \<open>The state\<close>

record 'c group =
  gid :: nat
  g_servers :: "'c ShardKV option list"
  g_saved :: "'c Persister option list"
  g_endnames :: "string list option list"
  g_mendnames :: "string list option list"

record 'c ctrler =
  c_n :: nat
  c_servers :: "'c ShardCtrler option list"
  c_names :: "string list"
  c_ck :: CtlClerk

record 'c config =
  snet :: Network
  ctl :: "'c ctrler"
  ngroups :: nat
  sn :: nat
  groups :: "'c group list"
  sclerks :: "nat \<rightharpoonup> string list"
  nextClientId :: int
  maxraftstate :: int
  drawn :: nat     \<comment> \<open>random strings drawn so far\<close>
  made :: nat      \<comment> \<open>\<^verbatim>\<open>labrpc.Server\<close> objects made so far\<close>
  nclerks :: nat   \<comment> \<open>clerks made so far\<close>

definition ctrlername :: "'c ctrler \<Rightarrow> nat \<Rightarrow> string" where
  "ctrlername ct i = c_names ct ! i"

definition servername :: "nat \<Rightarrow> nat \<Rightarrow> string" where
  "servername gd i = ''server-'' @ Itoa gd @ ''-'' @ Itoa i"

section \<open>End points\<close>

text \<open>
  A fresh end point, connected and enabled: \<^verbatim>\<open>MakeEnd\<close>, \<^verbatim>\<open>Connect\<close> and \<^verbatim>\<open>Enable\<close> with the next random string. This is also what the
  closures \<^verbatim>\<open>make_end\<close> of clerks and servers do.
\<close>

definition make_end :: "(nat \<Rightarrow> string) \<Rightarrow> 'c config \<Rightarrow> string \<Rightarrow> ('c config \<times> string) res" where
  "make_end rs cfg target =
     (let name = rs (drawn cfg) in
      bindR (MakeEnd (snet cfg) (Str name)) (\<lambda>nt.
        Inr (cfg\<lparr>snet := Enable (Connect nt (Str name) (Str target)) (Str name) True, drawn := drawn cfg + 1\<rparr>, name)))"

text \<open>One for each of \<open>k\<close> targets, with the names in order.\<close>

definition make_ends :: "(nat \<Rightarrow> string) \<Rightarrow> 'c config \<Rightarrow> (nat \<Rightarrow> string) \<Rightarrow> nat \<Rightarrow> ('c config \<times> string list) res" where
  "make_ends rs cfg target k =
     foldR (\<lambda>(c, ns) j. bindR (make_end rs c (target j)) (\<lambda>(c1, name). Inr (c1, ns @ [name]))) (cfg, []) [0..<k]"

section \<open>Clerks\<close>

text \<open>
  \<^verbatim>\<open>makeClient\<close> makes an end point for each controller, but the slice it writes their names to has the number of servers of a group as
  its length.
\<close>

definition makeClient :: "(nat \<Rightarrow> string) \<Rightarrow> 'c config \<Rightarrow> 'c ctrler \<Rightarrow> ('c config \<times> Clerk) res" where
  "makeClient rs cfg ct =
     bindR (foldR (\<lambda>(c, es, ns) j.
              bindR (set_index es (int j) (rs (drawn c))) (\<lambda>es1.
              bindR (make_end rs c (ctrlername ct j)) (\<lambda>(c1, name). Inr (c1, es1, ns @ [name]))))
            (cfg, replicate (sn cfg) '''', []) [0..<c_n ct]) (\<lambda>(c, es, ns).
       Inr (c\<lparr>sclerks := (sclerks c)(nclerks c \<mapsto> es), nclerks := Suc (nclerks c), nextClientId := nextClientId c + 1\<rparr>, MakeClerk ns))"

definition deleteClient :: "'c config \<Rightarrow> nat \<Rightarrow> 'c config" where
  "deleteClient cfg k = cfg\<lparr>sclerks := (sclerks cfg)(k := None)\<rparr>"

section \<open>Stopping and starting servers\<close>

definition saved_now :: "'c group \<Rightarrow> nat \<Rightarrow> 'c Persister option" where
  "saved_now gg i =
     (case g_saved gg ! i of
        None \<Rightarrow> None
      | Some ps \<Rightarrow> (case g_servers gg ! i of None \<Rightarrow> Some ps | Some kv \<Rightarrow> Some (persister (sk_rf kv))))"

definition disable_all :: "Network \<Rightarrow> string list \<Rightarrow> Network" where
  "disable_all nt names = fold (\<lambda>name nt. Enable nt (Str name) False) names nt"

definition ShutdownServer :: "'c config \<Rightarrow> nat \<Rightarrow> nat \<Rightarrow> 'c config res" where
  "ShutdownServer cfg gi i =
     bindR (index (groups cfg) (int gi)) (\<lambda>gg.
     bindR (index (g_endnames gg) (int i)) (\<lambda>es.
     bindR (mapR (\<lambda>j. index (slice_elems es) (int j)) [0..<length (g_servers gg)]) (\<lambda>names.
     bindR (index (g_mendnames gg) (int i)) (\<lambda>ms.
       let nt1 = disable_all (disable_all (snet cfg) names) (slice_elems ms);
           nt2 = DeleteServer nt1 (Str (servername (gid gg) i));
           gg1 = gg\<lparr>g_saved := (g_saved gg)[i := map_option Persister_Copy (saved_now gg i)],
                    g_servers := (g_servers gg)[i := None]\<rparr>
       in Inr (cfg\<lparr>snet := nt2, groups := (groups cfg)[gi := gg1]\<rparr>)))))"

definition ShutdownGroup :: "'c config \<Rightarrow> nat \<Rightarrow> 'c config res" where
  "ShutdownGroup cfg gi = foldR (\<lambda>c i. ShutdownServer c gi i) cfg [0..<sn cfg]"

definition StartServer :: "(nat \<Rightarrow> string) \<Rightarrow> 'c config \<Rightarrow> nat \<Rightarrow> nat \<Rightarrow> 'c config res" where
  "StartServer rs cfg gi i =
     bindR (index (groups cfg) (int gi)) (\<lambda>gg.
     bindR (index (g_endnames gg) (int i)) (\<lambda>_.
     bindR (make_ends rs cfg (servername (gid gg)) (sn cfg)) (\<lambda>(c1, names).
     bindR (index (g_mendnames gg) (int i)) (\<lambda>_.
     bindR (make_ends rs c1 (ctrlername (ctl cfg)) (c_n (ctl cfg))) (\<lambda>(c2, mnames).
       let ps = (case saved_now gg i of Some ps \<Rightarrow> Persister_Copy ps | None \<Rightarrow> MakePersister)
       in bindR (shardkv_StartServer (sn cfg) (int i) ps (maxraftstate cfg) (gid gg) mnames) (\<lambda>kv.
            let gg1 = gg\<lparr>g_endnames := (g_endnames gg)[i := Some names], g_mendnames := (g_mendnames gg)[i := Some mnames],
                         g_saved := (g_saved gg)[i := Some ps], g_servers := (g_servers gg)[i := Some kv]\<rparr>
            in Inr (c2\<lparr>groups := (groups c2)[gi := gg1],
                       snet := AddServer (snet c2) (Str (servername (gid gg) i)) (made c2), made := Suc (made c2)\<rparr>)))))))"

definition StartGroup :: "(nat \<Rightarrow> string) \<Rightarrow> 'c config \<Rightarrow> nat \<Rightarrow> 'c config res" where
  "StartGroup rs cfg gi = foldR (\<lambda>c i. StartServer rs c gi i) cfg [0..<sn cfg]"

section \<open>The controller service\<close>

definition StartCtrlerServer :: "(nat \<Rightarrow> string) \<Rightarrow> 'c config \<times> 'c ctrler \<Rightarrow> nat \<Rightarrow> ('c config \<times> 'c ctrler) res" where
  "StartCtrlerServer rs = (\<lambda>(cfg, ct) i.
     bindR (make_ends rs cfg (ctrlername ct) (c_n ct)) (\<lambda>(c1, names).
     bindR (ctrler_StartServer (c_n ct) (int i) MakePersister) (\<lambda>sc.
       Inr (c1\<lparr>snet := AddServer (snet c1) (Str (ctrlername ct i)) (made c1), made := Suc (made c1)\<rparr>,
            ct\<lparr>c_servers := (c_servers ct)[i := Some sc]\<rparr>))))"

definition ctrlerclerk :: "(nat \<Rightarrow> string) \<Rightarrow> 'c config \<Rightarrow> 'c ctrler \<Rightarrow> ('c config \<times> CtlClerk) res" where
  "ctrlerclerk rs cfg ct =
     bindR (make_ends rs cfg (ctrlername ct) (c_n ct)) (\<lambda>(c1, names). Inr (c1, \<lparr>ctl_servers = names\<rparr>))"

definition StartCtrlerService :: "(nat \<Rightarrow> string) \<Rightarrow> 'c config \<Rightarrow> ('c config \<times> 'c ctrler) res" where
  "StartCtrlerService rs cfg =
     (let ct = \<lparr>c_n = 3, c_servers = replicate 3 None, c_names = map (\<lambda>i. ''ctlr-'' @ rs (drawn cfg + i)) [0..<3],
                c_ck = \<lparr>ctl_servers = []\<rparr>\<rparr>
      in bindR (foldR (StartCtrlerServer rs) (cfg\<lparr>drawn := drawn cfg + 3\<rparr>, ct) [0..<3]) (\<lambda>(c1, ct1).
         bindR (ctrlerclerk rs c1 ct1) (\<lambda>(c2, ck). Inr (c2, ct1\<lparr>c_ck := ck\<rparr>))))"

section \<open>Join and leave\<close>

text \<open>The arguments of the requests, and the requests: the clerk of the controller repeats them until they succeed.\<close>

definition join_map :: "'c config \<Rightarrow> nat list \<Rightarrow> (int \<rightharpoonup> string list) res" where
  "join_map cfg gis =
     foldR (\<lambda>m g. bindR (index (groups cfg) (int g)) (\<lambda>gg.
              Inr (m(int (gid gg) \<mapsto> map (servername (gid gg)) [0..<sn cfg])))) Map.empty gis"

definition joinm :: "(nat \<Rightarrow> string \<Rightarrow> (int \<rightharpoonup> string list) \<Rightarrow> CtlReply option) \<Rightarrow> 'c config \<Rightarrow> nat list \<Rightarrow> 'c ctrler \<Rightarrow> nat \<Rightarrow>
    (nat \<times> unit) option res" where
  "joinm call cfg gis ct t = bindR (join_map cfg gis) (\<lambda>m. Inr (Join call (c_ck ct) m t))"

definition leavem :: "(nat \<Rightarrow> string \<Rightarrow> int list \<Rightarrow> CtlReply option) \<Rightarrow> 'c config \<Rightarrow> nat list \<Rightarrow> nat \<Rightarrow> (nat \<times> unit) option res" where
  "leavem call cfg gis t =
     bindR (mapR (\<lambda>g. bindR (index (groups cfg) (int g)) (\<lambda>gg. Inr (int (gid gg)))) gis) (\<lambda>gids.
       Inr (Leave call (c_ck (ctl cfg)) gids t))"

section \<open>Begin and end of a test\<close>

text \<open>\<^verbatim>\<open>gg.mendnames\<close> has the number of controllers as its length, and is indexed by the servers of the group.\<close>

definition new_group :: "nat \<Rightarrow> nat \<Rightarrow> nat \<Rightarrow> 'c group" where
  "new_group n ctln gi =
     \<lparr>gid = 100 + gi, g_servers = replicate n None, g_saved = replicate n None,
      g_endnames = replicate n None, g_mendnames = replicate ctln None\<rparr>"

definition make_config :: "nat \<Rightarrow> bool \<Rightarrow> int \<Rightarrow> (nat \<Rightarrow> string) \<Rightarrow> 'c config res" where
  "make_config n unreliable maxraft rs =
     (let c0 = \<lparr>snet = MakeNetwork, ctl = \<lparr>c_n = 0, c_servers = [], c_names = [], c_ck = \<lparr>ctl_servers = []\<rparr>\<rparr>, ngroups = 0, sn = 0,
                groups = [], sclerks = Map.empty, nextClientId = 0, maxraftstate = maxraft, drawn = 0, made = 0, nclerks = 0\<rparr>
      in bindR (StartCtrlerService rs c0) (\<lambda>(c1, ct).
         let c2 = c1\<lparr>ctl := ct, ngroups := 3, sn := n\<rparr>
         in bindR (foldR (\<lambda>c gi. StartGroup rs (c\<lparr>groups := groups c @ [new_group n (c_n ct) gi]\<rparr>) gi) c2 [0..<3]) (\<lambda>c3.
              Inr (c3\<lparr>nextClientId := int n + 1000, snet := Reliable (snet c3) (\<not> unreliable)\<rparr>))))"

definition cleanup :: "'c config \<Rightarrow> 'c config res" where
  "cleanup cfg =
     bindR (foldR ShutdownGroup cfg [0..<ngroups cfg]) (\<lambda>c1.
     bindR (Cleanup (snet c1)) (\<lambda>nt.
       Inr (c1\<lparr>snet := nt, ctl := (ctl c1)\<lparr>c_servers := map (map_option ShardCtrler_Kill) (c_servers (ctl c1))\<rparr>\<rparr>)))"

section \<open>The set-up returns\<close>

definition drawn_ok :: "(nat \<Rightarrow> string) \<Rightarrow> 'c config \<Rightarrow> bool" where
  "drawn_ok rs cfg \<longleftrightarrow> ends (snet cfg) \<subseteq> (\<lambda>k. Str (rs k)) ` {..<drawn cfg}"

text \<open>The operations on end points change the network and the counters only.\<close>

definition same :: "'c config \<Rightarrow> 'c config \<Rightarrow> bool" where
  "same cfg c \<longleftrightarrow> ctl c = ctl cfg \<and> sn c = sn cfg \<and> groups c = groups cfg \<and> ngroups c = ngroups cfg \<and>
     maxraftstate c = maxraftstate cfg \<and> sclerks c = sclerks cfg \<and> nclerks c = nclerks cfg"

interpretation same: frame same
  by unfold_locales (simp_all add: same_def)

lemma make_end_returns:
  assumes "inj rs" "drawn_ok rs cfg"
  shows "\<exists>c. make_end rs cfg tgt = Inr (c, rs (drawn cfg)) \<and> same cfg c \<and> drawn_ok rs c"
proof -
  have "Str (rs (drawn cfg)) \<notin> ends (snet cfg)"
    using assms by (auto simp: drawn_ok_def dest: injD)
  then show ?thesis
    using assms(2) by (auto simp: make_end_def Let_def MakeEnd_def Connect_def Enable_def same_def drawn_ok_def lessThan_Suc)
qed

lemma open_ends_return:
  assumes "inj rs" "drawn_ok rs cfg"
  shows "\<exists>c ns. make_ends rs cfg tgt k = Inr (c, ns) \<and> same cfg c \<and> drawn_ok rs c"
proof (induction k)
  case 0
  show ?case using assms(2) by (simp add: make_ends_def same.refl)
next
  case (Suc k)
  then obtain c ns where c: "make_ends rs cfg tgt k = Inr (c, ns)" "same cfg c" "drawn_ok rs c" by blast
  obtain d where d: "make_end rs c (tgt k) = Inr (d, rs (drawn c))" "same c d" "drawn_ok rs d"
    using make_end_returns [OF assms(1) c(3)] by blast
  have "make_ends rs cfg tgt (Suc k) = Inr (d, ns @ [rs (drawn c)])"
    using c(1) d(1) by (simp add: make_ends_def foldR_append)
  then show ?case using d(3) same.trans [OF c(2) d(2)] by blast
qed

lemma StartCtrlerService_returns:
  assumes "inj rs" "drawn_ok rs cfg"
  shows "\<exists>c ct. StartCtrlerService rs cfg = Inr (c, ct) \<and> same cfg c \<and> drawn_ok rs c \<and> c_n ct = 3"
proof -
  define ct0 :: "'a ctrler" where "ct0 = \<lparr>c_n = 3, c_servers = replicate 3 None, c_names = map (\<lambda>i. ''ctlr-'' @ rs (drawn cfg + i)) [0..<3],
                c_ck = \<lparr>ctl_servers = []\<rparr>\<rparr>"
  have "\<exists>c ct. foldR (StartCtrlerServer rs) (cfg\<lparr>drawn := drawn cfg + 3\<rparr>, ct0) [0..<k] = Inr (c, ct) \<and> same cfg c \<and> drawn_ok rs c \<and> c_n ct = 3" for k
  proof (induction k)
    case 0
    have "same cfg (cfg\<lparr>drawn := drawn cfg + 3\<rparr>)" by (simp add: same_def)
    moreover have "drawn_ok rs (cfg\<lparr>drawn := drawn cfg + 3\<rparr>)" using assms(2) by (fastforce simp: drawn_ok_def)
    ultimately show ?case by (simp add: ct0_def)
  next
    case (Suc k)
    then obtain c ct where c: "foldR (StartCtrlerServer rs) (cfg\<lparr>drawn := drawn cfg + 3\<rparr>, ct0) [0..<k] = Inr (c, ct)" "same cfg c" "drawn_ok rs c"
      "c_n ct = 3" by blast
    obtain d ns where d: "make_ends rs c (ctrlername ct) (c_n ct) = Inr (d, ns)" "same c d" "drawn_ok rs d"
      using open_ends_return [OF assms(1) c(3)] by blast
    obtain rf where "Make (c_n ct) (int k) MakePersister = Inr (rf :: 'a Raft)" using Make_fresh_returns by blast
    then obtain e ct' where e: "StartCtrlerServer rs (c, ct) k = Inr (e, ct')" "same d e" "drawn_ok rs e" "c_n ct' = 3"
      using d c(4) by (auto simp: StartCtrlerServer_def ctrler_StartServer_def same_def drawn_ok_def AddServer_def)
    then show ?case using c(1) same.trans [OF c(2) same.trans [OF d(2) e(2)]] by (simp add: foldR_append)
  qed
  then obtain c ct where c: "foldR (StartCtrlerServer rs) (cfg\<lparr>drawn := drawn cfg + 3\<rparr>, ct0) [0..<3] = Inr (c, ct)" "same cfg c" "drawn_ok rs c"
    "c_n ct = 3" by blast
  obtain d ns where d: "make_ends rs c (ctrlername ct) (c_n ct) = Inr (d, ns)" "same c d" "drawn_ok rs d"
    using open_ends_return [OF assms(1) c(3)] by blast
  have "StartCtrlerService rs cfg = Inr (d, ct\<lparr>c_ck := \<lparr>ctl_servers = ns\<rparr>\<rparr>)"
    unfolding StartCtrlerService_def Let_def ct0_def [symmetric] using c(1) d(1) by (simp add: ctrlerclerk_def)
  then show ?thesis using c(4) d(3) same.trans [OF c(2) d(2)] by auto
qed

text \<open>A group in which the servers from \<open>k\<close> on have not been started yet.\<close>

definition group_new :: "nat \<Rightarrow> nat \<Rightarrow> 'c group \<Rightarrow> bool" where
  "group_new n k gg \<longleftrightarrow> length (g_endnames gg) = n \<and> length (g_mendnames gg) = 3 \<and> length (g_saved gg) = n \<and>
     (\<forall>i. k \<le> i \<longrightarrow> i < n \<longrightarrow> g_saved gg ! i = None)"

definition setup_inv :: "(nat \<Rightarrow> string) \<Rightarrow> nat \<Rightarrow> nat \<Rightarrow> nat \<Rightarrow> 'c config \<Rightarrow> bool" where
  "setup_inv rs n gi k cfg \<longleftrightarrow> drawn_ok rs cfg \<and> sn cfg = n \<and> c_n (ctl cfg) = 3 \<and> length (groups cfg) = Suc gi \<and> group_new n k (groups cfg ! gi)"

lemma StartServer_setup:
  assumes "inj rs" "setup_inv rs n gi k cfg" "k < n"
  shows "if k < 3 then \<exists>c. StartServer rs cfg gi k = Inr c \<and> setup_inv rs n gi (Suc k) c else StartServer rs cfg gi k = Inl IndexOutOfRange"
proof -
  let ?gg = "groups cfg ! gi"
  have cfg: "drawn_ok rs cfg" "sn cfg = n" "c_n (ctl cfg) = 3" "length (groups cfg) = Suc gi" "length (g_endnames ?gg) = n"
    "length (g_mendnames ?gg) = 3" "length (g_saved ?gg) = n" "\<forall>i. k \<le> i \<longrightarrow> i < n \<longrightarrow> g_saved ?gg ! i = None"
    using assms(2) by (simp_all add: setup_inv_def group_new_def)
  obtain c1 ns where c1: "make_ends rs cfg (servername (gid ?gg)) n = Inr (c1, ns)" "same cfg c1" "drawn_ok rs c1"
    using open_ends_return [OF assms(1) cfg(1)] by blast
  obtain c2 ms where c2: "make_ends rs c1 (ctrlername (ctl cfg)) 3 = Inr (c2, ms)" "same c1 c2" "drawn_ok rs c2"
    using open_ends_return [OF assms(1) c1(3)] by blast
  obtain rf where rf: "Make n (int k) MakePersister = Inr (rf :: 'a Raft)" using Make_fresh_returns by blast
  have "saved_now ?gg k = None" using cfg(8) assms(3) by (simp add: saved_now_def)
  then have "if k < 3 then StartServer rs cfg gi k =
        Inr (c2\<lparr>groups := (groups c2)[gi := ?gg\<lparr>g_endnames := (g_endnames ?gg)[k := Some ns], g_mendnames := (g_mendnames ?gg)[k := Some ms],
               g_saved := (g_saved ?gg)[k := Some MakePersister],
               g_servers := (g_servers ?gg)[k := Some \<lparr>sk_me = int k, sk_rf = rf, sk_gid = gid ?gg, sk_ctrlers = ms, sk_maxraftstate = maxraftstate cfg\<rparr>]\<rparr>],
             snet := AddServer (snet c2) (Str (servername (gid ?gg) k)) (made c2), made := Suc (made c2)\<rparr>)
      else StartServer rs cfg gi k = Inl IndexOutOfRange"
    using assms(3) cfg c1(1) c2(1) rf by (simp add: StartServer_def shardkv_StartServer_def index_def Let_def)
  moreover have "groups c2 = groups cfg" "sn c2 = n" "c_n (ctl c2) = 3" using c1(2) c2(2) cfg(2,3) by (simp_all add: same_def)
  ultimately show ?thesis using c2(3) cfg(4-8)
    by (auto simp: setup_inv_def group_new_def drawn_ok_def AddServer_def nth_list_update split: if_splits)
qed

lemma StartGroup_setup:
  assumes "inj rs" "setup_inv rs n gi 0 cfg"
  shows "if n \<le> 3 then \<exists>c. StartGroup rs cfg gi = Inr c \<and> setup_inv rs n gi n c else StartGroup rs cfg gi = Inl IndexOutOfRange"
proof -
  let ?f = "\<lambda>c i. StartServer rs c gi i"
  have part: "\<exists>c. foldR ?f cfg [0..<k] = Inr c \<and> setup_inv rs n gi k c" if "k \<le> n" "k \<le> 3" for k
    using that
  proof (induction k)
    case (Suc k)
    then obtain c where c: "foldR ?f cfg [0..<k] = Inr c" "setup_inv rs n gi k c" by auto
    then show ?case using StartServer_setup [OF assms(1) c(2)] Suc.prems by (auto simp: foldR_append)
  qed (use assms(2) in simp)
  have sn: "sn cfg = n" using assms(2) by (simp add: setup_inv_def)
  show ?thesis
  proof (cases "n \<le> 3")
    case True
    then show ?thesis using part [of n] by (simp add: StartGroup_def sn)
  next
    case False
    then obtain c where c: "foldR ?f cfg [0..<3] = Inr c" "setup_inv rs n gi 3 c" using part [of 3] by auto
    then have "StartServer rs c gi 3 = Inl IndexOutOfRange" using StartServer_setup [OF assms(1) c(2)] False by simp
    moreover have "[0..<n] = [0..<3] @ 3 # [4..<n]" using False upt_add_eq_append [of 0 3 "n - 3"] upt_conv_Cons [of 3 n] by simp
    ultimately show ?thesis using c(1) False by (simp add: StartGroup_def sn foldR_append)
  qed
qed

lemma make_config_setup:
  assumes "inj rs"
  shows "if n \<le> 3 then \<exists>cfg :: 'c config. make_config n unreliable maxraft rs = Inr cfg \<and> drawn_ok rs cfg \<and> sn cfg = n \<and> c_n (ctl cfg) = 3
    else make_config n unreliable maxraft rs = (Inl IndexOutOfRange :: 'c config res)"
proof -
  define c0 :: "'c config" where "c0 = \<lparr>snet = MakeNetwork, ctl = \<lparr>c_n = 0, c_servers = [], c_names = [], c_ck = \<lparr>ctl_servers = []\<rparr>\<rparr>, ngroups = 0, sn = 0,
                groups = [], sclerks = Map.empty, nextClientId = 0, maxraftstate = maxraft, drawn = 0, made = 0, nclerks = 0\<rparr>"
  have "drawn_ok rs c0" by (simp add: drawn_ok_def c0_def MakeNetwork_def)
  then obtain c1 ct where c1: "StartCtrlerService rs c0 = Inr (c1, ct)" "same c0 c1" "drawn_ok rs c1" "c_n ct = 3"
    using StartCtrlerService_returns [OF assms] by blast
  define c2 where "c2 = c1\<lparr>ctl := ct, ngroups := 3, sn := n\<rparr>"
  let ?f = "\<lambda>c gi. StartGroup rs (c\<lparr>groups := groups c @ [new_group n (c_n ct) gi]\<rparr>) gi"
  define ready where "ready gi c \<longleftrightarrow> drawn_ok rs c \<and> sn c = n \<and> c_n (ctl c) = 3 \<and> length (groups c) = gi" for gi and c :: "'c config"
  have ready2: "ready 0 c2" using c1(2-4) by (simp add: ready_def c2_def drawn_ok_def same_def c0_def)
  have step: "if n \<le> 3 then \<exists>c'. ?f c gi = Inr c' \<and> ready (Suc gi) c' else ?f c gi = Inl IndexOutOfRange" if "ready gi c" for gi and c :: "'c config"
  proof -
    have "setup_inv rs n gi 0 (c\<lparr>groups := groups c @ [new_group n (c_n ct) gi]\<rparr>)"
      using that c1(4) by (simp add: setup_inv_def ready_def drawn_ok_def group_new_def new_group_def nth_append)
    from StartGroup_setup [OF assms this] show ?thesis by (auto simp: setup_inv_def ready_def split: if_splits)
  qed
  have run: "make_config n unreliable maxraft rs = bindR (foldR ?f c2 [0..<3]) (\<lambda>c3.
      Inr (c3\<lparr>nextClientId := int n + 1000, snet := Reliable (snet c3) (\<not> unreliable)\<rparr>))"
    unfolding make_config_def Let_def c0_def [symmetric] by (simp add: c1(1) c2_def)
  show ?thesis
  proof (cases "n \<le> 3")
    case True
    have "\<exists>c. foldR ?f c2 [0..<k] = Inr c \<and> ready k c" for k
    proof (induction k)
      case (Suc k)
      then obtain c where "foldR ?f c2 [0..<k] = Inr c" "ready k c" by blast
      then show ?case using step [of k c] True by (auto simp: foldR_append)
    qed (use ready2 in simp)
    then obtain c3 where "foldR ?f c2 [0..<3] = Inr c3" "ready 3 c3" by blast
    then show ?thesis using True by (simp add: run ready_def drawn_ok_def Reliable_def)
  next
    case False
    have "[0..<3] = 0 # [1..<3]" by (simp add: upt_rec)
    then show ?thesis using step [OF ready2] False by (simp add: run)
  qed
qed

lemma makeClient_setup:
  assumes "inj rs" "drawn_ok rs cfg" "c_n ct = 3"
  shows "if 3 \<le> sn cfg then \<exists>c ck. makeClient rs cfg ct = Inr (c, ck) \<and> length (ctl_servers (sm ck)) = 3 else makeClient rs cfg ct = Inl IndexOutOfRange"
proof -
  let ?f = "\<lambda>(c, es, ns) j. bindR (set_index es (int j) (rs (drawn c))) (\<lambda>es1.
              bindR (make_end rs c (ctrlername ct j)) (\<lambda>(c1, name). Inr (c1, es1, ns @ [name])))"
  let ?s = "(cfg, replicate (sn cfg) '''', [])"
  have part: "\<exists>c es ns. foldR ?f ?s [0..<k] = Inr (c, es, ns) \<and> drawn_ok rs c \<and> length es = sn cfg \<and> length ns = k" if "k \<le> sn cfg" for k
    using that
  proof (induction k)
    case (Suc k)
    then obtain c es ns where c: "foldR ?f ?s [0..<k] = Inr (c, es, ns)" "drawn_ok rs c" "length es = sn cfg" "length ns = k" by auto
    obtain d where "make_end rs c (ctrlername ct k) = Inr (d, rs (drawn c))" "drawn_ok rs d" using make_end_returns [OF assms(1) c(2)] by blast
    then show ?case using c Suc.prems by (simp add: foldR_append set_index_def)
  qed (use assms(2) in simp)
  show ?thesis
  proof (cases "3 \<le> sn cfg")
    case True
    then show ?thesis using part [of 3] assms(3) by (auto simp: makeClient_def MakeClerk_def)
  next
    case False
    obtain c es ns where c: "foldR ?f ?s [0..<sn cfg] = Inr (c, es, ns)" "length es = sn cfg" using part [of "sn cfg"] by auto
    have "[0..<3] = [0..<sn cfg] @ sn cfg # [Suc (sn cfg)..<3]"
      using False upt_add_eq_append [of 0 "sn cfg" "3 - sn cfg"] upt_conv_Cons [of "sn cfg" 3] by simp
    then have "foldR ?f ?s [0..<3] = Inl IndexOutOfRange" using c by (simp add: foldR_append set_index_def)
    then show ?thesis using False assms(3) by (simp add: makeClient_def)
  qed
qed

text \<open>
  C33. The harness works with three servers per group and with no other number, although the number is a parameter of
  \<^verbatim>\<open>make_config\<close>: with more servers the set-up indexes a slice out of range, with fewer it returns but no clerk can be made.
\<close>

theorem harness_needs_three_servers:
  assumes "inj rs"
  shows "(n > 3 \<longrightarrow> make_config n unreliable maxraft rs = (Inl IndexOutOfRange :: 'c config res)) \<and>
    (n < 3 \<longrightarrow> (\<exists>cfg :: 'c config. make_config n unreliable maxraft rs = Inr cfg \<and> makeClient rs cfg (ctl cfg) = Inl IndexOutOfRange)) \<and>
    (n = 3 \<longrightarrow> (\<exists>(cfg :: 'c config) c ck. make_config n unreliable maxraft rs = Inr cfg \<and> makeClient rs cfg (ctl cfg) = Inr (c, ck) \<and>
       length (ctl_servers (sm ck)) = 3))"
proof (cases "n \<le> 3")
  case True
  then obtain cfg :: "'c config" where cfg: "make_config n unreliable maxraft rs = Inr cfg" "drawn_ok rs cfg" "sn cfg = n" "c_n (ctl cfg) = 3"
    using make_config_setup [where 'c = 'c, OF assms, of n unreliable maxraft] by auto
  from makeClient_setup [OF assms cfg(2,4)] cfg(1,3) True show ?thesis by (auto split: if_splits)
next
  case False
  then show ?thesis using make_config_setup [where 'c = 'c, OF assms, of n unreliable maxraft] by simp
qed

theorem harness_needs_three_servers_witness:
  "make_config 4 False 100 (\<lambda>k. replicate k CHR ''x'') = (Inl IndexOutOfRange :: nat config res)"
proof -
  have "inj (\<lambda>k. replicate k CHR ''x'')" by (rule injI) (metis length_replicate)
  from harness_needs_three_servers [where 'c = nat, OF this, of 4 False 100] show ?thesis by simp
qed

end
