(* ===== verification/Harness_Extras.thy ===== *)
theory Harness_Extras
  imports KVSrv_Harness Raft_Checks Ctl_Harness ShardKV_Harness
begin

text \<open>
  The operations that the test harnesses have beside their state machines: random names, the time limit, the sizes of the persisted
  states, the operations that only take a lock around another one, and the senders of the requests of Raft.

  What encoding/gob writes for a Raft state is not modelled byte by byte; its length is the parameter \<open>sz\<close>. \<^verbatim>\<open>t.Fatal\<close> is \<open>LogFatal\<close>.
\<close>

section \<open>Random names\<close>

text \<open>\<^verbatim>\<open>base64.URLEncoding\<close>\<close>

definition base64_char :: "nat \<Rightarrow> char" where
  "base64_char v =
     (if v < 26 then char_of (65 + v) else if v < 52 then char_of (71 + v) else if v < 62 then char_of (v - 4)
      else if v = 62 then CHR ''-'' else CHR ''_'')"

fun EncodeToString :: "8 word list \<Rightarrow> string" where
  "EncodeToString [] = []"
| "EncodeToString [a] =
     (let v = unat a * 65536
      in [base64_char (v div 262144), base64_char (v div 4096 mod 64), CHR ''='', CHR ''=''])"
| "EncodeToString [a, b] =
     (let v = unat a * 65536 + unat b * 256
      in [base64_char (v div 262144), base64_char (v div 4096 mod 64), base64_char (v div 64 mod 64), CHR ''=''])"
| "EncodeToString (a # b # c # bs) =
     (let v = unat a * 65536 + unat b * 256 + unat c
      in [base64_char (v div 262144), base64_char (v div 4096 mod 64), base64_char (v div 64 mod 64), base64_char (v mod 64)] @
         EncodeToString bs)"

text \<open>\<open>b\<close> are the \<open>2 * n\<close> random bytes.\<close>

definition randstring :: "nat \<Rightarrow> 8 word list \<Rightarrow> string res" where
  "randstring n b = slice_to (EncodeToString b) (int n)"

lemma length_EncodeToString: "length (EncodeToString bs) = 4 * ((length bs + 2) div 3)"
  by (induction bs rule: EncodeToString.induct) (auto simp: Let_def, presburger)

lemma randstring_length:
  assumes "length b = 2 * n"
  shows "\<exists>s. randstring n b = Inr s \<and> length s = n"
proof -
  have "n \<le> length (EncodeToString b)" unfolding length_EncodeToString using assms by linarith
  then show ?thesis by (simp add: randstring_def slice_to_def)
qed

section \<open>The time limit\<close>

text \<open>\<open>elapsed\<close> is the time since the start of the test, in nanoseconds.\<close>

definition checkTimeout :: "bool \<Rightarrow> int \<Rightarrow> unit res" where
  "checkTimeout failed elapsed =
     (if \<not> failed \<and> elapsed > 120 * 1000000000 then Inl (LogFatal ''test took longer than 120 seconds'') else Inr ())"

section \<open>Sizes\<close>

definition RaftStateSize :: "('c gobval list \<Rightarrow> int) \<Rightarrow> 'c Persister \<Rightarrow> int" where
  "RaftStateSize sz ps = (case raftstate ps of None \<Rightarrow> 0 | Some gs \<Rightarrow> sz gs)"

definition GetRaftStateSize :: "('c gobval list \<Rightarrow> int) \<Rightarrow> 'c Raft \<Rightarrow> int" where
  "GetRaftStateSize sz rf = RaftStateSize sz (persister rf)"

text \<open>The loop over \<^verbatim>\<open>cfg.saved\<close> for the largest size; \<open>now_saved i\<close> is the persister \<^verbatim>\<open>cfg.saved[i]\<close>, if there is one.\<close>

definition largest :: "(nat \<Rightarrow> 'p option) \<Rightarrow> ('p \<Rightarrow> int) \<Rightarrow> nat \<Rightarrow> int res" where
  "largest now_saved f n =
     foldR (\<lambda>m i. case now_saved i of None \<Rightarrow> Inl NilDereference | Some ps \<Rightarrow> Inr (if f ps > m then f ps else m)) 0 [0..<n]"

definition raft_LogSize :: "('c gobval list \<Rightarrow> int) \<Rightarrow> 'c Raft_Harness.config \<Rightarrow> int res" where
  "raft_LogSize sz cfg = largest (Raft_Harness.saved_now cfg) (RaftStateSize sz) (cfg_n cfg)"

definition kvraft_LogSize :: "('c gobval list \<Rightarrow> int) \<Rightarrow> 'c KV_Harness.config \<Rightarrow> int res" where
  "kvraft_LogSize sz cfg = largest (KV_Harness.saved_now cfg) (RaftStateSize sz) (cn cfg)"

definition kvraft_SnapshotSize :: "'c KV_Harness.config \<Rightarrow> int res" where
  "kvraft_SnapshotSize cfg = largest (KV_Harness.saved_now cfg) SnapshotSize (cn cfg)"

definition ctl_LogSize :: "('c gobval list \<Rightarrow> int) \<Rightarrow> 'c Ctl_Harness.config \<Rightarrow> int res" where
  "ctl_LogSize sz cfg = largest (Ctl_Harness.saved_now cfg) (RaftStateSize sz) (ct_n cfg)"

lemma largest_ok:
  assumes "\<And>i. i < n \<Longrightarrow> \<exists>ps. now_saved i = Some ps \<and> 0 \<le> f ps"
  shows "\<exists>m. largest now_saved f n = Inr m \<and> (\<forall>i < n. f (the (now_saved i)) \<le> m) \<and>
    (m = 0 \<or> (\<exists>i < n. m = f (the (now_saved i))))"
  using assms
proof (induction n)
  case 0
  show ?case by (simp add: largest_def)
next
  case (Suc n)
  then obtain m where m: "largest now_saved f n = Inr m" "\<forall>i < n. f (the (now_saved i)) \<le> m"
    "m = 0 \<or> (\<exists>i < n. m = f (the (now_saved i)))" by auto
  obtain ps where ps: "now_saved n = Some ps" using Suc.prems [of n] by auto
  have "largest now_saved f (Suc n) = Inr (if f ps > m then f ps else m)"
    using m(1) ps by (simp add: largest_def foldR_append)
  moreover have "\<forall>i < Suc n. f (the (now_saved i)) \<le> (if f ps > m then f ps else m)"
    using m(2) ps by (auto simp: less_Suc_eq intro: order_trans)
  moreover have "(if f ps > m then f ps else m) = 0 \<or> (\<exists>i < Suc n. (if f ps > m then f ps else m) = f (the (now_saved i)))"
    using m(3) ps by (auto simp: less_Suc_eq)
  ultimately show ?case by blast
qed

text \<open>\<^verbatim>\<open>checklogs\<close> of shardkv: the persister of server \<open>i\<close> of a group, and the two conditions on the sizes.\<close>

definition group_saved :: "'c group \<Rightarrow> nat \<Rightarrow> 'c Persister option" where
  "group_saved gg i =
     (case g_saved gg ! i of
        None \<Rightarrow> None
      | Some ps \<Rightarrow> (case g_servers gg ! i of None \<Rightarrow> Some ps | Some kv \<Rightarrow> Some (persister (sk_rf kv))))"

definition check_sizes :: "('c gobval list \<Rightarrow> int) \<Rightarrow> int \<Rightarrow> 'c Persister \<Rightarrow> unit res" where
  "check_sizes sz maxraft ps =
     (let raft = RaftStateSize sz ps; snap = int (length (slice_elems (ReadSnapshot ps)))
      in if maxraft \<ge> 0 \<and> raft > 8 * maxraft then Inl (LogFatal ''persister.RaftStateSize() too large'')
         else if maxraft < 0 \<and> snap > 0 then Inl (LogFatal ''maxraftstate is -1, but snapshot is non-empty!'')
         else Inr ())"

definition checklogs :: "('c gobval list \<Rightarrow> int) \<Rightarrow> 'c ShardKV_Harness.config \<Rightarrow> unit res" where
  "checklogs sz cfg =
     foldR (\<lambda>_ gi. bindR (index (groups cfg) (int gi)) (\<lambda>gg.
       foldR (\<lambda>_ i. case group_saved gg i of
                       None \<Rightarrow> Inl NilDereference
                     | Some ps \<Rightarrow> check_sizes sz (ShardKV_Harness.maxraftstate cfg) ps) () [0..<sn cfg])) () [0..<ngroups cfg]"

section \<open>Operations under the lock of the harness\<close>

definition kvraft_connect :: "'c KV_Harness.config \<Rightarrow> nat \<Rightarrow> nat list \<Rightarrow> 'c KV_Harness.config res" where
  "kvraft_connect cfg i to = KV_Harness.connectUnlocked cfg i to"

definition kvraft_disconnect :: "'c KV_Harness.config \<Rightarrow> nat \<Rightarrow> nat list \<Rightarrow> 'c KV_Harness.config res" where
  "kvraft_disconnect cfg i frm = KV_Harness.disconnectUnlocked cfg i frm"

definition kvraft_ConnectClient :: "'c KV_Harness.config \<Rightarrow> nat \<Rightarrow> nat list \<Rightarrow> 'c KV_Harness.config res" where
  "kvraft_ConnectClient cfg ck to = KV_Harness.ConnectClientUnlocked cfg ck to"

definition kvraft_DisconnectClient :: "'c KV_Harness.config \<Rightarrow> nat \<Rightarrow> nat list \<Rightarrow> 'c KV_Harness.config res" where
  "kvraft_DisconnectClient cfg ck frm = KV_Harness.DisconnectClientUnlocked cfg ck frm"

definition ctl_connect :: "'c Ctl_Harness.config \<Rightarrow> nat \<Rightarrow> nat list \<Rightarrow> 'c Ctl_Harness.config res" where
  "ctl_connect cfg i to = Ctl_Harness.connectUnlocked cfg i to"

definition ctl_disconnect :: "'c Ctl_Harness.config \<Rightarrow> nat \<Rightarrow> nat list \<Rightarrow> 'c Ctl_Harness.config res" where
  "ctl_disconnect cfg i frm = Ctl_Harness.disconnectUnlocked cfg i frm"

definition raft_rpcCount :: "'c Raft_Harness.config \<Rightarrow> ('w, 'v) Server list \<Rightarrow> nat \<Rightarrow> int res" where
  "raft_rpcCount cfg os i = GetCount (cfg_net cfg) os (iname.Num (int i))"

definition shard_join :: "(nat \<Rightarrow> string \<Rightarrow> (int \<rightharpoonup> string list) \<Rightarrow> CtlReply option) \<Rightarrow> 'c ShardKV_Harness.config \<Rightarrow> nat \<Rightarrow> nat \<Rightarrow>
    (nat \<times> unit) option res" where
  "shard_join ask cfg gi t = joinm ask cfg [gi] (ctl cfg) t"

definition shard_ctljoin :: "(nat \<Rightarrow> string \<Rightarrow> (int \<rightharpoonup> string list) \<Rightarrow> CtlReply option) \<Rightarrow> 'c ShardKV_Harness.config \<Rightarrow> nat \<Rightarrow>
    'c ctrler \<Rightarrow> nat \<Rightarrow> (nat \<times> unit) option res" where
  "shard_ctljoin ask cfg gi ct t = joinm ask cfg [gi] ct t"

definition shard_leave :: "(nat \<Rightarrow> string \<Rightarrow> int list \<Rightarrow> CtlReply option) \<Rightarrow> 'c ShardKV_Harness.config \<Rightarrow> nat \<Rightarrow> nat \<Rightarrow>
    (nat \<times> unit) option res" where
  "shard_leave ask cfg gi t = leavem ask cfg [gi] t"

section \<open>The senders of Raft\<close>

text \<open>A request of a node to the end point of a peer, by one undisturbed call of the network.\<close>

definition send_rpc :: "'v gob \<Rightarrow> ('w, 'v) system \<Rightarrow> string list \<Rightarrow> string \<Rightarrow> string \<Rightarrow> int \<Rightarrow> 'v \<Rightarrow> 'v \<Rightarrow> bool \<Rightarrow> bool \<Rightarrow> bool \<Rightarrow>
    (('w, 'v) system \<times> bool \<times> 'v) res" where
  "send_rpc G s names meth ty server a var lost1 lost2 late =
     bindR (index names server) (\<lambda>e. LabRPC.Call G s (Str e) meth ty a var lost1 lost2 late)"

definition sendRequestVote :: "'v gob \<Rightarrow> ('w, 'v) system \<Rightarrow> string list \<Rightarrow> int \<Rightarrow> 'v \<Rightarrow> 'v \<Rightarrow> bool \<Rightarrow> bool \<Rightarrow> bool \<Rightarrow>
    (('w, 'v) system \<times> bool \<times> 'v) res" where
  "sendRequestVote G s names = send_rpc G s names ''Raft.RequestVote'' ''*RequestVoteArgs''"

definition sendAppendEntries :: "'v gob \<Rightarrow> ('w, 'v) system \<Rightarrow> string list \<Rightarrow> int \<Rightarrow> 'v \<Rightarrow> 'v \<Rightarrow> bool \<Rightarrow> bool \<Rightarrow> bool \<Rightarrow>
    (('w, 'v) system \<times> bool \<times> 'v) res" where
  "sendAppendEntries G s names = send_rpc G s names ''Raft.AppendEntries'' ''*AppendEntriesArgs''"

definition sendInstallSnapshot :: "'v gob \<Rightarrow> ('w, 'v) system \<Rightarrow> string list \<Rightarrow> int \<Rightarrow> 'v \<Rightarrow> 'v \<Rightarrow> bool \<Rightarrow> bool \<Rightarrow> bool \<Rightarrow>
    (('w, 'v) system \<times> bool \<times> 'v) res" where
  "sendInstallSnapshot G s names = send_rpc G s names ''Raft.InstallSnapshot'' ''*InstallSnapshotArgs''"

end
