(* ===== verification/Stub_Services.thy ===== *)
theory Stub_Services
  imports KV_Harness ShardKV_Harness
begin

text \<open>
  The handlers of the services on Raft, src/kvraft/server.go, src/shardctrler/server.go and src/shardkv/server.go, and the clerk
  src/kvraft/client.go. They are empty: a handler leaves the server and the reply variable as they are. The theory has the
  methods that the network finds in the three server types by reflection, and what calls of them return.
\<close>

section \<open>The types of kvraft\<close>

definition ErrWrongLeader :: string where
  "ErrWrongLeader = ''ErrWrongLeader''"

record kr_PutAppendArgs =
  kr_Key :: string
  kr_Value :: string

record kr_GetReply =
  kr_Err :: string
  kr_GetValue :: string

section \<open>Handlers\<close>

definition kvraft_Get :: "'c KVServer \<Rightarrow> string \<Rightarrow> kr_GetReply \<Rightarrow> 'c KVServer \<times> kr_GetReply" where
  "kvraft_Get kv key r = (kv, r)"

definition kvraft_Put :: "'c KVServer \<Rightarrow> kr_PutAppendArgs \<Rightarrow> string \<Rightarrow> 'c KVServer \<times> string" where
  "kvraft_Put kv a err = (kv, err)"

definition kvraft_Append :: "'c KVServer \<Rightarrow> kr_PutAppendArgs \<Rightarrow> string \<Rightarrow> 'c KVServer \<times> string" where
  "kvraft_Append kv a err = (kv, err)"

definition kvraft_killed :: "'c KVServer \<Rightarrow> bool" where
  "kvraft_killed kv = kv_dead kv"

definition shardkv_Get :: "'c ShardKV \<Rightarrow> string \<Rightarrow> GetReply \<Rightarrow> 'c ShardKV \<times> GetReply" where
  "shardkv_Get kv key r = (kv, r)"

definition shardkv_PutAppend :: "'c ShardKV \<Rightarrow> PutAppendArgs \<Rightarrow> string \<Rightarrow> 'c ShardKV \<times> string" where
  "shardkv_PutAppend kv a err = (kv, err)"

definition ctrler_Join :: "'c ShardCtrler \<Rightarrow> (int \<rightharpoonup> string list) \<Rightarrow> CtlReply \<Rightarrow> 'c ShardCtrler \<times> CtlReply" where
  "ctrler_Join sc srvs r = (sc, r)"

definition ctrler_Leave :: "'c ShardCtrler \<Rightarrow> int list \<Rightarrow> CtlReply \<Rightarrow> 'c ShardCtrler \<times> CtlReply" where
  "ctrler_Leave sc gids r = (sc, r)"

definition ctrler_Move :: "'c ShardCtrler \<Rightarrow> int \<times> int \<Rightarrow> CtlReply \<Rightarrow> 'c ShardCtrler \<times> CtlReply" where
  "ctrler_Move sc mv r = (sc, r)"

section \<open>The clerk of kvraft\<close>

definition kvraft_Clerk_Get :: "KV_Harness.Clerk \<Rightarrow> string \<Rightarrow> string" where
  "kvraft_Clerk_Get ck key = ''''"

definition kvraft_PutAppend :: "KV_Harness.Clerk \<Rightarrow> string \<Rightarrow> string \<Rightarrow> string \<Rightarrow> KV_Harness.Clerk" where
  "kvraft_PutAppend ck key val opn = ck"

definition kvraft_Clerk_Put :: "KV_Harness.Clerk \<Rightarrow> string \<Rightarrow> string \<Rightarrow> KV_Harness.Clerk" where
  "kvraft_Clerk_Put ck key val = kvraft_PutAppend ck key val ''Put''"

definition kvraft_Clerk_Append :: "KV_Harness.Clerk \<Rightarrow> string \<Rightarrow> string \<Rightarrow> KV_Harness.Clerk" where
  "kvraft_Clerk_Append ck key val = kvraft_PutAppend ck key val ''Append''"

section \<open>What the network makes of them\<close>

definition empty_handler :: "('w, 'v) handler" where
  "empty_handler = (\<lambda>w a r. (w, r))"

text \<open>The exported methods, in the order of their names; \<^verbatim>\<open>Kill\<close> and \<^verbatim>\<open>Raft\<close> are not handlers.\<close>

definition kvraft_service :: "('w, 'v) handler \<Rightarrow> ('w, 'v) Service" where
  "kvraft_service kill = MakeService ''KVServer''
     [go_method ''Append'' 3 0 ''PutAppendReply'' empty_handler, go_method ''Get'' 3 0 ''GetReply'' empty_handler,
      go_method ''Kill'' 1 0 '''' kill, go_method ''Put'' 3 0 ''PutAppendReply'' empty_handler]"

definition shardctrler_service :: "('w, 'v) handler \<Rightarrow> ('w, 'v) handler \<Rightarrow> ('w, 'v) Service" where
  "shardctrler_service kill raft = MakeService ''ShardCtrler''
     [go_method ''Join'' 3 0 ''JoinReply'' empty_handler, go_method ''Kill'' 1 0 '''' kill,
      go_method ''Leave'' 3 0 ''LeaveReply'' empty_handler, go_method ''Move'' 3 0 ''MoveReply'' empty_handler,
      go_method ''Query'' 3 0 ''QueryReply'' empty_handler, go_method ''Raft'' 1 1 '''' raft]"

definition shardkv_service :: "('w, 'v) handler \<Rightarrow> ('w, 'v) Service" where
  "shardkv_service kill = MakeService ''ShardKV''
     [go_method ''Get'' 3 0 ''GetReply'' empty_handler, go_method ''Kill'' 1 0 '''' kill,
      go_method ''PutAppend'' 3 0 ''PutAppendReply'' empty_handler]"

lemmas service_defs = kvraft_service_def shardctrler_service_def shardkv_service_def MakeService_def go_method_def suitable_def

lemma service_methods:
  "dom (methods (kvraft_service kill)) = {''Append'', ''Get'', ''Put''}"
  "dom (methods (shardctrler_service kill raft)) = {''Join'', ''Leave'', ''Move'', ''Query''}"
  "dom (methods (shardkv_service kill)) = {''Get'', ''PutAppend''}"
  by (auto simp: service_defs split: if_splits)

text \<open>A service whose methods are all empty.\<close>

definition empty_service :: "('w, 'v) Service \<Rightarrow> bool" where
  "empty_service svc \<longleftrightarrow> (\<forall>name m. methods svc name = Some m \<longrightarrow> Func m = empty_handler)"

lemma services_empty:
  "empty_service (kvraft_service kill)" "empty_service (shardctrler_service kill raft)" "empty_service (shardkv_service kill)"
  by (auto simp: empty_service_def service_defs split: if_splits)

text \<open>A request to such a service changes nothing and is answered with the zero value of the reply type.\<close>

lemma empty_dispatch:
  assumes "empty_service svc" "Service_dispatch G svc meth req w = Inr (w', r)"
  shows "w' = w \<and> (\<exists>ty. r = \<lparr>ok = True, reply = fst (Encode G (zero G ty))\<rparr>)"
  using assms by (auto simp: Service_dispatch_def empty_service_def empty_handler_def Let_def split: option.splits)

text \<open>
  The comment at \<^verbatim>\<open>PutAppend\<close> of the kvraft clerk proposes to call \<^verbatim>\<open>KVServer.PutAppend\<close>, which the server does not have: the process
  would stop.
\<close>

lemma commented_call_is_fatal:
  assumes "services rs ''KVServer'' = Some (kvraft_service kill)" "svcMeth req = ''KVServer.PutAppend''"
  shows "Server_dispatch G rs req w = Inl (LogFatal ''labrpc.Service.dispatch(): unknown method'')"
proof -
  have "split_method ''KVServer.PutAppend'' = Inr (''KVServer'', ''PutAppend'')"
    by (simp add: split_method_def slice_to_def slice_from_def)
  moreover have "methods (kvraft_service kill) ''PutAppend'' = None" by (simp add: service_defs)
  ultimately show ?thesis using assms by (simp add: Server_dispatch_def Service_dispatch_def Let_def)
qed

end
