(* ===== verification/Spec2Isabelle.thy ===== *)
theory Spec2Isabelle
  imports Raft_Props Raft_Gradient KVSrv_Check KVSrv_Network MR_Apps Porc_Visual LabGob Harness_Extras Stub_Services
begin

text \<open>
  A verification development for a Go repository that implements Raft with a gradient extension, MapReduce, a key/value server, and
  the libraries they are tested with. File names below are relative to the Go module, which is the directory src of the repository.

  \<^bold>\<open>The program and its parts\<close>

  \<^item> raft: the consensus library (raft.go, rpc.go, util.go, persister.go) and its extension by replicated gradients (gradient.go); its test
    harness and the checks of the tests (config.go).
  \<^item> labrpc: the simulated network over which all servers and clients of the repository talk, and with which the harnesses cut
    connections; labgob: a wrapper of encoding/gob that warns about values that do not survive encoding.
  \<^item> kvsrv: a key/value server with duplicate detection and its clerk; kvraft, shardctrler and shardkv: the services on top of Raft, of
    which the repository has the clerks, the start of the servers and the test harnesses, while the handlers are empty.
  \<^item> mr, mrapps, main: MapReduce with coordinator and workers, the applications, and the sequential program.
  \<^item> porcupine and models: the linearizability checker, which the tests use on the histories of the key/value services.

  \<^bold>\<open>Theories\<close>

  \<^item> \<open>Go_Prelude\<close>: panics as values (\<open>res\<close>, \<open>bindR\<close>, \<open>mapR\<close>, \<open>foldR\<close>), checked indexing and slicing, nil slices, decimal numbers, the list
    lemmas that the components share, and the locale \<open>frame\<close> for what operations leave unchanged.
  \<^item> \<open>Raft_Types\<close>, \<open>Raft_Node\<close>: the records of raft and one definition per handler or critical section of the code; goroutines that a section
    starts, and signals, are a list of effects. \<open>Raft_Log\<close>, \<open>Raft_Inv\<close>, \<open>Raft_Append\<close>: the invariant of a node and the effect of each
    operation on it. \<open>Raft_Step\<close>: one node as a step relation, with the contract \<open>node_contract\<close> that every operation keeps; restart,
    stability of term and vote, and the type of the state. \<open>Raft_Cluster\<close>: the group with messages that may be lost, repeated and reordered;
    \<open>Raft_Election\<close>: election safety, from the locale \<open>quorum_system\<close>; \<open>Raft_Matching\<close>: log matching; \<open>Raft_Props\<close>: the results of single
    operations and of a replication round, and the executions that go wrong.
  \<^item> \<open>Raft_Gradient\<close>: gradient.go and demo_gradient.go over an abstract arithmetic of float32.
  \<^item> \<open>LabRPC\<close>: labrpc.go, with the life of a request as a step relation over all interleavings. \<open>LabGob\<close>: labgob.go.
  \<^item> \<open>Raft_Harness\<close>, \<open>Raft_Checks\<close>: raft/config.go. \<open>KV_Harness\<close>: kvraft/config.go. \<open>Ctl_Harness\<close>: shardctrler/config.go, simulated by the one
    before. \<open>ShardKV_Harness\<close>: shardkv/config.go. \<open>KVSrv_Harness\<close>: kvsrv/config.go.
    \<open>Harness_Extras\<close>: what the harnesses have beside their state machines (random names, sizes, operations under a lock, senders).
  \<^item> \<open>Shard_Clerk\<close>: shardctrler/client.go and shardkv/client.go; the sharded clerk relies on the controller's through the locale
    \<open>controller\<close>. \<open>Shard_Ctrler\<close>: shardctrler/server.go. \<open>Stub_Services\<close>: the empty handlers of kvraft, shardctrler and
    shardkv, and what the network makes of them.
  \<^item> \<open>KVServer\<close>: kvsrv/server.go and client.go; retries through the locale \<open>retryable\<close>. \<open>KVSrv_Linear\<close>: clerks, network,
    handlers and the log of the tests as one concurrent system, and the order in which its operations take effect. \<open>KVSrv_Check\<close>: its
    histories pass the checker. \<open>KVSrv_Network\<close>: the clerk over \<^verbatim>\<open>ClientEnd.Call\<close> down to the bytes, which refines the loops of \<open>KVServer\<close>.
  \<^item> \<open>MR_Coordinator\<close>, \<open>MR_Worker\<close>: mr, mrapps/wc.go, mrapps/indexer.go and main/mrsequential.go. \<open>MR_Apps\<close>: the other applications, with the
    locale \<open>order_free\<close> for reduce functions that do not depend on the order of the values, the calls of the workers, and the programs
    main/mrcoordinator.go and mrworker.go.
  \<^item> \<open>Porc_Bitset\<close>: bitset.go, used by the search through the locale \<open>bounded_set\<close>; \<open>Porc_Model\<close>, \<open>Porc_Links\<close>, \<open>Porc_Check\<close>: model.go,
    models/kv.go and the search of checker.go, with the linked list in an explicit store; \<open>Porc_Linear\<close>: linearizability;
    \<open>Porc_Search\<close>: the search decides it; \<open>Porc_Top\<close>: the entry points and the parallel check; \<open>Porc_Accept\<close>: a
    criterion for histories that it accepts; \<open>Porc_Visual\<close>: the data of visualization.go.

  \<^bold>\<open>How the code is modelled\<close>

  Structs are records and enumerations datatypes; a mutex makes a critical section one step; random values, times and the
  answers of the environment are arguments. A panic or a fatal error is a value of \<open>panic\<close>. Packages outside the repository
  (encoding/gob, encoding/json, reflect, fmt) are parameters. Words are used where the width matters: bit sets, hashes and the atomic
  counters. Goroutines are interleaved by the step relations \<open>node_step\<close>, \<open>net_step\<close>, \<open>kv_step\<close>, \<open>harness_reach\<close>, \<open>kv_reach\<close> and \<open>ctl_reach\<close>, by the events of
  \<open>Raft_Cluster\<close>, and by the schedule of \<open>Porc_Top\<close>.

  \<^bold>\<open>Loops and bounds\<close>

  Loops over data are structural recursion or have a measure. Loops that may run for ever are partial functions, where \<open>None\<close> means that
  they do not return: the search of \<^verbatim>\<open>checkSingle\<close>, which is proved to end by the measure \<open>search_measure\<close>, the traversal of linked
  lists, and the retries of the sharded clerks, which are proved to return once the service is stable. The retries of the kvsrv
  clerk and the rounds of the checks run over a list of what happens to each of them, of any length. The recursion of \<^verbatim>\<open>checkType\<close> over
  cyclic types has a bound on its depth, one more than the number of types, which is proved to be enough.

  \<^bold>\<open>What is shown\<close>

  \<^item> Raft: election safety and, without snapshots, log matching in all executions; term, vote and log survive restarts; the answers of the
    RPC handlers on all branches; commitment by majorities; ordered application. Three executions show where the code departs from the
    protocol: \<^verbatim>\<open>matchIndex\<close> and \<^verbatim>\<open>nextIndex\<close> are not reset at an election, so that two nodes may apply different commands at
    an index and a new leader may panic, and the search for the conflicting term makes a leader send the same request for ever.
  \<^item> Gradients: replicas agree, aggregates are averages, none is lost or counted twice.
  \<^item> Network and harnesses: requests are handled at most once and answered by live servers; partitions isolate; crash and restart recover
    the persisted state; the checks accept exactly what they should; the leader is put into the minority; the harness of the sharded
    service needs three servers per group.
  \<^item> Key/value server: exactly-once effect of Put and Append, also through encoding, network and dispatch; in every concurrent execution of clerks, network and handlers the operations
    take effect in one order, each between call and return, so that the test for linearizability passes. Overlapping deliveries of one
    request would apply twice; the clerks of the repository never produce them.
  \<^item> Sharded clerks: return and source of a Get.
  \<^item> MapReduce: the distributed phases equal the sequential program where they agree, tasks are handed out once, and the job
    with several files never ends.
  \<^item> Porcupine: the search decides linearizability, the parallel check is sound for every schedule and timeout, and the visualization
    replays what the checker found.

  \<^bold>\<open>Not modelled\<close>

  The HTML and JavaScript of visualization.go and the JSON it writes; the programs in main for packages that the repository does not contain
  (diskvd, lockc, lockd, pbc, pbd, viewd); what encoding/gob writes byte by byte, of which only the length is used; clocks, except where a time is
  recorded or compared (a timeout may happen at any time); debug output and the \<^verbatim>\<open>String\<close> methods for it; the memory of \<^verbatim>\<open>unsafe\<close> and sockets.
  \<^verbatim>\<open>nrand\<close> is taken to give ids that were not used before.
\<close>

end
